(* ===== verification/Prelude.thy ===== *)
theory Prelude
  imports Main "HOL-Library.Word"
begin

text \<open>
  What every component shares: machine integers and byte strings, the two newtypes of
  \<^verbatim>\<open>lib.rs\<close> (entry and segment ids, ordered by the number they wrap), the errors of
  \<^verbatim>\<open>std::io\<close>, and the state-and-error steps in which the fallible operations are written
  (\<open>and_then\<close> is Rust's \<^verbatim>\<open>?\<close>: it stops at the first error and keeps the state reached there).
\<close>

section \<open>Integers, bytes, ids\<close>

type_synonym u8 = "8 word"
type_synonym u16 = "16 word"
type_synonym u32 = "32 word"
type_synonym u64 = "64 word"
type_synonym bytes = "8 word list"

datatype entry_id = EntryId (eid: u64)

datatype segment_id = SegmentId (sid: u32)

instantiation entry_id :: linorder
begin

definition less_eq_entry_id :: "entry_id \<Rightarrow> entry_id \<Rightarrow> bool" where
  "less_eq_entry_id a b \<longleftrightarrow> eid a \<le> eid b"

definition less_entry_id :: "entry_id \<Rightarrow> entry_id \<Rightarrow> bool" where
  "less_entry_id a b \<longleftrightarrow> eid a < eid b"

instance
  by standard (auto simp: less_eq_entry_id_def less_entry_id_def entry_id.expand)

end

instantiation segment_id :: linorder
begin

definition less_eq_segment_id :: "segment_id \<Rightarrow> segment_id \<Rightarrow> bool" where
  "less_eq_segment_id a b \<longleftrightarrow> sid a \<le> sid b"

definition less_segment_id :: "segment_id \<Rightarrow> segment_id \<Rightarrow> bool" where
  "less_segment_id a b \<longleftrightarrow> sid a < sid b"

instance
  by standard (auto simp: less_eq_segment_id_def less_segment_id_def segment_id.expand)

end

lemma eid_le_iff [simp]: "eid a \<le> eid b \<longleftrightarrow> a \<le> b"
  by (simp add: less_eq_entry_id_def)

lemma eid_less_iff [simp]: "eid a < eid b \<longleftrightarrow> a < b"
  by (simp add: less_entry_id_def)

lemma EntryId_le_iff [simp]: "EntryId a \<le> EntryId b \<longleftrightarrow> a \<le> b"
  by (simp add: less_eq_entry_id_def)

lemma EntryId_less_iff [simp]: "EntryId a < EntryId b \<longleftrightarrow> a < b"
  by (simp add: less_entry_id_def)

lemma SegmentId_le_iff [simp]: "SegmentId a \<le> SegmentId b \<longleftrightarrow> a \<le> b"
  by (simp add: less_eq_segment_id_def)

lemma SegmentId_less_iff [simp]: "SegmentId a < SegmentId b \<longleftrightarrow> a < b"
  by (simp add: less_segment_id_def)

lemma finite_segment_ids [simp, intro!]: "finite (A :: segment_id set)"
proof -
  have "range SegmentId = UNIV"
    by (metis UNIV_eq_I rangeI segment_id.exhaust_sel)
  then have "finite (UNIV :: segment_id set)"
    using finite_imageI [of "UNIV :: u32 set" SegmentId] by simp
  then show ?thesis by (rule finite_subset [OF subset_UNIV])
qed

section \<open>Errors\<close>

text \<open>The kinds of \<^verbatim>\<open>std::io::Error\<close> the code produces or distinguishes.\<close>

datatype io_kind =
    NotFound | AlreadyExists | InvalidData | InvalidInput | UnexpectedEof | DeviceFault

text \<open>How an operation can stop early: with an error value, or with a panic
  (\<^verbatim>\<open>expect\<close>, \<^verbatim>\<open>unwrap\<close>, an index out of range, an arithmetic overflow).\<close>

datatype 'e stop = Err 'e | Panic

section \<open>Steps: a state, a result or an early stop\<close>

type_synonym ('s, 'e, 'a) step = "'s \<Rightarrow> ('e + 'a) \<times> 's"

definition ok :: "'a \<Rightarrow> ('s, 'e, 'a) step" where
  "ok a = (\<lambda>s. (Inr a, s))"

definition err :: "'e \<Rightarrow> ('s, 'e, 'a) step" where
  "err e = (\<lambda>s. (Inl e, s))"

definition and_then :: "('s, 'e, 'a) step \<Rightarrow> ('a \<Rightarrow> ('s, 'e, 'b) step) \<Rightarrow> ('s, 'e, 'b) step" where
  "and_then m f = (\<lambda>s. case m s of (Inl e, t) \<Rightarrow> (Inl e, t) | (Inr a, t) \<Rightarrow> f a t)"

definition map_err :: "('e \<Rightarrow> 'f) \<Rightarrow> ('s, 'e, 'a) step \<Rightarrow> ('s, 'f, 'a) step" where
  "map_err g m = (\<lambda>s. case m s of (Inl e, t) \<Rightarrow> (Inl (g e), t) | (Inr a, t) \<Rightarrow> (Inr a, t))"

fun for_each :: "('a \<Rightarrow> ('s, 'e, unit) step) \<Rightarrow> 'a list \<Rightarrow> ('s, 'e, unit) step" where
  "for_each f [] = ok ()"
| "for_each f (x # xs) = and_then (f x) (\<lambda>_. for_each f xs)"

named_theorems step_simps \<open>one-step evaluation of steps\<close>

lemma ok_apply [simp, step_simps]: "ok a s = (Inr a, s)"
  by (simp add: ok_def)

lemma err_apply [simp, step_simps]: "err e s = (Inl e, s)"
  by (simp add: err_def)

lemma and_then_apply [step_simps]:
  "and_then m f s = (case m s of (Inl e, t) \<Rightarrow> (Inl e, t) | (Inr a, t) \<Rightarrow> f a t)"
  by (simp add: and_then_def)

lemma map_err_apply [step_simps]:
  "map_err g m s = (case m s of (Inl e, t) \<Rightarrow> (Inl (g e), t) | (Inr a, t) \<Rightarrow> (Inr a, t))"
  by (simp add: map_err_def)

lemma and_then_Inr: "m s = (Inr a, t) \<Longrightarrow> and_then m f s = f a t"
  by (simp add: and_then_def)

lemma and_then_Inl: "m s = (Inl e, t) \<Longrightarrow> and_then m f s = (Inl e, t)"
  by (simp add: and_then_def)

lemma and_then_eq_Inr:
  "and_then m f s = (Inr b, u) \<longleftrightarrow> (\<exists>a t. m s = (Inr a, t) \<and> f a t = (Inr b, u))"
  by (auto simp: and_then_def split: prod.splits sum.splits)

lemma and_then_ok [simp]: "and_then (ok a) f = f a"
  by (simp add: and_then_def ok_def)

lemma and_then_assoc: "and_then (and_then m f) g = and_then m (\<lambda>a. and_then (f a) g)"
  by (rule ext) (auto simp: and_then_def split: prod.splits sum.splits)

text \<open>A predicate kept by every stage of a step is kept by the step, stopped early or not.\<close>

definition keeps :: "('s \<Rightarrow> bool) \<Rightarrow> ('s, 'e, 'a) step \<Rightarrow> bool" where
  "keeps I m \<longleftrightarrow> (\<forall>s. I s \<longrightarrow> I (snd (m s)))"

lemma keepsI: "(\<And>s. I s \<Longrightarrow> I (snd (m s))) \<Longrightarrow> keeps I m"
  by (simp add: keeps_def)

lemma keepsD: "keeps I m \<Longrightarrow> I s \<Longrightarrow> I (snd (m s))"
  by (simp add: keeps_def)

lemma keeps_and_then [intro]:
  "keeps I m \<Longrightarrow> (\<And>a. keeps I (f a)) \<Longrightarrow> keeps I (and_then m f)"
  by (fastforce simp: keeps_def and_then_def split: prod.splits sum.splits)

lemma keeps_for_each [intro]: "(\<And>x. keeps I (f x)) \<Longrightarrow> keeps I (for_each f xs)"
  by (induction xs) (auto intro: keepsI)

section \<open>Lists\<close>

lemma map_eq_split: "map f xs = ys @ y # zs \<Longrightarrow> \<exists>as a bs. xs = as @ a # bs \<and> map f as = ys \<and> f a = y \<and> map f bs = zs"
  by (force simp: map_eq_append_conv map_eq_Cons_conv)

lemma take_append_length [simp]: "n = length xs \<Longrightarrow> take n (xs @ ys) = xs"
  by simp

lemma drop_append_length [simp]: "n = length xs \<Longrightarrow> drop n (xs @ ys) = ys"
  by simp

text \<open>Cutting a concatenation at any point keeps a number of whole blocks and a proper prefix of
  the next one.\<close>

lemma take_concat_split:
  assumes "k \<le> length (concat xss)"
  obtains n tail where "n \<le> length xss"
    and "take k (concat xss) = concat (take n xss) @ tail"
    and "tail = [] \<or> (n < length xss \<and> (\<exists>j < length (xss ! n). tail = take j (xss ! n)))"
  using assms
proof (induction xss arbitrary: k thesis)
  case Nil
  then show ?case by (auto intro!: Nil.prems(1) [of 0 "[]"])
next
  case (Cons xs xss)
  show ?case
  proof (cases "k < length xs")
    case True
    show ?thesis
      by (rule Cons.prems(1) [of 0 "take k xs"]) (use True in auto)
  next
    case False
    then have k: "k - length xs \<le> length (concat xss)" using Cons.prems(2) by simp
    show ?thesis
    proof (rule Cons.IH [OF _ k], goal_cases)
      case (1 n tail)
      show ?case
        by (rule Cons.prems(1) [of "Suc n" tail]) (use 1 False in auto)
    qed
  qed
qed

end
