(* ===== verification/Byte_Order.thy ===== *)
theory Byte_Order
  imports Prelude
begin

text \<open>
  Big-endian integers (\<^verbatim>\<open>to_be_bytes\<close>, \<^verbatim>\<open>from_be_bytes\<close> of the Rust standard library) and the
  positional notation behind them, which the eight hex digits of a segment file name use too.
  Both directions of the round trip are proved once, for digits of any width.
\<close>

section \<open>Positional notation on natural numbers\<close>

definition digits :: "nat \<Rightarrow> nat \<Rightarrow> nat \<Rightarrow> nat list" where
  "digits b n x = map (\<lambda>i. x div b ^ i mod b) (rev [0..<n])"

definition horner :: "nat \<Rightarrow> nat list \<Rightarrow> nat" where
  "horner b ds = foldl (\<lambda>a d. a * b + d) 0 ds"

lemma length_digits [simp]: "length (digits b n x) = n"
  by (simp add: digits_def)

lemma digits_Suc: "digits b (Suc n) x = (x div b ^ n mod b) # digits b n x"
  by (simp add: digits_def)

lemma digits_0 [simp]: "digits b 0 x = []"
  by (simp add: digits_def)

lemma set_digits: "0 < b \<Longrightarrow> d \<in> set (digits b n x) \<Longrightarrow> d < b"
  by (auto simp: digits_def)

lemma foldl_horner:
  fixes a b :: nat
  shows "foldl (\<lambda>a d. a * b + d) a ds = a * b ^ length ds + horner b ds"
proof (induction ds arbitrary: a)
  case Nil
  then show ?case by (simp add: horner_def)
next
  case (Cons d ds)
  have "horner b (d # ds) = d * b ^ length ds + horner b ds"
    using Cons.IH [of d] by (simp add: horner_def)
  with Cons.IH [of "a * b + d"] show ?case by (simp add: algebra_simps)
qed

lemma horner_Nil [simp]: "horner b [] = 0"
  by (simp add: horner_def)

lemma horner_Cons [simp]: "horner b (d # ds) = d * b ^ length ds + horner b ds"
  using foldl_horner [of b d ds] by (simp add: horner_def)

lemma horner_digits: "horner b (digits b n x) = x mod b ^ n"
proof (induction n)
  case 0
  then show ?case by simp
next
  case (Suc n)
  have "x mod (b ^ n * b) = b ^ n * (x div b ^ n mod b) + x mod b ^ n"
    by (rule mod_mult2_eq)
  with Suc show ?case by (simp add: digits_Suc algebra_simps)
qed

lemma horner_less: "\<forall>d \<in> set ds. d < b \<Longrightarrow> horner b ds < b ^ length ds"
proof (induction ds)
  case Nil
  then show ?case by simp
next
  case (Cons d ds)
  then have "horner b ds < b ^ length ds" and "Suc d \<le> b" by auto
  then have "d * b ^ length ds + horner b ds < Suc d * b ^ length ds" by simp
  also have "\<dots> \<le> b * b ^ length ds" using \<open>Suc d \<le> b\<close> by (rule mult_le_mono1)
  finally show ?case by simp
qed

lemma digits_add_multiple: "0 < b \<Longrightarrow> digits b n (q * b ^ n + r) = digits b n r"
proof -
  assume b: "0 < b"
  have "(q * b ^ n + r) div b ^ i mod b = r div b ^ i mod b" if "i < n" for i
  proof -
    have "b ^ n = b ^ i * (b * b ^ (n - Suc i))"
      using that by (simp flip: power_Suc power_add)
    then have eq: "q * b ^ n + r = r + (b * (q * b ^ (n - Suc i))) * b ^ i"
      by (simp only: algebra_simps)
    have "(q * b ^ n + r) div b ^ i = b * (q * b ^ (n - Suc i)) + r div b ^ i"
      unfolding eq using b by (subst div_mult_self1) auto
    then show ?thesis by simp
  qed
  then show ?thesis by (auto simp: digits_def)
qed

lemma digits_horner: "\<forall>d \<in> set ds. d < b \<Longrightarrow> digits b (length ds) (horner b ds) = ds"
proof (induction ds)
  case Nil
  then show ?case by simp
next
  case (Cons d ds)
  then have h: "horner b ds < b ^ length ds" and b: "0 < b" and d: "d < b"
    by (auto intro: horner_less)
  have "(d * b ^ length ds + horner b ds) div b ^ length ds = d"
    using h b by simp
  with Cons d b show ?case by (simp add: digits_Suc digits_add_multiple)
qed

section \<open>Machine words as big-endian bytes\<close>

definition to_be :: "nat \<Rightarrow> 'a::len word \<Rightarrow> bytes" where
  "to_be n w = map (\<lambda>i. ucast (drop_bit (8 * i) w)) (rev [0..<n])"

definition from_be :: "bytes \<Rightarrow> 'a::len word" where
  "from_be bs = foldl (\<lambda>a b. a * 256 + ucast b) 0 bs"

abbreviation u32_to_be :: "u32 \<Rightarrow> bytes" where
  "u32_to_be w \<equiv> to_be 4 w"

abbreviation u64_to_be :: "u64 \<Rightarrow> bytes" where
  "u64_to_be w \<equiv> to_be 8 w"

lemma length_to_be [simp]: "length (to_be n w) = n"
  by (simp add: to_be_def)

lemma unat_to_be: "map unat (to_be n w) = digits 256 n (unat w)"
proof -
  have "unat (ucast (drop_bit (8 * i) w) :: u8) = unat w div 256 ^ i mod 256" for i
  proof -
    have "(256 :: nat) ^ i = 2 ^ (8 * i)" by (simp add: power_mult)
    then have "unat (drop_bit (8 * i) w) = unat w div 256 ^ i"
      by (subst unat_drop_bit_eq) (simp only: drop_bit_eq_div)
    then show ?thesis by (simp add: unsigned_ucast_eq take_bit_eq_mod)
  qed
  then show ?thesis by (simp add: to_be_def digits_def)
qed

lemma from_be_horner: "(from_be bs :: 'a::len word) = of_nat (horner 256 (map unat bs))"
proof -
  have "foldl (\<lambda>a b. a * 256 + ucast b) (of_nat a :: 'a word) bs
      = of_nat (foldl (\<lambda>a d. a * 256 + d) a (map unat bs))" for a
  proof (induction bs arbitrary: a)
    case Nil
    then show ?case by simp
  next
    case (Cons b bs)
    have "of_nat a * 256 + ucast b = (of_nat (a * 256 + unat b) :: 'a word)"
      by simp
    with Cons.IH [of "a * 256 + unat b"] show ?case
      by (simp only: foldl.simps list.map)
  qed
  from this [of 0] show ?thesis by (simp add: from_be_def horner_def)
qed

lemma bytes_digits: "\<forall>d \<in> set (map unat (bs :: bytes)). d < 256"
proof -
  have "unat (b :: u8) < 256" for b using unsigned_less [of b] by simp
  then show ?thesis by simp
qed

lemma from_be_to_be:
  assumes "LENGTH('a::len) \<le> 8 * n"
  shows "from_be (to_be n w) = (w :: 'a word)"
proof -
  have "unat w < 2 ^ (8 * n)"
    using unsigned_less [of w] assms
    by (meson less_le_trans one_le_numeral power_increasing)
  then have "unat w mod 256 ^ n = unat w"
    by (simp add: power_mult)
  then show ?thesis
    by (simp add: from_be_horner unat_to_be horner_digits)
qed

lemma to_be_from_be:
  assumes "length bs = n" and "8 * n \<le> LENGTH('a::len)"
  shows "to_be n (from_be bs :: 'a word) = bs"
proof -
  let ?h = "horner 256 (map unat bs)"
  have "?h < 256 ^ length bs"
    using horner_less [OF bytes_digits, of bs] by simp
  also have "(256 :: nat) ^ length bs = 2 ^ (8 * n)"
    using assms(1) by (simp add: power_mult)
  also have "(2 :: nat) ^ (8 * n) \<le> 2 ^ LENGTH('a)"
    using assms(2) by (simp add: power_increasing)
  finally have "unat (of_nat ?h :: 'a word) = ?h"
    by (simp add: unat_of_nat)
  then have "map unat (to_be n (from_be bs :: 'a word)) = map unat bs"
    using assms(1) digits_horner [OF bytes_digits, of bs]
    by (simp add: unat_to_be from_be_horner)
  then show ?thesis
    by (rule map_injective) (auto intro: injI simp: word_unat_eq_iff)
qed

lemma u64_round_trip [simp]: "from_be (u64_to_be w) = w"
  by (rule from_be_to_be) simp

lemma u32_round_trip [simp]: "from_be (u32_to_be w) = w"
  by (rule from_be_to_be) simp

lemma u64_parse [simp]: "length bs = 8 \<Longrightarrow> u64_to_be (from_be bs) = bs"
  by (rule to_be_from_be) auto

lemma u32_parse [simp]: "length bs = 4 \<Longrightarrow> u32_to_be (from_be bs) = bs"
  by (rule to_be_from_be) auto

end
