(* ===== verification/Crates.thy ===== *)
theory Crates
  imports Byte_Order
begin

text \<open>
  The code that is not in the repository, as one record of parameters: the \<^verbatim>\<open>xxhash_rust\<close> digest,
  the \<^verbatim>\<open>yatlv\<close> builder and parser, and the iteration order of a \<^verbatim>\<open>HashSet\<close>, which Rust leaves
  open. Every definition that reaches one of them takes the record as an argument. What the code
  relies on is stated as the predicates \<open>tlv_faithful\<close> (a frame built from a list of fields reads back
  as those fields) and \<open>order_ok\<close> (iteration visits every element once); nothing is assumed
  of the digest. The record \<open>sample\<close> at the end satisfies both, so that a theorem with them as
  hypotheses can be applied at a concrete input.
\<close>

section \<open>The parameters\<close>

text \<open>What the code adds to a \<^verbatim>\<open>yatlv::FrameBuilder\<close>: tagged scalars and tagged sub-frames.\<close>

datatype tlv_value = U8 u8 | U32 u32 | U64 u64 | Data bytes

datatype tlv_add = Add u16 tlv_value | AddFrame u16 "(u16 \<times> tlv_value) list"

datatype tlv_error = TlvError nat

record 'f crates =
  xxh64 :: "bytes \<Rightarrow> u64"
  tlv_build :: "tlv_add list \<Rightarrow> bytes"
  tlv_parse :: "bytes \<Rightarrow> tlv_error + 'f"
  get_u8 :: "'f \<Rightarrow> u16 \<Rightarrow> tlv_error + u8"
  get_u32 :: "'f \<Rightarrow> u16 \<Rightarrow> tlv_error + u32"
  get_u64 :: "'f \<Rightarrow> u16 \<Rightarrow> tlv_error + u64"
  get_data :: "'f \<Rightarrow> u16 \<Rightarrow> tlv_error + bytes"
  get_u32s :: "'f \<Rightarrow> u16 \<Rightarrow> (tlv_error + u32) list"
  get_frames :: "'f \<Rightarrow> u16 \<Rightarrow> (tlv_error + 'f) list"
  hash_order :: "segment_id set \<Rightarrow> segment_id list"

section \<open>What the code relies on\<close>

fun scalar_at :: "tlv_add list \<Rightarrow> u16 \<Rightarrow> tlv_value option" where
  "scalar_at [] t = None"
| "scalar_at (Add u v # xs) t = (if u = t then Some v else scalar_at xs t)"
| "scalar_at (AddFrame u kvs # xs) t = (if u = t then None else scalar_at xs t)"

fun u32s_at :: "tlv_add list \<Rightarrow> u16 \<Rightarrow> u32 list" where
  "u32s_at [] t = []"
| "u32s_at (Add u (U32 v) # xs) t = (if u = t then v # u32s_at xs t else u32s_at xs t)"
| "u32s_at (_ # xs) t = u32s_at xs t"

fun frames_at :: "tlv_add list \<Rightarrow> u16 \<Rightarrow> (u16 \<times> tlv_value) list list" where
  "frames_at [] t = []"
| "frames_at (AddFrame u kvs # xs) t = (if u = t then kvs # frames_at xs t else frames_at xs t)"
| "frames_at (_ # xs) t = frames_at xs t"

text \<open>The getters find the first field with the tag and give an error when there is none.\<close>

definition scalars_read :: "'f crates \<Rightarrow> 'f \<Rightarrow> (u16 \<Rightarrow> tlv_value option) \<Rightarrow> bool" where
  "scalars_read C f field \<longleftrightarrow>
     (\<forall>t v. field t = Some (U8 v) \<longrightarrow> get_u8 C f t = Inr v) \<and>
     (\<forall>t v. field t = Some (U32 v) \<longrightarrow> get_u32 C f t = Inr v) \<and>
     (\<forall>t v. field t = Some (U64 v) \<longrightarrow> get_u64 C f t = Inr v) \<and>
     (\<forall>t v. field t = Some (Data v) \<longrightarrow> get_data C f t = Inr v) \<and>
     (\<forall>t. field t = None \<longrightarrow> (\<exists>e. get_u8 C f t = Inl e) \<and> (\<exists>e. get_u32 C f t = Inl e)
        \<and> (\<exists>e. get_u64 C f t = Inl e) \<and> (\<exists>e. get_data C f t = Inl e))"

definition tlv_faithful :: "'f crates \<Rightarrow> tlv_add list \<Rightarrow> bool" where
  "tlv_faithful C adds \<longleftrightarrow>
     (\<exists>f. tlv_parse C (tlv_build C adds) = Inr f \<and>
        scalars_read C f (scalar_at adds) \<and>
        (\<forall>t. get_u32s C f t = map Inr (u32s_at adds t)) \<and>
        (\<forall>t. list_all2 (\<lambda>r kvs. \<exists>g. r = Inr g \<and> scalars_read C g (map_of kvs))
               (get_frames C f t) (frames_at adds t)))"

definition order_ok :: "'f crates \<Rightarrow> bool" where
  "order_ok C \<longleftrightarrow> (\<forall>S. set (hash_order C S) = S \<and> distinct (hash_order C S))"

lemma set_hash_order [simp]: "order_ok C \<Longrightarrow> set (hash_order C S) = S"
  by (simp add: order_ok_def)

lemma distinct_hash_order [simp]: "order_ok C \<Longrightarrow> distinct (hash_order C S)"
  by (simp add: order_ok_def)

section \<open>A record that satisfies them\<close>

text \<open>
  The parsed form is the list of fields itself; the byte form writes tags and numbers big-endian,
  lengths in unary and a marker byte before each list element, and each decoder returns what it read
  with the bytes left over.
\<close>

definition put_len :: "nat \<Rightarrow> bytes" where
  "put_len n = replicate n 1 @ [0]"

fun put_value :: "tlv_value \<Rightarrow> bytes" where
  "put_value (U8 v) = 0 # to_be 1 v"
| "put_value (U32 v) = 1 # to_be 4 v"
| "put_value (U64 v) = 2 # to_be 8 v"
| "put_value (Data v) = 3 # put_len (length v) @ v"

definition put_pair :: "u16 \<times> tlv_value \<Rightarrow> bytes" where
  "put_pair p = to_be 2 (fst p) @ put_value (snd p)"

fun put_list :: "('a \<Rightarrow> bytes) \<Rightarrow> 'a list \<Rightarrow> bytes" where
  "put_list g [] = [0]"
| "put_list g (x # xs) = 1 # g x @ put_list g xs"

fun put_add :: "tlv_add \<Rightarrow> bytes" where
  "put_add (Add t v) = 0 # put_pair (t, v)"
| "put_add (AddFrame t kvs) = 1 # to_be 2 t @ put_list put_pair kvs"

fun take_len :: "bytes \<Rightarrow> (nat \<times> bytes) option" where
  "take_len [] = None"
| "take_len (b # bs) =
     (if b = 0 then Some (0, bs) else map_option (\<lambda>(n, r). (Suc n, r)) (take_len bs))"

definition take_word :: "nat \<Rightarrow> bytes \<Rightarrow> ('a::len word \<times> bytes) option" where
  "take_word n bs = (if n \<le> length bs then Some (from_be (take n bs), drop n bs) else None)"

fun take_value :: "bytes \<Rightarrow> (tlv_value \<times> bytes) option" where
  "take_value [] = None"
| "take_value (k # bs) =
     (if k = 0 then map_option (\<lambda>(v, r). (U8 v, r)) (take_word 1 bs)
      else if k = 1 then map_option (\<lambda>(v, r). (U32 v, r)) (take_word 4 bs)
      else if k = 2 then map_option (\<lambda>(v, r). (U64 v, r)) (take_word 8 bs)
      else map_option (\<lambda>(n, r). (Data (take n r), drop n r)) (take_len bs))"

definition take_pair :: "bytes \<Rightarrow> ((u16 \<times> tlv_value) \<times> bytes) option" where
  "take_pair bs =
     (case take_word 2 bs of None \<Rightarrow> None
      | Some (t, r) \<Rightarrow> map_option (\<lambda>(v, r'). ((t, v), r')) (take_value r))"

text \<open>The first argument bounds the number of elements; the length of the input is always enough.\<close>

fun take_list :: "nat \<Rightarrow> (bytes \<Rightarrow> ('a \<times> bytes) option) \<Rightarrow> bytes \<Rightarrow> ('a list \<times> bytes) option" where
  "take_list 0 g bs = None"
| "take_list (Suc n) g [] = None"
| "take_list (Suc n) g (b # bs) =
     (if b = 0 then Some ([], bs)
      else case g bs of None \<Rightarrow> None
           | Some (x, r) \<Rightarrow> map_option (\<lambda>(xs, r'). (x # xs, r')) (take_list n g r))"

fun take_add :: "bytes \<Rightarrow> (tlv_add \<times> bytes) option" where
  "take_add [] = None"
| "take_add (k # bs) =
     (if k = 0 then map_option (\<lambda>((t, v), r). (Add t v, r)) (take_pair bs)
      else case take_word 2 bs of None \<Rightarrow> None
           | Some (t, r) \<Rightarrow>
               map_option (\<lambda>(kvs, r'). (AddFrame t kvs, r')) (take_list (length r) take_pair r))"

lemma take_len_put_len [simp]: "take_len (put_len n @ r) = Some (n, r)"
  by (induction n) (simp_all add: put_len_def)

lemma take_word_to_be [simp]:
  "LENGTH('a::len) \<le> 8 * n \<Longrightarrow> take_word n (to_be n (w :: 'a word) @ r) = Some (w, r)"
  by (simp add: take_word_def from_be_to_be)

lemma take_value_put_value [simp]: "take_value (put_value v @ r) = Some (v, r)"
  by (cases v) simp_all

lemma take_pair_put_pair [simp]: "take_pair (put_pair p @ r) = Some (p, r)"
  by (simp add: take_pair_def put_pair_def)

lemma length_put_list: "length xs < length (put_list g xs)"
  by (induction xs) auto

lemma take_list_put_list:
  assumes "\<And>x r. h (g x @ r) = Some (x, r)" and "length xs < n"
  shows "take_list n h (put_list g xs @ r) = Some (xs, r)"
  using assms(2)
proof (induction xs arbitrary: n)
  case Nil
  then show ?case by (cases n) auto
next
  case (Cons x xs)
  then show ?case by (cases n) (auto simp: assms(1))
qed

lemma take_add_put_add [simp]: "take_add (put_add a @ r) = Some (a, r)"
proof (cases a)
  case (Add t v)
  then show ?thesis by simp
next
  case (AddFrame t kvs)
  have "take_list (length (put_list put_pair kvs @ r)) take_pair (put_list put_pair kvs @ r)
      = Some (kvs, r)"
    by (rule take_list_put_list) (simp_all add: length_put_list trans_less_add1)
  with AddFrame show ?thesis by simp
qed

definition sample :: "tlv_add list crates" where
  "sample =
     \<lparr> xxh64 = foldl (\<lambda>h b. h * 31 + ucast b) 7,
       tlv_build = put_list put_add,
       tlv_parse = (\<lambda>bs. case take_list (length bs) take_add bs of
                           None \<Rightarrow> Inl (TlvError 0) | Some (adds, _) \<Rightarrow> Inr adds),
       get_u8 = (\<lambda>f t. case scalar_at f t of Some (U8 v) \<Rightarrow> Inr v | _ \<Rightarrow> Inl (TlvError 1)),
       get_u32 = (\<lambda>f t. case scalar_at f t of Some (U32 v) \<Rightarrow> Inr v | _ \<Rightarrow> Inl (TlvError 1)),
       get_u64 = (\<lambda>f t. case scalar_at f t of Some (U64 v) \<Rightarrow> Inr v | _ \<Rightarrow> Inl (TlvError 1)),
       get_data = (\<lambda>f t. case scalar_at f t of Some (Data v) \<Rightarrow> Inr v | _ \<Rightarrow> Inl (TlvError 1)),
       get_u32s = (\<lambda>f t. map Inr (u32s_at f t)),
       get_frames = (\<lambda>f t. map (\<lambda>kvs. Inr (map (\<lambda>(k, v). Add k v) kvs)) (frames_at f t)),
       hash_order = sorted_list_of_set \<rparr>"

lemma scalar_at_pairs: "scalar_at (map (\<lambda>(k, v). Add k v) kvs) = map_of kvs"
  by (rule ext, induction kvs) auto

lemma sample_scalars: "scalars_read sample f (scalar_at f)"
  by (auto simp: scalars_read_def sample_def)

lemma sample_parse_build: "tlv_parse sample (tlv_build sample adds) = Inr adds"
proof -
  have "take_list (length (put_list put_add adds)) take_add (put_list put_add adds @ []) = Some (adds, [])"
    by (rule take_list_put_list) (simp_all add: length_put_list)
  then show ?thesis by (simp add: sample_def)
qed

lemma sample_faithful [simp]: "tlv_faithful sample adds"
proof -
  have "scalars_read sample (map (\<lambda>(k, v). Add k v) kvs) (map_of kvs)" for kvs
    using sample_scalars [of "map (\<lambda>(k, v). Add k v) kvs"] by (simp add: scalar_at_pairs)
  then have "list_all2 (\<lambda>r kvs. \<exists>g. r = Inr g \<and> scalars_read sample g (map_of kvs))
      (get_frames sample adds t) (frames_at adds t)" for t
    by (auto simp: sample_def list_all2_conv_all_nth)
  then show ?thesis
    using sample_scalars [of adds] sample_parse_build [of adds]
    by (auto simp: tlv_faithful_def sample_def)
qed

lemma sample_order [simp]: "order_ok sample"
  by (simp add: order_ok_def sample_def)

end
