(* ===== verification/Disk.thy ===== *)
theory Disk
  imports Prelude "HOL-Library.AList"
begin

text \<open>
  What the source uses of \<^verbatim>\<open>std::fs\<close>. A world is the store's directory: whether it exists, its
  entries (file name and content, in the order a directory listing gives them) and the outcomes the
  device has in store. Each call to the operating system takes the next outcome: \<open>None\<close> lets it
  succeed, \<open>Some k\<close> makes it fail with \<open>DeviceFault\<close>, a write after its first \<open>k\<close> bytes and a read
  after \<open>k\<close> bytes. When the list is exhausted everything succeeds. So an early return of the code, and
  a crash between two of its calls, are both a world with a fault at that point.

  A world also remembers what a loss of power cannot take away: for each file the content it had when it
  was last synchronised (\<open>saved\<close>), and the names the directory had when it was (\<open>listed\<close>).
\<close>

section \<open>Worlds and files\<close>

record world =
  base_dir_exists :: bool
  entries :: "(string \<times> bytes) list"
  faults :: "nat option list"
  saved :: "string \<Rightarrow> bytes"
  listed :: "string list"

type_synonym 'a io = "(world, io_kind stop, 'a) step"

text \<open>An open file: the name it was opened under and the position of its cursor.\<close>

record handle =
  path :: string
  cursor_at :: nat

abbreviation content :: "world \<Rightarrow> string \<Rightarrow> bytes option" where
  "content w n \<equiv> map_of (entries w) n"

definition put_content :: "string \<Rightarrow> bytes \<Rightarrow> world \<Rightarrow> world" where
  "put_content n c w = w\<lparr>entries := AList.update n c (entries w)\<rparr>"

definition next_outcome :: "world \<Rightarrow> nat option" where
  "next_outcome w = (case faults w of [] \<Rightarrow> None | f # _ \<Rightarrow> f)"

definition spend :: "world \<Rightarrow> world" where
  "spend w = w\<lparr>faults := tl (faults w)\<rparr>"

definition call :: "'a io \<Rightarrow> 'a io" where
  "call act = (\<lambda>w. case next_outcome w of
                     None \<Rightarrow> act (spend w)
                   | Some _ \<Rightarrow> (Inl (Err DeviceFault), spend w))"

text \<open>What synchronising a file or the directory keeps, and what a new file or a cut of a file gives up.\<close>

definition save_file :: "string \<Rightarrow> world \<Rightarrow> world" where
  "save_file n w = w\<lparr>saved := (saved w)(n := case content w n of None \<Rightarrow> [] | Some c \<Rightarrow> c)\<rparr>"

definition save_names :: "world \<Rightarrow> world" where
  "save_names w = w\<lparr>listed := map fst (entries w)\<rparr>"

definition give_up :: "string \<Rightarrow> nat \<Rightarrow> world \<Rightarrow> world" where
  "give_up n k w = w\<lparr>saved := (saved w)(n := take k (saved w n))\<rparr>"

text \<open>A file written and synchronised.\<close>

definition store_file :: "string \<Rightarrow> bytes \<Rightarrow> world \<Rightarrow> world" where
  "store_file n c w = save_file n (put_content n c w)"

section \<open>Calls\<close>

definition fs_exists :: "string \<Rightarrow> world \<Rightarrow> bool \<times> world" where
  "fs_exists n w = (next_outcome w = None \<and> content w n \<noteq> None, spend w)"

definition dir_exists :: "world \<Rightarrow> bool \<times> world" where
  "dir_exists w = (next_outcome w = None \<and> base_dir_exists w, spend w)"

definition fs_create_new :: "string \<Rightarrow> handle io" where
  "fs_create_new n = call (\<lambda>w.
     if \<not> base_dir_exists w then (Inl (Err NotFound), w)
     else if content w n \<noteq> None then (Inl (Err AlreadyExists), w)
     else (Inr \<lparr>path = n, cursor_at = 0\<rparr>, put_content n [] (give_up n 0 w)))"

definition fs_open :: "string \<Rightarrow> handle io" where
  "fs_open n = call (\<lambda>w.
     if content w n = None then (Inl (Err NotFound), w)
     else (Inr \<lparr>path = n, cursor_at = 0\<rparr>, w))"

text \<open>The bytes of a file with \<open>data\<close> written at \<open>off\<close>, a gap filled with zeros.\<close>

definition overwrite :: "bytes \<Rightarrow> nat \<Rightarrow> bytes \<Rightarrow> bytes" where
  "overwrite c off data =
     (if data = [] then c
      else take off (c @ replicate (off - length c) 0) @ data @ drop (off + length data) c)"

text \<open>A file whose name was removed still has its bytes, but no entry shows them any more.\<close>

definition write_bytes :: "string \<Rightarrow> nat \<Rightarrow> bytes \<Rightarrow> world \<Rightarrow> world" where
  "write_bytes n off data w =
     (case content w n of None \<Rightarrow> w | Some c \<Rightarrow> put_content n (overwrite c off data) w)"

definition write_all_at :: "handle \<Rightarrow> bytes \<Rightarrow> nat \<Rightarrow> unit io" where
  "write_all_at f data off = (\<lambda>w.
     case next_outcome w of
       None \<Rightarrow> (Inr (), write_bytes (path f) off data (spend w))
     | Some k \<Rightarrow> (Inl (Err DeviceFault), write_bytes (path f) off (take k data) (spend w)))"

definition write_all :: "handle \<Rightarrow> bytes \<Rightarrow> handle io" where
  "write_all f data = and_then (write_all_at f data (cursor_at f))
     (\<lambda>_. ok (f\<lparr>cursor_at := cursor_at f + length data\<rparr>))"

text \<open>The bytes a reader of \<open>f\<close> gets from the cursor on, and how they end: at the end of the file
  or at a device fault.\<close>

definition read_stream :: "handle \<Rightarrow> world \<Rightarrow> (bytes \<times> io_kind option) \<times> world" where
  "read_stream f w =
     (let c = drop (cursor_at f) (case content w (path f) of None \<Rightarrow> [] | Some c \<Rightarrow> c)
      in case next_outcome w of
           None \<Rightarrow> ((c, None), spend w)
         | Some k \<Rightarrow> ((take k c, Some DeviceFault), spend w))"

definition read_exact :: "handle \<Rightarrow> nat \<Rightarrow> (bytes \<times> handle) io" where
  "read_exact f n = (\<lambda>w.
     case read_stream f w of ((c, fault), w') \<Rightarrow>
       if n \<le> length c then (Inr (take n c, f\<lparr>cursor_at := cursor_at f + n\<rparr>), w')
       else (Inl (Err (case fault of None \<Rightarrow> UnexpectedEof | Some e \<Rightarrow> e)), w'))"

definition set_len :: "handle \<Rightarrow> nat \<Rightarrow> unit io" where
  "set_len f n = call (\<lambda>w.
     case content w (path f) of
       None \<Rightarrow> (Inr (), w)
     | Some c \<Rightarrow> (Inr (), put_content (path f) (take n c @ replicate (n - length c) 0) (give_up (path f) n w)))"

definition sync_all :: "handle \<Rightarrow> unit io" where
  "sync_all f = call (\<lambda>w. (Inr (), save_file (path f) w))"

definition sync_dir :: "unit io" where
  "sync_dir = call (\<lambda>w. if base_dir_exists w then (Inr (), save_names w) else (Inl (Err NotFound), w))"

definition metadata_len :: "string \<Rightarrow> nat io" where
  "metadata_len n = call (\<lambda>w.
     case content w n of None \<Rightarrow> (Inl (Err NotFound), w) | Some c \<Rightarrow> (Inr (length c), w))"

definition remove_file :: "string \<Rightarrow> unit io" where
  "remove_file n = call (\<lambda>w.
     if content w n = None then (Inl (Err NotFound), w)
     else (Inr (), w\<lparr>entries := AList.delete n (entries w)\<rparr>))"

definition read_dir :: "string list io" where
  "read_dir = call (\<lambda>w.
     if base_dir_exists w then (Inr (map fst (entries w)), w) else (Inl (Err NotFound), w))"

section \<open>Laws\<close>

definition healthy :: "world \<Rightarrow> bool" where
  "healthy w \<longleftrightarrow> faults w = []"

definition wf_world :: "world \<Rightarrow> bool" where
  "wf_world w \<longleftrightarrow> distinct (map fst (entries w)) \<and> (entries w \<noteq> [] \<longrightarrow> base_dir_exists w)"

lemma content_put [simp]: "content (put_content n c w) m = (if m = n then Some c else content w m)"
  by (simp add: put_content_def update_conv')

lemma put_content_simps [simp]:
  "base_dir_exists (put_content n c w) = base_dir_exists w"
  "faults (put_content n c w) = faults w"
  "healthy (put_content n c w) = healthy w"
  "put_content n c (put_content n d w) = put_content n c w"
  by (simp_all add: put_content_def healthy_def)

lemma put_content_saved [simp]:
  "saved (put_content n c w) = saved w" "listed (put_content n c w) = listed w"
  by (simp_all add: put_content_def)

lemma saving_simps [simp]:
  "entries (save_file n w) = entries w" "entries (save_names w) = entries w" "entries (give_up n k w) = entries w"
  "faults (save_file n w) = faults w" "faults (save_names w) = faults w" "faults (give_up n k w) = faults w"
  "base_dir_exists (save_file n w) = base_dir_exists w" "base_dir_exists (save_names w) = base_dir_exists w"
  "base_dir_exists (give_up n k w) = base_dir_exists w"
  "healthy (save_file n w) = healthy w" "healthy (save_names w) = healthy w"
  "healthy (give_up n k w) = healthy w"
  "wf_world (save_file n w) = wf_world w" "wf_world (save_names w) = wf_world w"
  "wf_world (give_up n k w) = wf_world w"
  by (simp_all add: save_file_def save_names_def give_up_def healthy_def wf_world_def)

lemma saved_simps [simp]:
  "saved (save_file n w) = (saved w)(n := case content w n of None \<Rightarrow> [] | Some c \<Rightarrow> c)"
  "saved (save_names w) = saved w" "saved (give_up n k w) = (saved w)(n := take k (saved w n))"
  "listed (save_file n w) = listed w" "listed (save_names w) = map fst (entries w)"
  "listed (give_up n k w) = listed w"
  by (simp_all add: save_file_def save_names_def give_up_def)

lemma store_file_simps [simp]:
  "content (store_file n c w) m = (if m = n then Some c else content w m)"
  "base_dir_exists (store_file n c w) = base_dir_exists w" "faults (store_file n c w) = faults w"
  "healthy (store_file n c w) = healthy w" "saved (store_file n c w) = (saved w)(n := c)"
  "listed (store_file n c w) = listed w"
  by (simp_all add: store_file_def)

lemma store_file_folds [simp]:
  "save_file n (put_content n c w) = store_file n c w"
  "store_file n c (put_content n d w) = store_file n c w"
  "store_file n c (give_up n k w) = store_file n c w"
  by (simp_all add: store_file_def) (simp add: save_file_def put_content_def give_up_def)

lemma spend_simps [simp]:
  "entries (spend w) = entries w" "base_dir_exists (spend w) = base_dir_exists w"
  "saved (spend w) = saved w" "listed (spend w) = listed w"
  by (simp_all add: spend_def)

lemma healthy_spend [simp]: "healthy w \<Longrightarrow> spend w = w"
  by (cases w) (simp add: healthy_def spend_def)

lemma healthy_outcome [simp]: "healthy w \<Longrightarrow> next_outcome w = None"
  by (simp add: healthy_def next_outcome_def)

lemma healthy_call [simp]: "healthy w \<Longrightarrow> call act w = act w"
  by (simp add: call_def)

text \<open>Appending at the end of a file, and what a write does to the other files.\<close>

lemma overwrite_at_end [simp]: "overwrite c (length c) data = c @ data"
  by (simp add: overwrite_def)

lemma write_bytes_other: "m \<noteq> n \<Longrightarrow> content (write_bytes n off data w) m = content w m"
  by (simp add: write_bytes_def split: option.split)

lemma write_bytes_content:
  "content w n = Some c \<Longrightarrow> content (write_bytes n off data w) n = Some (overwrite c off data)"
  by (simp add: write_bytes_def)

lemma write_bytes_simps [simp]:
  "base_dir_exists (write_bytes n off data w) = base_dir_exists w"
  "faults (write_bytes n off data w) = faults w"
  "healthy (write_bytes n off data w) = healthy w"
  "content (write_bytes n off data w) m = None \<longleftrightarrow> content w m = None"
  by (auto simp: write_bytes_def healthy_def split: option.split)

lemma wf_world_put [simp]:
  "wf_world w \<Longrightarrow> base_dir_exists w \<Longrightarrow> wf_world (put_content n c w)"
  by (auto simp: wf_world_def put_content_def distinct_update)

lemma wf_world_store_file [simp]:
  "wf_world w \<Longrightarrow> base_dir_exists w \<Longrightarrow> wf_world (store_file n c w)"
  unfolding store_file_def by (simp del: store_file_folds)

lemma wf_world_Nil: "entries w = [] \<Longrightarrow> wf_world w"
  by (simp add: wf_world_def)

lemma wf_world_dir: "wf_world w \<Longrightarrow> content w n = Some c \<Longrightarrow> base_dir_exists w"
  by (auto simp: wf_world_def dest: map_of_SomeD)

lemma healthy_steps [simp]:
  "healthy w \<Longrightarrow> write_all_at f data off w = (Inr (), write_bytes (path f) off data w)"
  "healthy w \<Longrightarrow> sync_all f w = (Inr (), save_file (path f) w)"
  "healthy w \<Longrightarrow> fs_exists n w = (content w n \<noteq> None, w)"
  "healthy w \<Longrightarrow> dir_exists w = (base_dir_exists w, w)"
  by (simp_all add: write_all_at_def sync_all_def fs_exists_def dir_exists_def)

text \<open>An outcome that is not \<open>None\<close> stops every call with an error.\<close>

lemma call_fault: "next_outcome w = Some k \<Longrightarrow> call act w = (Inl (Err DeviceFault), spend w)"
  by (simp add: call_def)

end
