(* ===== verification/Frame.thy ===== *)
theory Frame
  imports Crates Disk
begin

text \<open>
  \<^verbatim>\<open>src/frame.rs\<close>: the frame format (id, payload length, checksum, payload), the buffering cursor
  that writes frames and the scanner that reads them. The scanner keeps two positions, as the code
  does: what its \<^verbatim>\<open>BufReader\<close> has yet to deliver (\<open>stream\<close>, which starts at the cursor of the file it
  was given) and the offset it reports (\<open>position\<close>, which starts at the offset it was given).
\<close>

section \<open>The frame format and the writing cursor\<close>

definition HEADER_LEN :: nat where
  "HEADER_LEN = 8 + 4 + 8"

definition checksum :: "'f crates \<Rightarrow> entry_id \<Rightarrow> bytes \<Rightarrow> u64" where
  "checksum C i payload = xxh64 C (u64_to_be (eid i) @ payload)"

text \<open>\<^verbatim>\<open>FrameBuffer::write\<close>. The length is cut to 32 bits, as the cast in the code does.\<close>

definition buffer_write :: "'f crates \<Rightarrow> bytes \<Rightarrow> entry_id \<Rightarrow> bytes \<Rightarrow> bytes" where
  "buffer_write C buf i payload =
     buf @ u64_to_be (eid i) @ u32_to_be (of_nat (length payload))
         @ u64_to_be (checksum C i payload) @ payload"

record frame_cursor =
  buffered :: bytes
  cur_position :: nat

definition cursor_new :: "nat \<Rightarrow> frame_cursor" where
  "cursor_new pos = \<lparr>buffered = [], cur_position = pos\<rparr>"

definition set_position :: "nat \<Rightarrow> frame_cursor \<Rightarrow> frame_cursor" where
  "set_position pos c = c\<lparr>cur_position := pos\<rparr>"

definition cursor_write :: "'f crates \<Rightarrow> entry_id \<Rightarrow> bytes \<Rightarrow> frame_cursor \<Rightarrow> frame_cursor" where
  "cursor_write C i payload c = c\<lparr>buffered := buffer_write C (buffered c) i payload\<rparr>"

text \<open>\<^verbatim>\<open>FrameCursor::flush\<close> changes the cursor it is called on, and returns early when the write fails.\<close>

type_synonym 'a cursor_io = "(frame_cursor \<times> world, io_kind stop, 'a) step"

definition cursor_flush :: "handle \<Rightarrow> unit cursor_io" where
  "cursor_flush f = (\<lambda>(c, w).
     case write_all_at f (buffered c) (cur_position c) w of
       (Inl e, w1) \<Rightarrow> (Inl e, c, w1)
     | (Inr _, w1) \<Rightarrow>
         (Inr (), c\<lparr>cur_position := cur_position c + length (buffered c), buffered := []\<rparr>, w1))"

section \<open>The scanner\<close>

record frame_scanner =
  stream :: bytes
  stream_end :: "io_kind option"
  chunk :: nat
  position :: nat
  peeked :: "(bytes \<times> nat) option"

datatype scan_error = ChecksumMismatch nat | Truncated nat | ScanIo io_kind

text \<open>\<^verbatim>\<open>FrameScanner::new\<close>: the reader starts at the file's own cursor; \<open>offset\<close> only sets the reported
  position. \<open>chunk\<close> bounds what one \<^verbatim>\<open>read\<close> call returns (no result depends on it).\<close>

definition scanner_new :: "handle \<Rightarrow> nat \<Rightarrow> world \<Rightarrow> frame_scanner \<times> world" where
  "scanner_new f offset w =
     (case read_stream f w of ((c, fault), w') \<Rightarrow>
        (\<lparr>stream = c, stream_end = fault, chunk = 8191, position = offset, peeked = None\<rparr>, w'))"

text \<open>One \<^verbatim>\<open>read\<close> call of the buffered reader: some bytes, none at the end of the file.\<close>

definition reader_read :: "nat \<Rightarrow> (frame_scanner, io_kind, bytes) step" where
  "reader_read limit sc =
     (if stream sc = []
      then (case stream_end sc of None \<Rightarrow> (Inr [], sc) | Some e \<Rightarrow> (Inl e, sc))
      else let n = min limit (Suc (chunk sc))
           in (Inr (take n (stream sc)), sc\<lparr>stream := drop n (stream sc)\<rparr>))"

definition peek_header :: "(frame_scanner, scan_error, (bytes \<times> nat) option) step" where
  "peek_header sc =
     (case peeked sc of
        Some p \<Rightarrow> (Inr (Some p), sc)
      | None \<Rightarrow>
          (let frame_start = position sc in
           case reader_read 1 sc of
             (Inl e, sc1) \<Rightarrow> (Inl (ScanIo e), sc1)
           | (Inr first, sc1) \<Rightarrow>
               if first = [] then (Inr None, sc1)
               else if length (stream sc1) < HEADER_LEN - 1
               then (Inl (Truncated frame_start), sc1\<lparr>stream := []\<rparr>)
               else let header = first @ take (HEADER_LEN - 1) (stream sc1)
                    in (Inr (Some (header, frame_start)),
                        sc1\<lparr>stream := drop (HEADER_LEN - 1) (stream sc1),
                            peeked := Some (header, frame_start)\<rparr>)))"

definition header_id :: "bytes \<Rightarrow> entry_id" where
  "header_id h = EntryId (from_be (take 8 h))"

definition header_payload_len :: "bytes \<Rightarrow> u32" where
  "header_payload_len h = from_be (take 4 (drop 8 h))"

definition header_checksum :: "bytes \<Rightarrow> u64" where
  "header_checksum h = from_be (take 8 (drop 12 h))"

definition unpeek :: "frame_scanner \<Rightarrow> frame_scanner" where
  "unpeek sc = sc\<lparr>peeked := None\<rparr>"

definition consume_peeked_payload :: "u32 \<Rightarrow> nat \<Rightarrow> (frame_scanner, scan_error, unit) step" where
  "consume_peeked_payload payload_len frame_start sc =
     (let n = unat payload_len in
      if n \<le> length (stream sc)
      then (Inr (), sc\<lparr>stream := drop n (stream sc),
                       position := frame_start + HEADER_LEN + n, peeked := None\<rparr>)
      else (Inl (case stream_end sc of None \<Rightarrow> Truncated frame_start | Some e \<Rightarrow> ScanIo e),
            sc\<lparr>stream := []\<rparr>))"

text \<open>The loop of \<^verbatim>\<open>check\<close> that feeds the payload to the hasher, 8 KiB at a time; \<open>hashed\<close> is what the
  hasher was given so far.\<close>

function check_payload :: "nat \<Rightarrow> nat \<Rightarrow> bytes \<Rightarrow> (frame_scanner, scan_error, bytes) step" where
  "check_payload frame_start remaining hashed sc =
     (if remaining = 0 then (Inr hashed, sc)
      else case reader_read (min remaining 8192) sc of
             (Inl e, sc1) \<Rightarrow> (Inl (ScanIo e), sc1)
           | (Inr bs, sc1) \<Rightarrow>
               if bs = [] then (Inl (Truncated frame_start), sc1)
               else check_payload frame_start (remaining - length bs) (hashed @ bs) sc1)"
  by pat_completeness auto
termination
  by (relation "measure (\<lambda>(fs, remaining, hashed, sc). remaining)") auto

declare check_payload.simps [simp del]

definition check :: "'f crates \<Rightarrow> (frame_scanner, scan_error, (entry_id \<times> nat) option) step" where
  "check C = and_then peek_header (\<lambda>p.
     case p of
       None \<Rightarrow> ok None
     | Some (header, frame_start) \<Rightarrow> (\<lambda>sc.
         (let i = header_id header;
              payload_len = unat (header_payload_len header);
              expected = header_checksum header
          in and_then (check_payload frame_start payload_len (u64_to_be (eid i)))
               (\<lambda>hashed sc1.
                  let sc2 = sc1\<lparr>position := frame_start + HEADER_LEN + payload_len\<rparr>
                  in if xxh64 C hashed \<noteq> expected
                     then (Inl (ChecksumMismatch frame_start), sc2)
                     else (Inr (Some (i, frame_start)), sc2))
               (unpeek sc))))"

text \<open>What a scanner has left to read; every frame read makes it smaller.\<close>

definition scan_size :: "frame_scanner \<Rightarrow> nat" where
  "scan_size sc = length (stream sc) + (case peeked sc of None \<Rightarrow> 0 | Some _ \<Rightarrow> 1)"

definition same_but_stream :: "frame_scanner \<Rightarrow> frame_scanner \<Rightarrow> bool" where
  "same_but_stream sc sc' \<longleftrightarrow> position sc' = position sc \<and> peeked sc' = peeked sc
     \<and> stream_end sc' = stream_end sc \<and> chunk sc' = chunk sc"

lemma reader_read_Inr:
  "reader_read n sc = (Inr bs, sc') \<Longrightarrow>
     same_but_stream sc sc' \<and> stream sc = bs @ stream sc' \<and> length bs \<le> n"
  by (auto simp: reader_read_def Let_def same_but_stream_def split: if_splits option.splits)

lemma check_payload_Inr:
  "check_payload fs n hashed sc = (Inr out, sc') \<Longrightarrow>
     same_but_stream sc sc' \<and> hashed @ stream sc = out @ stream sc'
     \<and> length (stream sc) = length (stream sc') + n"
proof (induction fs n hashed sc rule: check_payload.induct)
  case (1 fs n hashed sc)
  show ?case
  proof (cases "n = 0")
    case True
    with "1.prems" show ?thesis by (simp add: check_payload.simps same_but_stream_def)
  next
    case False
    with "1.prems" obtain bs sc1 where
      r: "reader_read (min n 8192) sc = (Inr bs, sc1)" and bs: "bs \<noteq> []"
      and rest: "check_payload fs (n - length bs) (hashed @ bs) sc1 = (Inr out, sc')"
      by (subst (asm) check_payload.simps) (auto split: prod.splits sum.splits if_splits)
    with "1.IH" [OF False r [symmetric] refl bs rest] reader_read_Inr [OF r]
    show ?thesis by (auto simp: same_but_stream_def)
  qed
qed

lemma peek_header_size:
  "peek_header sc = (Inr (Some p), sc') \<Longrightarrow>
     length (stream sc') < scan_size sc \<and> peeked sc' = Some p"
  by (auto simp: peek_header_def scan_size_def HEADER_LEN_def Let_def
           split: option.splits sum.splits prod.splits if_splits
           dest!: reader_read_Inr)

lemma check_size: "check C sc = (Inr (Some x), sc') \<Longrightarrow> scan_size sc' < scan_size sc"
  by (auto simp: check_def and_then_eq_Inr Let_def unpeek_def scan_size_def [of sc']
                 same_but_stream_def
           split: option.splits if_splits
           dest!: check_payload_Inr peek_header_size)

text \<open>\<^verbatim>\<open>FrameScanner::scan_all\<close>.\<close>

datatype scan_status = Clean | TornTail | ChecksumCorrupt

record scan_summary =
  count :: nat
  checkpoints :: "(entry_id \<times> nat) list"
  last_id :: "entry_id option"
  next_offset :: nat
  status :: scan_status

function scan_loop :: "'f crates \<Rightarrow> nat \<Rightarrow> nat \<Rightarrow> (entry_id \<times> nat) list \<Rightarrow> entry_id option \<Rightarrow> nat
    \<Rightarrow> (frame_scanner, io_kind, scan_summary) step" where
  "scan_loop C stride n cps lst good sc =
     (case check C sc of
        (Inr None, sc') \<Rightarrow>
          (Inr \<lparr>count = n, checkpoints = cps, last_id = lst, next_offset = position sc',
                status = Clean\<rparr>, sc')
      | (Inr (Some (i, frame_offset)), sc') \<Rightarrow>
          scan_loop C stride (n + 1)
            (if n mod stride = 0 then cps @ [(i, frame_offset)] else cps)
            (Some i) (position sc') sc'
      | (Inl (Truncated _), sc') \<Rightarrow>
          (Inr \<lparr>count = n, checkpoints = cps, last_id = lst, next_offset = good,
                status = TornTail\<rparr>, sc')
      | (Inl (ChecksumMismatch _), sc') \<Rightarrow>
          (Inr \<lparr>count = n, checkpoints = cps, last_id = lst, next_offset = good,
                status = ChecksumCorrupt\<rparr>, sc')
      | (Inl (ScanIo e), sc') \<Rightarrow> (Inl e, sc'))"
  by pat_completeness auto
termination
  by (relation "measure (\<lambda>(C, stride, n, cps, lst, good, sc). scan_size sc)")
     (auto intro: check_size [OF sym])

declare scan_loop.simps [simp del]

definition scan_all :: "'f crates \<Rightarrow> nat \<Rightarrow> (frame_scanner, io_kind, scan_summary) step" where
  "scan_all C stride sc = scan_loop C stride 0 [] None (position sc) sc"

section \<open>Seeking\<close>

lemma consume_size:
  "peek_header sc = (Inr (Some p), sc1) \<Longrightarrow>
   consume_peeked_payload n fs (unpeek sc1) = (Inr x, sc2) \<Longrightarrow> scan_size sc2 < scan_size sc"
  by (auto simp: consume_peeked_payload_def Let_def unpeek_def scan_size_def [of sc2]
           split: if_splits dest!: peek_header_size)

function seek_to_id :: "entry_id \<Rightarrow> (frame_scanner, scan_error, unit) step" where
  "seek_to_id target sc =
     (case peek_header sc of
        (Inl e, sc1) \<Rightarrow> (Inl e, sc1)
      | (Inr None, sc1) \<Rightarrow> (Inr (), sc1)
      | (Inr (Some (header, frame_start)), sc1) \<Rightarrow>
          if eid target \<le> eid (header_id header) then (Inr (), sc1)
          else (case consume_peeked_payload (header_payload_len header) frame_start (unpeek sc1) of
                  (Inl e, sc2) \<Rightarrow> (Inl e, sc2)
                | (Inr _, sc2) \<Rightarrow> seek_to_id target sc2))"
  by pat_completeness auto
termination
  by (relation "measure (\<lambda>(target, sc). scan_size sc)")
     (auto dest: consume_size [OF sym sym])

function scan_to_after :: "entry_id \<Rightarrow> (frame_scanner, scan_error, nat) step" where
  "scan_to_after target sc =
     (case peek_header sc of
        (Inl e, sc1) \<Rightarrow> (Inl e, sc1)
      | (Inr None, sc1) \<Rightarrow> (Inl (Truncated (position sc1)), sc1)
      | (Inr (Some (header, frame_start)), sc1) \<Rightarrow>
          (case consume_peeked_payload (header_payload_len header) frame_start (unpeek sc1) of
             (Inl e, sc2) \<Rightarrow> (Inl e, sc2)
           | (Inr _, sc2) \<Rightarrow>
               if header_id header = target then (Inr (position sc2), sc2)
               else scan_to_after target sc2))"
  by pat_completeness auto
termination
  by (relation "measure (\<lambda>(target, sc). scan_size sc)")
     (auto dest: consume_size [OF sym sym])

declare seek_to_id.simps [simp del] scan_to_after.simps [simp del]

text \<open>\<^verbatim>\<open>skip\<close> and \<^verbatim>\<open>skip_n\<close>, which the crate's tests use.\<close>

definition skip :: "(frame_scanner, scan_error, bool) step" where
  "skip = and_then peek_header (\<lambda>p.
     case p of
       None \<Rightarrow> ok False
     | Some (header, frame_start) \<Rightarrow> (\<lambda>sc.
         and_then (consume_peeked_payload (header_payload_len header) frame_start)
           (\<lambda>_. ok True) (unpeek sc)))"

fun skip_from :: "nat \<Rightarrow> nat \<Rightarrow> (frame_scanner, scan_error, nat) step" where
  "skip_from i 0 = ok i"
| "skip_from i (Suc n) = and_then skip (\<lambda>b. if b then skip_from (Suc i) n else ok i)"

definition skip_n :: "nat \<Rightarrow> (frame_scanner, scan_error, nat) step" where
  "skip_n n = skip_from 0 n"

section \<open>The payload reader\<close>

record frame_reader =
  fr_id :: entry_id
  remaining :: nat
  payload_len :: nat
  frame_start :: nat

definition scanner_read :: "(frame_scanner, scan_error, frame_reader option) step" where
  "scanner_read = and_then peek_header (\<lambda>p.
     case p of
       None \<Rightarrow> ok None
     | Some (header, fs) \<Rightarrow> (\<lambda>sc.
         (let len = unat (header_payload_len header)
          in (Inr (Some \<lparr>fr_id = header_id header, remaining = len, payload_len = len,
                         frame_start = fs\<rparr>), unpeek sc))))"

text \<open>\<^verbatim>\<open>FrameReader::read\<close> into a buffer of \<open>blen\<close> bytes, on the reader and the scanner it borrows. The
  scanner's position moves when the last payload byte is read.\<close>

definition reader_step :: "nat \<Rightarrow> (frame_reader \<times> frame_scanner, io_kind, bytes) step" where
  "reader_step blen = (\<lambda>(fr, sc).
     if remaining fr = 0 then (Inr [], fr, sc)
     else case reader_read (min (remaining fr) blen) sc of
            (Inl e, sc1) \<Rightarrow> (Inl e, fr, sc1)
          | (Inr bs, sc1) \<Rightarrow>
              if bs = [] then (Inl UnexpectedEof, fr, sc1)
              else let left = remaining fr - length bs
                   in (Inr bs, fr\<lparr>remaining := left\<rparr>,
                       if left = 0
                       then sc1\<lparr>position := frame_start fr + HEADER_LEN + payload_len fr\<rparr>
                       else sc1))"

text \<open>Dropping the reader discards what is left of the payload, errors ignored.\<close>

definition reader_drop :: "frame_reader \<Rightarrow> frame_scanner \<Rightarrow> frame_scanner" where
  "reader_drop fr sc =
     (if 0 < remaining fr
      then sc\<lparr>stream := drop (remaining fr) (stream sc),
              position := frame_start fr + HEADER_LEN + payload_len fr\<rparr>
      else sc)"

text \<open>\<^verbatim>\<open>Read::read_to_end\<close> of the standard library over \<open>reader_step\<close>: read until a call returns no
  bytes; the buffer offered is never empty.\<close>

function read_to_end :: "bytes \<Rightarrow> (frame_reader \<times> frame_scanner, io_kind, bytes) step" where
  "read_to_end acc s =
     (case reader_step 32 s of
        (Inl e, s') \<Rightarrow> (Inl e, s')
      | (Inr bs, s') \<Rightarrow> if bs = [] then (Inr acc, s') else read_to_end (acc @ bs) s')"
  by pat_completeness auto
termination
proof (relation "measure (\<lambda>(acc, fr, sc). remaining fr)", goal_cases)
  case (2 acc s x s' bs)
  then show ?case
    by (cases s) (auto simp: reader_step_def Let_def split: if_splits prod.splits sum.splits)
qed simp

declare read_to_end.simps [simp del]

end
