(* ===== verification/Frame_Laws.thy ===== *)
theory Frame_Laws
  imports Frame
begin

text \<open>
  What the scanner of \<^verbatim>\<open>src/frame.rs\<close> makes of the bytes the cursor writes: a written frame is read
  back; a file of whole frames followed by a piece of one yields exactly the whole frames and their
  offsets; and whatever the scanner accepts is a sequence of frames the writer could have written.
\<close>

section \<open>Sequences of frames\<close>

type_synonym frame = "entry_id \<times> bytes"

definition frame_bytes :: "'f crates \<Rightarrow> frame \<Rightarrow> bytes" where
  "frame_bytes C f = buffer_write C [] (fst f) (snd f)"

definition frames_bytes :: "'f crates \<Rightarrow> frame list \<Rightarrow> bytes" where
  "frames_bytes C fs = concat (map (frame_bytes C) fs)"

definition frame_len :: "frame \<Rightarrow> nat" where
  "frame_len f = HEADER_LEN + length (snd f)"

text \<open>The length field holds 32 bits.\<close>

definition fits :: "frame \<Rightarrow> bool" where
  "fits f \<longleftrightarrow> length (snd f) < 2 ^ 32"

text \<open>The checkpoints of a scan: every \<open>stride\<close>-th frame with its offset.\<close>

fun marks :: "nat \<Rightarrow> nat \<Rightarrow> nat \<Rightarrow> frame list \<Rightarrow> (entry_id \<times> nat) list" where
  "marks stride k off [] = []"
| "marks stride k off (f # fs) =
     (if k mod stride = 0 then [(fst f, off)] else []) @ marks stride (Suc k) (off + frame_len f) fs"

definition last_frame_id :: "frame list \<Rightarrow> entry_id option" where
  "last_frame_id fs = (if fs = [] then None else Some (fst (last fs)))"

lemma length_frame_bytes [simp]: "length (frame_bytes C f) = frame_len f"
  by (simp add: frame_bytes_def buffer_write_def frame_len_def HEADER_LEN_def)

lemma frames_bytes_simps [simp]:
  "frames_bytes C [] = []"
  "frames_bytes C (f # fs) = frame_bytes C f @ frames_bytes C fs"
  "frames_bytes C (fs @ gs) = frames_bytes C fs @ frames_bytes C gs"
  by (simp_all add: frames_bytes_def)

lemma length_frames_bytes: "length (frames_bytes C fs) = sum_list (map frame_len fs)"
  by (induction fs) auto

lemma frame_len_pos [simp]: "0 < frame_len f"
  by (simp add: frame_len_def HEADER_LEN_def)

lemma buffer_write_frame: "buffer_write C buf i p = buf @ frame_bytes C (i, p)"
  by (simp add: buffer_write_def frame_bytes_def)

lemma last_frame_id_simps [simp]:
  "last_frame_id [] = None"
  "last_frame_id (fs @ [f]) = Some (fst f)"
  by (simp_all add: last_frame_id_def)

section \<open>Reading one frame\<close>

definition frame_header :: "'f crates \<Rightarrow> frame \<Rightarrow> bytes" where
  "frame_header C f = u64_to_be (eid (fst f)) @ u32_to_be (of_nat (length (snd f)))
     @ u64_to_be (checksum C (fst f) (snd f))"

lemma frame_bytes_header: "frame_bytes C f = frame_header C f @ snd f"
  by (simp add: frame_bytes_def buffer_write_def frame_header_def)

lemma length_frame_header [simp]: "length (frame_header C f) = HEADER_LEN"
  by (simp add: frame_header_def HEADER_LEN_def)

lemma header_fields [simp]:
  "header_id (frame_header C f) = fst f"
  "header_payload_len (frame_header C f) = of_nat (length (snd f))"
  "header_checksum (frame_header C f) = checksum C (fst f) (snd f)"
  by (simp_all add: header_id_def header_payload_len_def header_checksum_def frame_header_def)

lemma unat_payload_len [simp]: "fits f \<Longrightarrow> unat (of_nat (length (snd f)) :: u32) = length (snd f)"
  by (simp add: fits_def unat_of_nat)

lemma frame_nonempty [simp]: "frame_header C f \<noteq> []" "frame_bytes C f \<noteq> []"
  by (auto simp: frame_header_def frame_bytes_header simp flip: length_0_conv)

lemma peek_header_step:
  assumes "peeked sc = None"
  shows "peek_header sc =
    (if stream sc = []
     then (case stream_end sc of None \<Rightarrow> (Inr None, sc) | Some e \<Rightarrow> (Inl (ScanIo e), sc))
     else if length (stream sc) < HEADER_LEN
     then (Inl (Truncated (position sc)), sc\<lparr>stream := []\<rparr>)
     else (Inr (Some (take HEADER_LEN (stream sc), position sc)),
           sc\<lparr>stream := drop HEADER_LEN (stream sc),
              peeked := Some (take HEADER_LEN (stream sc), position sc)\<rparr>))"
proof (cases "stream sc")
  case Nil
  with assms show ?thesis
    by (auto simp: peek_header_def reader_read_def Let_def split: option.split)
next
  case (Cons b bs)
  with assms show ?thesis
    by (auto simp: peek_header_def reader_read_def HEADER_LEN_def Let_def)
qed

lemma peek_frame:
  assumes "peeked sc = None" and "stream sc = frame_bytes C f @ rest"
  shows "peek_header sc =
    (Inr (Some (frame_header C f, position sc)),
     sc\<lparr>stream := snd f @ rest, peeked := Some (frame_header C f, position sc)\<rparr>)"
proof -
  have "take HEADER_LEN (stream sc) = frame_header C f"
    and "drop HEADER_LEN (stream sc) = snd f @ rest"
    and "\<not> length (stream sc) < HEADER_LEN" and "stream sc \<noteq> []"
    using assms(2) by (simp_all add: frame_bytes_header)
  then show ?thesis
    using assms(1) by (simp add: peek_header_step)
qed

lemma check_payload_enough:
  "n \<le> length (stream sc) \<Longrightarrow>
     check_payload fs n hashed sc = (Inr (hashed @ take n (stream sc)), sc\<lparr>stream := drop n (stream sc)\<rparr>)"
proof (induction fs n hashed sc rule: check_payload.induct)
  case (1 fs n hashed sc)
  show ?case
  proof (cases "n = 0")
    case True
    then show ?thesis by (simp add: check_payload.simps)
  next
    case False
    define m where "m = min (min n 8192) (Suc (chunk sc))"
    define sc1 where "sc1 = sc\<lparr>stream := drop m (stream sc)\<rparr>"
    have m: "0 < m" "m \<le> n" using False by (auto simp: m_def)
    have r: "reader_read (min n 8192) sc = (Inr (take m (stream sc)), sc1)"
      using False "1.prems" by (auto simp: reader_read_def m_def sc1_def Let_def)
    have len: "length (take m (stream sc)) = m" using m "1.prems" by simp
    have ne: "take m (stream sc) \<noteq> []" using m "1.prems" False by auto
    have "check_payload fs (n - m) (hashed @ take m (stream sc)) sc1 =
        (Inr ((hashed @ take m (stream sc)) @ take (n - m) (stream sc1)),
         sc1\<lparr>stream := drop (n - m) (stream sc1)\<rparr>)"
      using "1.IH" [OF False r [symmetric] refl ne] "1.prems" m len by (simp add: sc1_def)
    moreover have "take m (stream sc) @ take (n - m) (drop m (stream sc)) = take n (stream sc)"
      using m take_add [of m "n - m" "stream sc"] by simp
    ultimately show ?thesis
      using False m ne len by (simp add: check_payload.simps [of fs n] r sc1_def)
  qed
qed

lemma check_payload_short:
  "length (stream sc) < n \<Longrightarrow>
     check_payload fs n hashed sc =
       (Inl (case stream_end sc of None \<Rightarrow> Truncated fs | Some e \<Rightarrow> ScanIo e), sc\<lparr>stream := []\<rparr>)"
proof (induction fs n hashed sc rule: check_payload.induct)
  case (1 fs n hashed sc)
  then have n: "n \<noteq> 0" by simp
  show ?case
  proof (cases "stream sc = []")
    case True
    with n show ?thesis
      by (auto simp: check_payload.simps [of fs n] reader_read_def split: option.split)
  next
    case False
    define m where "m = min (min n 8192) (Suc (chunk sc))"
    define sc1 where "sc1 = sc\<lparr>stream := drop m (stream sc)\<rparr>"
    have r: "reader_read (min n 8192) sc = (Inr (take m (stream sc)), sc1)"
      using n False by (auto simp: reader_read_def m_def sc1_def Let_def)
    have ne: "take m (stream sc) \<noteq> []" using n False by (auto simp: m_def)
    have "length (stream sc1) < n - length (take m (stream sc))"
      using "1.prems" n by (auto simp: sc1_def m_def)
    with "1.IH" [OF n r [symmetric] refl ne]
    have "check_payload fs (n - length (take m (stream sc))) (hashed @ take m (stream sc)) sc1
        = (Inl (case stream_end sc of None \<Rightarrow> Truncated fs | Some e \<Rightarrow> ScanIo e), sc\<lparr>stream := []\<rparr>)"
      by (simp add: sc1_def)
    with n ne show ?thesis
      by (simp add: check_payload.simps [of fs n] r)
  qed
qed

lemma check_frame:
  assumes "peeked sc = None" and "stream sc = frame_bytes C f @ rest" and "fits f"
  shows "check C sc = (Inr (Some (fst f, position sc)),
    sc\<lparr>stream := rest, position := position sc + frame_len f\<rparr>)"
  using assms
  by (simp add: check_def and_then_apply peek_frame [OF assms(1,2)] unpeek_def Let_def
        check_payload_enough checksum_def frame_len_def)

lemma check_at_end:
  assumes "peeked sc = None" and "stream sc = []" and "stream_end sc = None"
  shows "check C sc = (Inr None, sc)"
  using assms by (simp add: check_def and_then_apply peek_header_step)

lemma check_torn:
  assumes "peeked sc = None" and "stream_end sc = None"
    and "stream sc = take j (frame_bytes C f)" and "0 < j" and "j < frame_len f" and "fits f"
  shows "fst (check C sc) = Inl (Truncated (position sc))"
proof (cases "j < HEADER_LEN")
  case True
  have "length (stream sc) = j" using assms(3,5) by simp
  with True assms(1,4) show ?thesis
    by (auto simp: check_def and_then_apply peek_header_step)
next
  case False
  then have "stream sc = frame_header C f @ take (j - HEADER_LEN) (snd f)"
    using assms(3) by (simp add: frame_bytes_header)
  then have "peek_header sc = (Inr (Some (frame_header C f, position sc)),
      sc\<lparr>stream := take (j - HEADER_LEN) (snd f), peeked := Some (frame_header C f, position sc)\<rparr>)"
    using assms(1) by (simp add: peek_header_step)
  moreover have "length (take (j - HEADER_LEN) (snd f)) < length (snd f)"
    using False assms(5) by (simp add: frame_len_def)
  ultimately show ?thesis
    using assms(2,6) by (simp add: check_def and_then_apply unpeek_def check_payload_short Let_def)
qed

section \<open>Scanning a file of frames\<close>

lemma scan_loop_frames:
  assumes "\<forall>f \<in> set fs. fits f" and "peeked sc = None" and "stream sc = frames_bytes C fs @ tail"
  shows "\<exists>sc'. scan_loop C stride n cps lst good sc =
      scan_loop C stride (n + length fs) (cps @ marks stride n (position sc) fs)
        (if fs = [] then lst else last_frame_id fs)
        (if fs = [] then good else position sc + length (frames_bytes C fs)) sc'
    \<and> sc' = sc\<lparr>stream := tail, position := position sc + length (frames_bytes C fs)\<rparr>"
  using assms
proof (induction fs arbitrary: n cps lst good sc)
  case Nil
  then show ?case by (cases sc) simp
next
  case (Cons f fs)
  let ?sc = "sc\<lparr>stream := frames_bytes C fs @ tail, position := position sc + frame_len f\<rparr>"
  have "check C sc = (Inr (Some (fst f, position sc)), ?sc)"
    by (rule check_frame) (use Cons.prems in auto)
  then have step: "scan_loop C stride n cps lst good sc =
      scan_loop C stride (n + 1) (if n mod stride = 0 then cps @ [(fst f, position sc)] else cps)
        (Some (fst f)) (position sc + frame_len f) ?sc"
    by (subst scan_loop.simps) simp
  show ?case
    unfolding step
    using Cons.IH [of ?sc "n + 1" _ "Some (fst f)" "position sc + frame_len f"] Cons.prems
    by (auto simp: last_frame_id_def add.assoc)
qed

text \<open>A piece of a frame: what is left of a write that did not finish.\<close>

definition torn_piece :: "'f crates \<Rightarrow> bytes \<Rightarrow> bool" where
  "torn_piece C tail \<longleftrightarrow>
     (\<exists>f j. fits f \<and> 0 < j \<and> j < frame_len f \<and> tail = take j (frame_bytes C f))"

lemma scan_all_frames:
  assumes "\<forall>f \<in> set fs. fits f" and "peeked sc = None" and "stream_end sc = None"
    and "stream sc = frames_bytes C fs @ tail" and "tail = [] \<or> torn_piece C tail"
  shows "fst (scan_all C stride sc) = Inr
    \<lparr>count = length fs, checkpoints = marks stride 0 (position sc) fs,
     last_id = last_frame_id fs, next_offset = position sc + length (frames_bytes C fs),
     status = (if tail = [] then Clean else TornTail)\<rparr>"
proof -
  define sc' where "sc' = sc\<lparr>stream := tail, position := position sc + length (frames_bytes C fs)\<rparr>"
  have loop: "scan_all C stride sc =
      scan_loop C stride (length fs) (marks stride 0 (position sc) fs) (last_frame_id fs)
        (position sc + length (frames_bytes C fs)) sc'"
    using scan_loop_frames [OF assms(1,2,4), of stride 0 "[]" None "position sc"]
    by (auto simp: scan_all_def sc'_def last_frame_id_def)
  show ?thesis
  proof (cases "tail = []")
    case True
    then have "check C sc' = (Inr None, sc')"
      using assms by (intro check_at_end) (simp_all add: sc'_def)
    with True show ?thesis
      unfolding loop by (subst scan_loop.simps) (simp add: sc'_def)
  next
    case False
    with assms(5) obtain f j where "fits f" "0 < j" "j < frame_len f" "tail = take j (frame_bytes C f)"
      by (auto simp: torn_piece_def)
    then have "fst (check C sc') = Inl (Truncated (position sc'))"
      using assms(2,3) by (intro check_torn) (auto simp: sc'_def)
    then show ?thesis
      unfolding loop using False
      by (subst scan_loop.simps) (auto split: prod.split)
  qed
qed

text \<open>Cutting the bytes of a list of frames anywhere.\<close>

lemma take_frames_bytes:
  assumes "\<forall>f \<in> set fs. fits f" and "k \<le> length (frames_bytes C fs)"
  obtains n tail where "n \<le> length fs"
    and "take k (frames_bytes C fs) = frames_bytes C (take n fs) @ tail"
    and "tail = [] \<or> torn_piece C tail"
    and "k < length (frames_bytes C fs) \<Longrightarrow> n < length fs"
    and "n < length fs \<Longrightarrow> k < length (frames_bytes C (take (Suc n) fs))"
proof -
  have "k \<le> length (concat (map (frame_bytes C) fs))"
    using assms(2) by (simp add: frames_bytes_def)
  then show thesis
  proof (rule take_concat_split, goal_cases)
    case (1 n tail)
    then have n: "n \<le> length fs"
      and eq: "take k (frames_bytes C fs) = frames_bytes C (take n fs) @ tail"
      by (simp_all add: frames_bytes_def take_map)
    have torn: "tail = [] \<or> torn_piece C tail"
    proof (rule disjCI)
      assume ne: "\<not> torn_piece C tail"
      show "tail = []"
      proof (rule ccontr)
        assume "tail \<noteq> []"
        with 1(3) obtain j where j: "n < length fs" "j < frame_len (fs ! n)"
          "tail = take j (frame_bytes C (fs ! n))"
          by auto
        with \<open>tail \<noteq> []\<close> have "0 < j" by (cases j) auto
        with j assms(1) have "torn_piece C tail"
          unfolding torn_piece_def by (intro exI [of _ "fs ! n"] exI [of _ j]) simp
        with ne show False by simp
      qed
    qed
    have "n < length fs" if "k < length (frames_bytes C fs)"
    proof (rule ccontr)
      assume "\<not> n < length fs"
      with n have "take k (frames_bytes C fs) = frames_bytes C fs @ tail" using eq by simp
      then have "length (take k (frames_bytes C fs)) \<ge> length (frames_bytes C fs)" by simp
      with that show False by simp
    qed
    moreover have "k < length (frames_bytes C (take (Suc n) fs))" if "n < length fs"
    proof -
      have "length tail < frame_len (fs ! n)" using 1(3) by auto
      moreover have "k = length (frames_bytes C (take n fs)) + length tail"
        using arg_cong [OF eq, of length] assms(2) by simp
      ultimately show ?thesis using that by (simp add: take_Suc_conv_app_nth)
    qed
    ultimately show ?case using that n eq torn by blast
  qed
qed

section \<open>Soundness: what the scanner accepts was written as frames\<close>

lemma header_inverse:
  assumes "length h = HEADER_LEN" and "length p = unat (header_payload_len h)"
    and "checksum C (header_id h) p = header_checksum h"
  shows "h = frame_header C (header_id h, p)"
proof -
  have "h = take 8 h @ take 4 (drop 8 h) @ take 8 (drop 12 h)"
  proof -
    have "take 8 (drop 12 h) = drop 12 h" using assms(1) by (simp add: HEADER_LEN_def)
    moreover have "drop 12 h = drop 4 (drop 8 h)" by simp
    ultimately show ?thesis by (metis append_take_drop_id)
  qed
  moreover have "u64_to_be (eid (header_id h)) = take 8 h"
    using assms(1) by (simp add: header_id_def HEADER_LEN_def)
  moreover have "u32_to_be (of_nat (length p)) = take 4 (drop 8 h)"
    using assms(1) by (simp add: assms(2) header_payload_len_def HEADER_LEN_def)
  moreover have "u64_to_be (checksum C (header_id h) p) = take 8 (drop 12 h)"
    using assms(1) by (simp add: assms(3) header_checksum_def HEADER_LEN_def)
  ultimately show ?thesis by (simp add: frame_header_def)
qed

lemma check_sound:
  assumes "peeked sc = None" and "check C sc = (Inr (Some (i, off)), sc')"
  shows "\<exists>p. fits (i, p) \<and> off = position sc \<and> stream sc = frame_bytes C (i, p) @ stream sc'
    \<and> sc' = sc\<lparr>stream := stream sc', position := position sc + frame_len (i, p)\<rparr>"
proof -
  from assms(2) obtain h fs sc1 where peek: "peek_header sc = (Inr (Some (h, fs)), sc1)"
    by (auto simp: check_def and_then_eq_Inr split: option.splits)
  then have long: "HEADER_LEN \<le> length (stream sc)"
    using assms(1) by (auto simp: peek_header_step split: list.splits option.splits if_splits)
  with peek assms(1)
  have h: "h = take HEADER_LEN (stream sc)" and fs: "fs = position sc"
    and sc1: "sc1 = sc\<lparr>stream := drop HEADER_LEN (stream sc), peeked := Some (h, fs)\<rparr>"
    by (auto simp: peek_header_step split: list.splits option.splits if_splits)
  let ?n = "unat (header_payload_len h)"
  let ?p = "take ?n (stream sc1)"
  have enough: "?n \<le> length (stream sc1)"
    using assms(2) peek
    by (rule_tac ccontr) (auto simp: check_def and_then_apply Let_def unpeek_def check_payload_short)
  then have res: "checksum C (header_id h) ?p = header_checksum h" "i = header_id h" "off = fs"
    "sc' = sc\<lparr>stream := drop ?n (stream sc1), position := position sc + HEADER_LEN + ?n\<rparr>"
    using assms peek
    by (auto simp: check_def and_then_apply Let_def unpeek_def check_payload_enough sc1 fs
                   checksum_def split: if_splits)
  have len: "length ?p = ?n" using enough by simp
  have "h = frame_header C (header_id h, ?p)"
    by (rule header_inverse) (use long h len res(1) in auto)
  then have "frame_bytes C (i, ?p) @ drop ?n (stream sc1) = h @ stream sc1"
    using res(2) by (simp add: frame_bytes_header)
  also have "\<dots> = stream sc" by (simp add: h sc1)
  finally have "stream sc = frame_bytes C (i, ?p) @ stream sc'" using res(4) by simp
  moreover have "fits (i, ?p)"
    using len unsigned_less [of "header_payload_len h"] by (simp add: fits_def)
  moreover have "frame_len (i, ?p) = HEADER_LEN + ?n" by (simp only: frame_len_def snd_conv len)
  ultimately show ?thesis using res fs by (intro exI [of _ ?p]) (simp add: add.assoc)
qed

lemma scan_loop_sound:
  assumes "scan_loop C stride n cps lst good sc = (Inr s, sc')" and "peeked sc = None"
    and "good = position sc"
  shows "\<exists>fs rest. (\<forall>f \<in> set fs. fits f) \<and> stream sc = frames_bytes C fs @ rest
    \<and> count s = n + length fs \<and> checkpoints s = cps @ marks stride n (position sc) fs
    \<and> last_id s = (if fs = [] then lst else last_frame_id fs)
    \<and> next_offset s = position sc + length (frames_bytes C fs)
    \<and> (status s = Clean \<longrightarrow> rest = [])"
  using assms
proof (induction C stride n cps lst good sc rule: scan_loop.induct)
  case (1 C stride n cps lst good sc)
  obtain r sc1 where chk: "check C sc = (r, sc1)" by force
  show ?case
  proof (cases "\<exists>i off. r = Inr (Some (i, off))")
    case True
    then obtain i off where r: "r = Inr (Some (i, off))" by blast
    obtain p where p: "fits (i, p)" "off = position sc" "stream sc = frame_bytes C (i, p) @ stream sc1"
      "sc1 = sc\<lparr>stream := stream sc1, position := position sc + frame_len (i, p)\<rparr>"
      using check_sound [OF "1.prems"(2)] chk r by blast
    let ?cps = "if n mod stride = 0 then cps @ [(i, off)] else cps"
    have "scan_loop C stride (n + 1) ?cps (Some i) (position sc1) sc1 = (Inr s, sc')"
      using "1.prems"(1) chk r by (subst (asm) scan_loop.simps) simp
    moreover have "peeked sc1 = None" using p(4) "1.prems"(2) by (metis frame_scanner.ext_inject frame_scanner.surjective frame_scanner.update_convs(1,4))
    ultimately obtain fs rest where IH: "\<forall>f \<in> set fs. fits f" "stream sc1 = frames_bytes C fs @ rest"
      "count s = n + 1 + length fs" "checkpoints s = ?cps @ marks stride (n + 1) (position sc1) fs"
      "last_id s = (if fs = [] then Some i else last_frame_id fs)"
      "next_offset s = position sc1 + length (frames_bytes C fs)" "status s = Clean \<longrightarrow> rest = []"
      using "1.IH" [of r sc1 "Some (i, off)" "(i, off)" i off] chk r by auto
    have pos: "position sc1 = position sc + frame_len (i, p)"
      using p(4) by (metis frame_scanner.select_convs(4) frame_scanner.surjective frame_scanner.update_convs(4))
    show ?thesis
      by (rule exI [of _ "(i, p) # fs"], rule exI [of _ rest])
         (use IH p pos in \<open>auto simp: last_frame_id_def add.assoc\<close>)
  next
    case False
    have "r = Inr None \<Longrightarrow> stream sc = [] \<and> sc1 = sc"
      using chk "1.prems"(2)
      by (auto simp: check_def and_then_eq_Inr peek_header_step Let_def
               split: option.splits list.splits if_splits)
    with False "1.prems" chk show ?thesis
      by (intro exI [of _ "[]"] exI [of _ "stream sc"])
         (subst (asm) scan_loop.simps, auto split: sum.splits option.splits scan_error.splits)
  qed
qed

end
