(* ===== verification/Frame_Read.thy ===== *)
theory Frame_Read
  imports Frame_Laws
begin

text \<open>
  Moving through a file without checking checksums: \<^verbatim>\<open>seek_to_id\<close>, \<^verbatim>\<open>scan_to_after\<close> and the payload
  reader of \<^verbatim>\<open>src/frame.rs\<close>, stated over the frames a scanner still has in front of it.
\<close>

section \<open>The frames in front of a scanner\<close>

definition awaits :: "'f crates \<Rightarrow> frame list \<Rightarrow> bytes \<Rightarrow> frame_scanner \<Rightarrow> bool" where
  "awaits C fs tail sc \<longleftrightarrow>
     (case peeked sc of
        None \<Rightarrow> stream sc = frames_bytes C fs @ tail
      | Some (h, _) \<Rightarrow> (\<exists>f gs. fs = f # gs \<and> h = frame_header C f
                          \<and> stream sc = snd f @ frames_bytes C gs @ tail))"

text \<open>The offset at which the next frame is reported.\<close>

definition next_start :: "frame_scanner \<Rightarrow> nat" where
  "next_start sc = (case peeked sc of None \<Rightarrow> position sc | Some (_, off) \<Rightarrow> off)"

lemma awaits_start [simp]:
  "peeked sc = None \<Longrightarrow> awaits C fs tail sc \<longleftrightarrow> stream sc = frames_bytes C fs @ tail"
  "peeked sc = None \<Longrightarrow> next_start sc = position sc"
  by (simp_all add: awaits_def next_start_def)

lemma awaits_peeked:
  "peeked sc = Some (frame_header C f, off) \<Longrightarrow> stream sc = snd f @ frames_bytes C fs @ tail \<Longrightarrow>
     awaits C (f # fs) tail sc"
  unfolding awaits_def by (simp del: split_paired_Ex)

lemma peek_awaits:
  assumes "awaits C (f # fs) tail sc"
  obtains sc1 where "peek_header sc = (Inr (Some (frame_header C f, next_start sc)), sc1)"
    and "peeked sc1 = Some (frame_header C f, next_start sc)"
    and "stream sc1 = snd f @ frames_bytes C fs @ tail"
    and "position sc1 = position sc" and "stream_end sc1 = stream_end sc"
proof (cases "peeked sc")
  case None
  with assms have "stream sc = frame_bytes C f @ (frames_bytes C fs @ tail)" by simp
  from peek_frame [OF None this] None show thesis
    by (intro that [of "sc\<lparr>stream := snd f @ frames_bytes C fs @ tail,
          peeked := Some (frame_header C f, position sc)\<rparr>"]) simp_all
next
  case (Some p)
  with assms show thesis
    by (intro that [of sc]) (auto simp: awaits_def next_start_def peek_header_def split: prod.splits)
qed

lemma peek_awaits_end:
  assumes "awaits C [] [] sc" and "stream_end sc = None"
  shows "peek_header sc = (Inr None, sc)"
  using assms by (cases "peeked sc") (auto simp: awaits_def peek_header_step split: prod.splits)

lemma consume_awaits:
  assumes "stream sc1 = snd f @ frames_bytes C fs @ tail" and "fits f"
  shows "consume_peeked_payload (of_nat (length (snd f))) off (unpeek sc1) =
    (Inr (), sc1\<lparr>stream := frames_bytes C fs @ tail, position := off + frame_len f, peeked := None\<rparr>)"
  using assms by (simp add: consume_peeked_payload_def Let_def unpeek_def frame_len_def)

section \<open>Seeking\<close>

lemma seek_to_id_awaits:
  assumes "awaits C fs tail sc" and "\<forall>f \<in> set fs. fits f"
    and "(\<exists>f \<in> set fs. t \<le> fst f) \<or> tail = [] \<and> stream_end sc = None"
  shows "\<exists>sc'. seek_to_id t sc = (Inr (), sc')
    \<and> awaits C (dropWhile (\<lambda>f. fst f < t) fs) tail sc' \<and> stream_end sc' = stream_end sc"
  using assms
proof (induction fs arbitrary: sc)
  case Nil
  then have "peek_header sc = (Inr None, sc)" by (auto intro: peek_awaits_end)
  with Nil.prems show ?case by (subst seek_to_id.simps) auto
next
  case (Cons f fs)
  from Cons.prems(1) obtain sc1 where
    peek: "peek_header sc = (Inr (Some (frame_header C f, next_start sc)), sc1)"
    and sc1: "peeked sc1 = Some (frame_header C f, next_start sc)"
      "stream sc1 = snd f @ frames_bytes C fs @ tail" "stream_end sc1 = stream_end sc"
    by (rule peek_awaits)
  show ?case
  proof (cases "t \<le> fst f")
    case True
    then have "seek_to_id t sc = (Inr (), sc1)"
      by (simp add: seek_to_id.simps [of t sc] peek)
    with True sc1 show ?thesis by (auto intro: awaits_peeked)
  next
    case False
    let ?sc2 = "sc1\<lparr>stream := frames_bytes C fs @ tail, position := next_start sc + frame_len f,
                    peeked := None\<rparr>"
    have "seek_to_id t sc = seek_to_id t ?sc2"
      using False Cons.prems(2)
      by (simp add: seek_to_id.simps [of t sc] peek consume_awaits [OF sc1(2)])
    with Cons.IH [of ?sc2] Cons.prems False sc1(3) show ?thesis by auto
  qed
qed

lemma scan_to_after_awaits:
  assumes "awaits C (ps @ (t, p) # qs) tail sc" and "\<forall>f \<in> set (ps @ [(t, p)]). fits f"
    and "t \<notin> fst ` set ps"
  shows "\<exists>sc'. scan_to_after t sc = (Inr (next_start sc + length (frames_bytes C (ps @ [(t, p)]))), sc')
    \<and> awaits C qs tail sc' \<and> peeked sc' = None"
  using assms
proof (induction ps arbitrary: sc)
  case Nil
  then have "awaits C ((t, p) # qs) tail sc" by simp
  then obtain sc1 where
    peek: "peek_header sc = (Inr (Some (frame_header C (t, p), next_start sc)), sc1)"
    and sc1: "stream sc1 = snd (t, p) @ frames_bytes C qs @ tail"
    by (rule peek_awaits)
  with Nil.prems(2) show ?case
    by (simp add: scan_to_after.simps [of t sc] peek consume_awaits [OF sc1, simplified])
next
  case (Cons f ps)
  then have "awaits C (f # (ps @ (t, p) # qs)) tail sc" by simp
  then obtain sc1 where
    peek: "peek_header sc = (Inr (Some (frame_header C f, next_start sc)), sc1)"
    and sc1: "stream sc1 = snd f @ frames_bytes C (ps @ (t, p) # qs) @ tail"
    by (rule peek_awaits)
  let ?sc2 = "sc1\<lparr>stream := frames_bytes C (ps @ (t, p) # qs) @ tail,
                  position := next_start sc + frame_len f, peeked := None\<rparr>"
  have "scan_to_after t sc = scan_to_after t ?sc2"
    using Cons.prems(2,3) by (auto simp: scan_to_after.simps [of t sc] peek consume_awaits [OF sc1])
  with Cons.IH [of ?sc2] Cons.prems show ?case by (auto simp: add.assoc)
qed

lemma scan_to_after_missing:
  assumes "awaits C fs [] sc" and "\<forall>f \<in> set fs. fits f" and "stream_end sc = None"
    and "t \<notin> fst ` set fs"
  shows "\<exists>off sc'. scan_to_after t sc = (Inl (Truncated off), sc')"
  using assms
proof (induction fs arbitrary: sc)
  case Nil
  then have "peek_header sc = (Inr None, sc)" by (auto intro: peek_awaits_end)
  then show ?case by (subst scan_to_after.simps) simp
next
  case (Cons f fs)
  from Cons.prems(1) obtain sc1 where
    peek: "peek_header sc = (Inr (Some (frame_header C f, next_start sc)), sc1)"
    and sc1: "stream sc1 = snd f @ frames_bytes C fs @ []" and e: "stream_end sc1 = stream_end sc"
    by (rule peek_awaits)
  let ?sc2 = "sc1\<lparr>stream := frames_bytes C fs @ [], position := next_start sc + frame_len f,
                  peeked := None\<rparr>"
  have "scan_to_after t sc = scan_to_after t ?sc2"
    using Cons.prems(2,4) by (auto simp: scan_to_after.simps [of t sc] peek consume_awaits [OF sc1])
  with Cons.IH [of ?sc2] Cons.prems e show ?case by auto
qed

section \<open>Reading payloads\<close>

lemma reader_step_progress:
  assumes "0 < remaining fr" and "remaining fr \<le> length (stream sc)" and "0 < blen"
  obtains m where "0 < m" and "m \<le> remaining fr"
    and "reader_step blen (fr, sc) =
      (Inr (take m (stream sc)), fr\<lparr>remaining := remaining fr - m\<rparr>,
       (sc\<lparr>stream := drop m (stream sc)\<rparr>)
         \<lparr>position := if m = remaining fr then frame_start fr + HEADER_LEN + payload_len fr
                     else position sc\<rparr>)"
proof -
  define m where "m = min (min (remaining fr) blen) (Suc (chunk sc))"
  have m: "0 < m" "m \<le> remaining fr" using assms by (auto simp: m_def)
  moreover have "length (take m (stream sc)) = m" "stream sc \<noteq> []"
    using m assms by auto
  ultimately show thesis
    by (intro that [OF m]) (auto simp: reader_step_def reader_read_def Let_def simp flip: m_def)
qed

lemma read_to_end_done:
  "remaining fr = 0 \<Longrightarrow> read_to_end acc (fr, sc) = (Inr acc, fr, sc)"
  by (simp add: read_to_end.simps reader_step_def)

lemma read_to_end_enough:
  assumes "0 < remaining fr" and "remaining fr \<le> length (stream sc)"
  shows "read_to_end acc (fr, sc) =
    (Inr (acc @ take (remaining fr) (stream sc)), fr\<lparr>remaining := 0\<rparr>,
     sc\<lparr>stream := drop (remaining fr) (stream sc),
        position := frame_start fr + HEADER_LEN + payload_len fr\<rparr>)"
  using assms
proof (induction "remaining fr" arbitrary: acc fr sc rule: less_induct)
  case less
  from less.prems obtain m where m: "0 < m" "m \<le> remaining fr"
    and step: "reader_step 32 (fr, sc) =
      (Inr (take m (stream sc)), fr\<lparr>remaining := remaining fr - m\<rparr>,
       (sc\<lparr>stream := drop m (stream sc)\<rparr>)
         \<lparr>position := if m = remaining fr then frame_start fr + HEADER_LEN + payload_len fr
                     else position sc\<rparr>)"
    by (rule reader_step_progress [of fr sc 32]) simp
  have ne: "take m (stream sc) \<noteq> []" using m less.prems by auto
  show ?case
  proof (cases "m = remaining fr")
    case True
    then show ?thesis
      using step ne by (simp add: read_to_end.simps [of acc] read_to_end_done)
  next
    case False
    let ?fr = "fr\<lparr>remaining := remaining fr - m\<rparr>" and ?sc = "sc\<lparr>stream := drop m (stream sc)\<rparr>"
    have "read_to_end acc (fr, sc) = read_to_end (acc @ take m (stream sc)) (?fr, ?sc)"
      using step ne False by (simp add: read_to_end.simps [of acc])
    also have "\<dots> = (Inr ((acc @ take m (stream sc)) @ take (remaining fr - m) (drop m (stream sc))),
        fr\<lparr>remaining := 0\<rparr>,
        sc\<lparr>stream := drop (remaining fr) (stream sc),
           position := frame_start fr + HEADER_LEN + payload_len fr\<rparr>)"
      using less.hyps [of ?fr ?sc] less.prems m False by simp
    finally show ?thesis
      using m take_add [of m "remaining fr - m" "stream sc"] by simp
  qed
qed

lemma read_to_end_short:
  assumes "length (stream sc) < remaining fr" and "stream_end sc = None"
  shows "\<exists>s'. read_to_end acc (fr, sc) = (Inl UnexpectedEof, s')"
  using assms
proof (induction "length (stream sc)" arbitrary: acc fr sc rule: less_induct)
  case less
  show ?case
  proof (cases "stream sc = []")
    case True
    with less.prems show ?thesis
      by (auto simp: read_to_end.simps [of acc] reader_step_def reader_read_def)
  next
    case False
    define m where "m = min (min (remaining fr) 32) (Suc (chunk sc))"
    have "0 < remaining fr" using less.prems(1) by linarith
    then have m: "0 < m" by (simp add: m_def)
    let ?fr = "fr\<lparr>remaining := remaining fr - length (take m (stream sc))\<rparr>"
    let ?sc = "sc\<lparr>stream := drop m (stream sc)\<rparr>"
    have "reader_step 32 (fr, sc) = (Inr (take m (stream sc)), ?fr, ?sc)"
      using False less.prems m by (auto simp: reader_step_def reader_read_def Let_def simp flip: m_def)
    then have "read_to_end acc (fr, sc) = read_to_end (acc @ take m (stream sc)) (?fr, ?sc)"
      using False m by (simp add: read_to_end.simps [of acc])
    moreover have "\<exists>s'. read_to_end (acc @ take m (stream sc)) (?fr, ?sc) = (Inl UnexpectedEof, s')"
      using False m less.prems by (intro less.hyps) auto
    ultimately show ?thesis by simp
  qed
qed

text \<open>A scanner has less left after reading a frame, whatever the reads return.\<close>

lemma reader_step_size:
  "reader_step n (fr, sc) = (r, fr', sc') \<Longrightarrow> scan_size sc' \<le> scan_size sc"
  by (auto simp: reader_step_def reader_read_def scan_size_def Let_def
      split: if_splits option.splits prod.splits sum.splits)

lemma read_to_end_size:
  "read_to_end acc s = (r, s') \<Longrightarrow> scan_size (snd s') \<le> scan_size (snd s)"
proof (induction acc s rule: read_to_end.induct)
  case (1 acc s)
  obtain q t where st: "reader_step 32 s = (q, t)" by (cases "reader_step 32 s")
  then have le: "scan_size (snd t) \<le> scan_size (snd s)"
    using reader_step_size by (cases s; cases t) auto
  show ?case
  proof (cases "\<exists>bs. q = Inr bs \<and> bs \<noteq> []")
    case True
    then obtain bs where q: "q = Inr bs" "bs \<noteq> []" by blast
    with "1.prems" st have "read_to_end (acc @ bs) t = (r, s')"
      by (simp add: read_to_end.simps [of acc s])
    with "1.IH" [OF st [symmetric] q] le show ?thesis by simp
  next
    case False
    then have "s' = t"
      using "1.prems" st by (subst (asm) read_to_end.simps) (auto split: sum.splits if_splits)
    with le show ?thesis by simp
  qed
qed

lemma scanner_read_size:
  "scanner_read sc = (Inr (Some fr), sc1) \<Longrightarrow> scan_size sc1 < scan_size sc"
  by (auto simp: scanner_read_def and_then_eq_Inr Let_def unpeek_def scan_size_def [of "_\<lparr>peeked := _\<rparr>"]
      split: option.splits dest!: peek_header_size)

lemma read_size:
  "scanner_read sc = (Inr (Some fr), sc1) \<Longrightarrow> read_to_end [] (fr, sc1) = (r, fr', sc2) \<Longrightarrow>
     scan_size sc2 < scan_size sc"
  using scanner_read_size [of sc fr sc1] read_to_end_size [of "[]" "(fr, sc1)" r "(fr', sc2)"] by simp

text \<open>Reading one frame to its end, as \<^verbatim>\<open>replay\<close> and the callers of \<^verbatim>\<open>StoreReader::next\<close> do.\<close>

lemma scanner_read_frame:
  assumes "awaits C (f # fs) tail sc" and "fits f"
  obtains fr sc1 where "scanner_read sc = (Inr (Some fr), sc1)"
    and "fr = \<lparr>fr_id = fst f, remaining = length (snd f), payload_len = length (snd f),
              frame_start = next_start sc\<rparr>"
    and "peeked sc1 = None" and "stream sc1 = snd f @ frames_bytes C fs @ tail"
    and "position sc1 = position sc" and "stream_end sc1 = stream_end sc"
proof -
  from assms(1) obtain sc1 where
    "peek_header sc = (Inr (Some (frame_header C f, next_start sc)), sc1)"
    "stream sc1 = snd f @ frames_bytes C fs @ tail"
    "position sc1 = position sc" "stream_end sc1 = stream_end sc"
    by (rule peek_awaits)
  then show thesis
    using assms(2)
    by (intro that [of _ "unpeek sc1"])
       (auto simp: scanner_read_def and_then_apply unpeek_def Let_def)
qed

lemma scanner_read_end:
  "awaits C [] [] sc \<Longrightarrow> stream_end sc = None \<Longrightarrow> scanner_read sc = (Inr None, sc)"
  by (simp add: scanner_read_def and_then_apply peek_awaits_end)

lemma read_frame_to_end:
  assumes "awaits C (f # fs) tail sc" and "fits f"
  obtains fr sc1 fr' sc2 where "scanner_read sc = (Inr (Some fr), sc1)"
    and "fr_id fr = fst f" and "frame_start fr = next_start sc"
    and "read_to_end [] (fr, sc1) = (Inr (snd f), fr', sc2)"
    and "remaining fr' = 0" and "peeked sc2 = None" and "awaits C fs tail sc2"
    and "position sc2 = (if snd f = [] then position sc else next_start sc + frame_len f)"
    and "stream_end sc2 = stream_end sc"
proof -
  from assms obtain fr sc1 where sc1: "scanner_read sc = (Inr (Some fr), sc1)"
    "peeked sc1 = None" "stream sc1 = snd f @ frames_bytes C fs @ tail"
    "position sc1 = position sc" "stream_end sc1 = stream_end sc"
    and fr: "fr = \<lparr>fr_id = fst f, remaining = length (snd f), payload_len = length (snd f),
              frame_start = next_start sc\<rparr>"
    by (rule scanner_read_frame)
  show thesis
  proof (cases "snd f = []")
    case True
    with sc1 fr show thesis
      by (intro that [OF sc1(1), of fr sc1]) (simp_all add: read_to_end_done)
  next
    case False
    then have r: "read_to_end [] (fr, sc1) = (Inr (snd f), fr\<lparr>remaining := 0\<rparr>,
        sc1\<lparr>stream := frames_bytes C fs @ tail, position := next_start sc + frame_len f\<rparr>)"
      using sc1 fr by (simp add: read_to_end_enough frame_len_def)
    show thesis
      by (rule that [OF sc1(1) _ _ r]) (use False sc1 fr in simp_all)
  qed
qed

end
