(* ===== verification/Frame_Claims.thy ===== *)
theory Frame_Claims
  imports Frame_Read
begin

text \<open>
  The properties of \<^verbatim>\<open>src/frame.rs\<close>, each with an instance: recovery of the whole frames from any cut
  of what was written, soundness and corruption detection of the scan, payloads too long for their
  header, the offsets \<^verbatim>\<open>scan_to_after\<close> reports, seeking, reading payloads, and flushing.
\<close>

section \<open>Scanning\<close>

text \<open>A scanner on a file in a world without faults.\<close>

lemma scanner_new_healthy:
  "healthy w \<Longrightarrow> content w (path f) = Some c \<Longrightarrow> scanner_new f off w =
     (\<lparr>stream = drop (cursor_at f) c, stream_end = None, chunk = 8191, position = off,
       peeked = None\<rparr>, w)"
  by (simp add: scanner_new_def read_stream_def)

text \<open>C10: A crash keeps whole frames. Let a writer have written any frames after the magic number, and let
  the file hold the first \<open>k\<close> bytes of them, for any \<open>k\<close>. Then the scan returns exactly the frames that are
  whole in those bytes: their number, the id of the last, the checkpoint of every \<open>stride\<close>-th, the
  offset right behind the last whole frame, and \<open>Clean\<close> or \<open>TornTail\<close> according to whether a piece of
  the next frame follows.\<close>

theorem scan_after_crash:
  assumes "healthy w" and "content w (path f) = Some (pre @ take k (frames_bytes C fs))"
    and "cursor_at f = length pre" and "\<forall>g \<in> set fs. fits g" and "k \<le> length (frames_bytes C fs)"
  shows "\<exists>n \<le> length fs.
    fst (scan_all C stride (fst (scanner_new f (length pre) w))) = Inr
      \<lparr>count = n, checkpoints = marks stride 0 (length pre) (take n fs),
       last_id = last_frame_id (take n fs),
       next_offset = length pre + length (frames_bytes C (take n fs)),
       status = (if k = length (frames_bytes C (take n fs)) then Clean else TornTail)\<rparr>
    \<and> length (frames_bytes C (take n fs)) \<le> k
    \<and> (n < length fs \<longrightarrow> k < length (frames_bytes C (take (Suc n) fs)))"
proof -
  obtain n tail where n: "n \<le> length fs"
    and eq: "take k (frames_bytes C fs) = frames_bytes C (take n fs) @ tail"
    and tail: "tail = [] \<or> torn_piece C tail"
    and upper: "n < length fs \<Longrightarrow> k < length (frames_bytes C (take (Suc n) fs))"
    using take_frames_bytes [OF assms(4,5)] by metis
  let ?sc = "fst (scanner_new f (length pre) w)"
  have len: "k = length (frames_bytes C (take n fs)) + length tail"
    using arg_cong [OF eq, of length] assms(5) by simp
  have "fst (scan_all C stride ?sc) = Inr
      \<lparr>count = length (take n fs), checkpoints = marks stride 0 (position ?sc) (take n fs),
       last_id = last_frame_id (take n fs),
       next_offset = position ?sc + length (frames_bytes C (take n fs)),
       status = (if tail = [] then Clean else TornTail)\<rparr>"
    by (rule scan_all_frames)
       (use assms tail eq in \<open>auto simp: scanner_new_healthy [OF assms(1,2)] dest: in_set_takeD\<close>)
  then show ?thesis
    using n len upper assms(1,2)
    by (intro exI [of _ n]) (simp add: scanner_new_healthy [OF assms(1,2)] min_absorb2)
qed

text \<open>A file of three frames, the last of them cut.\<close>

definition three_frames :: "frame list" where
  "three_frames = [(EntryId 1, [1, 2, 3]), (EntryId 2, []), (EntryId 5, [9])]"

definition frames_world :: "bytes \<Rightarrow> world" where
  "frames_world c = \<lparr>base_dir_exists = True, entries = [(''f'', c)], faults = [], saved = \<lambda>_. [], listed = []\<rparr>"

definition frames_handle :: handle where
  "frames_handle = \<lparr>path = ''f'', cursor_at = 8\<rparr>"

lemma frames_world_simps [simp]:
  "healthy (frames_world c)" "content (frames_world c) (path frames_handle) = Some c"
  "cursor_at frames_handle = 8"
  by (simp_all add: frames_world_def frames_handle_def healthy_def)

lemma three_frames_simps [simp]:
  "\<forall>g \<in> set three_frames. fits g" "length three_frames = 3"
  "length (frames_bytes C three_frames) = 64"
  "take 2 three_frames = [(EntryId 1, [1, 2, 3]), (EntryId 2, [])]"
  by (simp_all add: three_frames_def fits_def length_frames_bytes frame_len_def HEADER_LEN_def)

theorem scan_after_crash_witness:
  "\<exists>n \<le> 3. fst (scan_all sample 2 (fst (scanner_new frames_handle 8
       (frames_world (replicate 8 0 @ take 50 (frames_bytes sample three_frames)))))) = Inr
     \<lparr>count = n, checkpoints = marks 2 0 8 (take n three_frames),
      last_id = last_frame_id (take n three_frames),
      next_offset = 8 + length (frames_bytes sample (take n three_frames)),
      status = (if 50 = length (frames_bytes sample (take n three_frames)) then Clean else TornTail)\<rparr>
    \<and> length (frames_bytes sample (take n three_frames)) \<le> 50
    \<and> (n < 3 \<longrightarrow> 50 < length (frames_bytes sample (take (Suc n) three_frames)))"
  using scan_after_crash [of "frames_world (replicate 8 0 @ take 50 (frames_bytes sample three_frames))"
      frames_handle "replicate 8 0" 50 sample three_frames 2]
  by simp

text \<open>C19: The scan invents nothing. Whatever bytes the scanner is given, what it counts is a list of
  frames as the writer writes them, standing in the file from the scanner's position on; its
  checkpoints, last id and next offset are those of that list; and it reports \<open>Clean\<close> only if nothing
  follows.\<close>

theorem scan_all_sound:
  assumes "scan_all C stride sc = (Inr s, sc')" and "peeked sc = None"
  shows "\<exists>fs rest. (\<forall>f \<in> set fs. fits f) \<and> stream sc = frames_bytes C fs @ rest
    \<and> count s = length fs \<and> checkpoints s = marks stride 0 (position sc) fs
    \<and> last_id s = last_frame_id fs
    \<and> next_offset s = position sc + length (frames_bytes C fs)
    \<and> (status s = Clean \<longrightarrow> rest = [])"
proof -
  from scan_loop_sound [OF assms(1) [unfolded scan_all_def] assms(2) refl]
  show ?thesis by (auto split: if_splits)
qed

definition empty_scanner :: frame_scanner where
  "empty_scanner = \<lparr>stream = [1, 2, 3], stream_end = None, chunk = 8191, position = 8, peeked = None\<rparr>"

theorem scan_all_sound_witness:
  "fst (scan_all sample 64 empty_scanner) =
     Inr \<lparr>count = 0, checkpoints = [], last_id = None, next_offset = 8, status = TornTail\<rparr>
   \<and> (\<exists>fs rest. (\<forall>f \<in> set fs. fits f) \<and> stream empty_scanner = frames_bytes sample fs @ rest
        \<and> length fs = 0)"
proof -
  let ?s = "\<lparr>count = 0, checkpoints = [], last_id = None, next_offset = 8, status = TornTail\<rparr>"
  have run: "scan_all sample 64 empty_scanner = (Inr ?s, empty_scanner\<lparr>stream := []\<rparr>)"
    by (simp add: scan_all_def scan_loop.simps empty_scanner_def check_def and_then_apply
        peek_header_step HEADER_LEN_def)
  from scan_all_sound [OF run] run show ?thesis by (auto simp: empty_scanner_def)
qed

lemma check_mismatch:
  assumes "peeked sc = None" and "stream sc = h @ p @ rest" and "length h = HEADER_LEN"
    and "length p = unat (header_payload_len h)" and "checksum C (header_id h) p \<noteq> header_checksum h"
  shows "fst (check C sc) = Inl (ChecksumMismatch (position sc))"
proof -
  have "h \<noteq> []" using assms(3) by (auto simp: HEADER_LEN_def)
  then have ne: "h \<noteq> []" "stream sc \<noteq> []" "\<not> length (stream sc) < HEADER_LEN"
    using assms(2,3) by auto
  then have "peek_header sc = (Inr (Some (h, position sc)),
      sc\<lparr>stream := p @ rest, peeked := Some (h, position sc)\<rparr>)"
    using assms(1-3) ne(1) by (simp add: peek_header_step)
  then show ?thesis
    using assms(4,5)
    by (simp add: check_def and_then_apply Let_def unpeek_def check_payload_enough checksum_def)
qed

lemma scan_all_corrupt:
  assumes "\<forall>f \<in> set fs. fits f" and "peeked sc = None"
    and "stream sc = frames_bytes C fs @ h @ p @ rest" and "length h = HEADER_LEN"
    and "length p = unat (header_payload_len h)" and "checksum C (header_id h) p \<noteq> header_checksum h"
  shows "fst (scan_all C stride sc) = Inr
    \<lparr>count = length fs, checkpoints = marks stride 0 (position sc) fs, last_id = last_frame_id fs,
     next_offset = position sc + length (frames_bytes C fs), status = ChecksumCorrupt\<rparr>"
proof -
  define sc' where
    "sc' = sc\<lparr>stream := h @ p @ rest, position := position sc + length (frames_bytes C fs)\<rparr>"
  have loop: "scan_all C stride sc =
      scan_loop C stride (length fs) (marks stride 0 (position sc) fs) (last_frame_id fs)
        (position sc + length (frames_bytes C fs)) sc'"
    using scan_loop_frames [OF assms(1-3), of stride 0 "[]" None "position sc"]
    by (auto simp: scan_all_def sc'_def last_frame_id_def)
  have "fst (check C sc') = Inl (ChecksumMismatch (position sc'))"
    by (rule check_mismatch) (use assms in \<open>simp_all add: sc'_def\<close>)
  then show ?thesis
    unfolding loop by (subst scan_loop.simps) (auto split: prod.split)
qed

text \<open>C20: Corruption is found where it is. If whole frames are followed by a header whose payload is there
  but whose checksum is not that of its id and payload, the scan returns the frames before it, with
  the offset of the bad frame as next offset, and reports \<open>ChecksumCorrupt\<close>, whatever follows.\<close>

theorem scan_corrupt_frame:
  assumes "\<forall>f \<in> set fs. fits f" and "peeked sc = None"
    and "stream sc = frames_bytes C fs @ h @ p @ rest" and "length h = HEADER_LEN"
    and "length p = unat (header_payload_len h)" and "checksum C (header_id h) p \<noteq> header_checksum h"
  shows "fst (scan_all C stride sc) = Inr
    \<lparr>count = length fs, checkpoints = marks stride 0 (position sc) fs, last_id = last_frame_id fs,
     next_offset = position sc + length (frames_bytes C fs), status = ChecksumCorrupt\<rparr>"
  by (rule scan_all_corrupt [OF assms])

definition corrupt_scanner :: frame_scanner where
  "corrupt_scanner = \<lparr>stream = frames_bytes sample [(EntryId 1, [7])]
       @ take HEADER_LEN (frames_bytes sample [(EntryId 2, [8])]) @ [9] @ [5, 5],
     stream_end = None, chunk = 8191, position = 8, peeked = None\<rparr>"

theorem scan_corrupt_frame_witness:
  "fst (scan_all sample 1 corrupt_scanner) = Inr
    \<lparr>count = 1, checkpoints = [(EntryId 1, 8)], last_id = Some (EntryId 1), next_offset = 29,
     status = ChecksumCorrupt\<rparr>"
proof -
  have h: "take HEADER_LEN (frames_bytes sample [(EntryId 2, [8])]) = frame_header sample (EntryId 2, [8])"
    by (simp add: frame_bytes_header)
  have "checksum sample (EntryId 2) [9] \<noteq> checksum sample (EntryId 2) [8]"
    by (simp add: checksum_def sample_def to_be_def)
  then show ?thesis
    using scan_corrupt_frame [of "[(EntryId 1, [7])]" corrupt_scanner sample
        "frame_header sample (EntryId 2, [8])" "[9]" "[5, 5]" 1]
    by (simp add: corrupt_scanner_def frame_bytes_header fits_def last_frame_id_def frame_len_def
        HEADER_LEN_def)
qed

text \<open>C36: A payload of \<open>2 ^ 32\<close> bytes or more cannot be read back. Its length goes into the header modulo
  \<open>2 ^ 32\<close> while its checksum covers all of it, so, unless the hash collides with that of the shorter
  prefix, the scan stops in front of the frame and the entries behind it are lost as well.\<close>

theorem long_payload_unreadable:
  assumes "\<forall>f \<in> set fs. fits f" and "peeked sc = None"
    and stream: "stream sc = frames_bytes C (fs @ (i, p) # gs)" and long: "2 ^ 32 \<le> length p"
    and "checksum C i (take (length p mod 2 ^ 32) p) \<noteq> checksum C i p"
  shows "unat (header_payload_len (frame_header C (i, p))) = length p mod 2 ^ 32
    \<and> fst (scan_all C stride sc) = Inr
        \<lparr>count = length fs, checkpoints = marks stride 0 (position sc) fs, last_id = last_frame_id fs,
         next_offset = position sc + length (frames_bytes C fs), status = ChecksumCorrupt\<rparr>"
proof -
  let ?h = "frame_header C (i, p)" and ?n = "length p mod 2 ^ 32"
  have len: "unat (header_payload_len ?h) = ?n" by (simp add: unat_of_nat)
  have st: "stream sc = frames_bytes C fs @ ?h @ take ?n p @ (drop ?n p @ frames_bytes C gs)"
    unfolding stream by (simp add: frame_bytes_header flip: append_assoc [of "take _ p"])
  have n: "length (take ?n p) = unat (header_payload_len ?h)"
    unfolding len by (simp only: length_take min_absorb2 [OF mod_less_eq_dividend])
  have bad: "checksum C (header_id ?h) (take ?n p) \<noteq> header_checksum ?h" using assms(5) by simp
  show ?thesis using len scan_all_corrupt [OF assms(1,2) st length_frame_header n bad] by blast
qed

theorem long_payload_unreadable_witness:
  "\<exists>p sc. length p = 2 ^ 32 \<and> stream sc = frames_bytes sample [(EntryId 1, [7]), (EntryId 2, p), (EntryId 3, [])]
    \<and> fst (scan_all sample 1 sc) = Inr
        \<lparr>count = 1, checkpoints = [(EntryId 1, 8)], last_id = Some (EntryId 1), next_offset = 29,
         status = ChecksumCorrupt\<rparr>"
proof -
  obtain q :: bytes where q: "length q = 2 ^ 32 - 1" by (rule that) (rule length_replicate)
  have step: "checksum sample (EntryId 2) (q @ [b]) = checksum sample (EntryId 2) q * 31 + ucast b" for b
    by (simp only: checksum_def sample_def crates.simps foldl_append foldl.simps)
  have "checksum sample (EntryId 2) (q @ [0]) \<noteq> checksum sample (EntryId 2) (q @ [1])"
    unfolding step by simp
  then obtain b where b: "checksum sample (EntryId 2) [] \<noteq> checksum sample (EntryId 2) (q @ [b])" by metis
  have len: "length (q @ [b]) = 2 ^ 32" using q by simp
  define sc where "sc = \<lparr>stream = frames_bytes sample ([(EntryId 1, [7])] @ (EntryId 2, q @ [b]) # [(EntryId 3, [])]),
    stream_end = None, chunk = 8191, position = 8, peeked = None\<rparr>"
  have "2 ^ 32 \<le> length (q @ [b])" "checksum sample (EntryId 2) (take (length (q @ [b]) mod 2 ^ 32) (q @ [b]))
      \<noteq> checksum sample (EntryId 2) (q @ [b])" unfolding len using b by simp_all
  from long_payload_unreadable [OF _ _ _ this, of "[(EntryId 1, [7])]" sc "[(EntryId 3, [])]" 1]
  have "fst (scan_all sample 1 sc) = Inr
        \<lparr>count = 1, checkpoints = [(EntryId 1, 8)], last_id = Some (EntryId 1), next_offset = 29,
         status = ChecksumCorrupt\<rparr>"
    by (simp add: sc_def fits_def last_frame_id_def frame_len_def HEADER_LEN_def)
  moreover have "stream sc = frames_bytes sample [(EntryId 1, [7]), (EntryId 2, q @ [b]), (EntryId 3, [])]"
    by (simp only: sc_def frame_scanner.simps append.simps)
  ultimately show ?thesis using len by blast
qed

section \<open>Offsets and seeking\<close>

text \<open>\<^verbatim>\<open>scan_to_after\<close> reports offsets relative to the offset the scanner was made with, but reads from
  where the file's cursor stands. With the cursor behind \<open>pre\<close> and the first frame with the target id
  after \<open>ps\<close>, a scanner made with offset \<open>s\<close> reports \<open>s\<close> plus the bytes of the frames up to the target:
  the true offset exactly when \<open>s\<close> is the cursor's position, and otherwise wrong by the difference
  (\<^verbatim>\<open>truncate_end\<close> passes the offset of an index checkpoint with a file opened at its first
  frame).\<close>

theorem scan_to_after_offset:
  assumes "healthy w" and "content w (path f) = Some (pre @ frames_bytes C (ps @ (t, p) # qs) @ tail)"
    and "cursor_at f = length pre" and "\<forall>g \<in> set (ps @ [(t, p)]). fits g" and "t \<notin> fst ` set ps"
  shows "fst (scan_to_after t (fst (scanner_new f s w)))
       = Inr (s + length (frames_bytes C (ps @ [(t, p)])))
    \<and> (s + length (frames_bytes C (ps @ [(t, p)])) = length (pre @ frames_bytes C (ps @ [(t, p)]))
         \<longleftrightarrow> s = cursor_at f)"
proof -
  let ?sc = "fst (scanner_new f s w)"
  have "awaits C (ps @ (t, p) # qs) tail ?sc"
    using assms(3) by (simp add: scanner_new_healthy [OF assms(1,2)])
  from scan_to_after_awaits [OF this assms(4,5)]
  show ?thesis
    using assms(3) by (auto simp: scanner_new_healthy [OF assms(1,2)])
qed

theorem scan_to_after_offset_witness:
  "fst (scan_to_after (EntryId 2) (fst (scanner_new frames_handle 31
      (frames_world (replicate 8 0 @ frames_bytes sample three_frames))))) = Inr 74
   \<and> length (replicate 8 (0::u8) @ frames_bytes sample (take 2 three_frames)) = 51"
  using scan_to_after_offset [of "frames_world (replicate 8 0 @ frames_bytes sample three_frames)"
      frames_handle "replicate 8 0" sample "[(EntryId 1, [1, 2, 3])]" "EntryId 2" "[]"
      "[(EntryId 5, [9])]" "[]" 31]
  by (simp add: three_frames_def fits_def frame_len_def HEADER_LEN_def)

text \<open>\<^verbatim>\<open>scan_to_after\<close> reaches only an id that is there: in a file of whole frames without the target it
  ends with a truncation error, so a roll-back to an id between two existing ones is refused.\<close>

theorem scan_to_after_absent:
  assumes "healthy w" and "content w (path f) = Some (pre @ frames_bytes C fs)"
    and "cursor_at f = length pre" and "\<forall>g \<in> set fs. fits g" and "t \<notin> fst ` set fs"
  shows "\<exists>off. fst (scan_to_after t (fst (scanner_new f s w))) = Inl (Truncated off)"
proof -
  let ?sc = "fst (scanner_new f s w)"
  have "awaits C fs [] ?sc" "stream_end ?sc = None"
    using assms(3) by (simp_all add: scanner_new_healthy [OF assms(1,2)])
  from scan_to_after_missing [OF this(1) assms(4) this(2) assms(5)] show ?thesis by force
qed

theorem scan_to_after_absent_witness:
  "\<exists>off. fst (scan_to_after (EntryId 3) (fst (scanner_new frames_handle 8
      (frames_world (replicate 8 0 @ frames_bytes sample three_frames))))) = Inl (Truncated off)"
  by (rule scan_to_after_absent [of _ _ "replicate 8 0" sample three_frames])
     (simp_all add: three_frames_def fits_def)

text \<open>\<^verbatim>\<open>seek_to_id\<close> skips exactly the leading frames with smaller ids: what \<^verbatim>\<open>read\<close> returns next is the
  first frame with an id at least the target, and \<^verbatim>\<open>None\<close> when no such frame follows.\<close>

theorem seek_then_read:
  assumes "awaits C fs [] sc" and "\<forall>g \<in> set fs. fits g" and "stream_end sc = None"
  shows "case dropWhile (\<lambda>g. fst g < t) fs of
      [] \<Rightarrow> fst (and_then (seek_to_id t) (\<lambda>_. scanner_read) sc) = Inr None
    | g # gs \<Rightarrow> \<exists>fr. fst (and_then (seek_to_id t) (\<lambda>_. scanner_read) sc) = Inr (Some fr)
                  \<and> fr_id fr = fst g \<and> remaining fr = length (snd g)"
proof -
  obtain sc' where sk: "seek_to_id t sc = (Inr (), sc')"
    and aw: "awaits C (dropWhile (\<lambda>g. fst g < t) fs) [] sc'" and e: "stream_end sc' = None"
    using seek_to_id_awaits [OF assms(1,2)] assms(3) by auto
  have r: "and_then (seek_to_id t) (\<lambda>_. scanner_read) sc = scanner_read sc'"
    using sk by (simp add: and_then_def)
  show ?thesis
  proof (cases "dropWhile (\<lambda>g. fst g < t) fs")
    case Nil
    show ?thesis unfolding Nil using scanner_read_end [OF aw [unfolded Nil] e] by (simp add: r)
  next
    case (Cons g gs)
    then have "g \<in> set fs" by (metis list.set_intros(1) set_dropWhileD)
    then have "fits g" using assms(2) by blast
    from scanner_read_frame [OF aw [unfolded Cons] this] show ?thesis
      by (simp add: r Cons) (metis fst_conv frame_reader.select_convs(1,2))
  qed
qed

definition three_scanner :: frame_scanner where
  "three_scanner = fst (scanner_new frames_handle 8
     (frames_world (replicate 8 0 @ frames_bytes sample three_frames)))"

lemma three_scanner_simps [simp]:
  "peeked three_scanner = None" "stream three_scanner = frames_bytes sample three_frames"
  "stream_end three_scanner = None" "position three_scanner = 8"
  using scanner_new_healthy [OF frames_world_simps(1,2)]
  by (simp_all add: three_scanner_def)

theorem seek_then_read_witness:
  "\<exists>fr. fst (and_then (seek_to_id (EntryId 3)) (\<lambda>_. scanner_read) three_scanner) = Inr (Some fr)
     \<and> fr_id fr = EntryId 5 \<and> remaining fr = 1"
  using seek_then_read [of sample three_frames three_scanner "EntryId 3"]
  by (simp add: three_frames_def fits_def)

section \<open>Reading payloads\<close>

text \<open>The loop of a caller that reads every frame to its end.\<close>

function read_frames :: "frame_scanner \<Rightarrow> (scan_error + io_kind + frame list)" where
  "read_frames sc =
     (case scanner_read sc of
        (Inl e, _) \<Rightarrow> Inl e
      | (Inr None, _) \<Rightarrow> Inr (Inr [])
      | (Inr (Some fr), sc1) \<Rightarrow>
          (case read_to_end [] (fr, sc1) of
             (Inl e, _) \<Rightarrow> Inr (Inl e)
           | (Inr p, _, sc2) \<Rightarrow>
               (case read_frames sc2 of
                  Inl e \<Rightarrow> Inl e
                | Inr (Inl e) \<Rightarrow> Inr (Inl e)
                | Inr (Inr fs) \<Rightarrow> Inr (Inr ((fr_id fr, p) # fs)))))"
  by pat_completeness auto
termination
  by (relation "measure scan_size") (auto dest: read_size [OF sym sym])

declare read_frames.simps [simp del]

text \<open>C27: Reading returns what was written: over a file of whole frames, reading each frame's payload to
  its end yields the ids and payloads that were written, in order.\<close>

theorem read_frames_written:
  assumes "awaits C fs [] sc" and "\<forall>g \<in> set fs. fits g" and "stream_end sc = None"
  shows "read_frames sc = Inr (Inr fs)"
  using assms
proof (induction fs arbitrary: sc)
  case Nil
  then show ?case by (simp add: read_frames.simps [of sc] scanner_read_end)
next
  case (Cons g gs)
  have fits: "fits g" using Cons.prems(2) by simp
  obtain fr sc1 fr' sc2 where r: "scanner_read sc = (Inr (Some fr), sc1)" "fr_id fr = fst g"
    "read_to_end [] (fr, sc1) = (Inr (snd g), fr', sc2)" "peeked sc2 = None"
    "awaits C gs [] sc2" "stream_end sc2 = stream_end sc"
    by (rule read_frame_to_end [OF Cons.prems(1) fits]) blast
  with r Cons show ?case by (simp add: read_frames.simps [of sc])
qed

theorem read_frames_written_witness: "read_frames three_scanner = Inr (Inr three_frames)"
  by (rule read_frames_written [of sample]) (simp_all add: three_frames_def fits_def)

text \<open>Reading a frame to its end through the payload reader moves the reported position behind the
  frame only if the payload is not empty: after an empty frame the scanner still reports the frame's own
  start, although its bytes are consumed, and every later offset is short by a header.\<close>

theorem read_position:
  assumes "awaits C (g # gs) tail sc" and "fits g" and "peeked sc = None"
  shows "\<exists>fr sc1 fr' sc2. scanner_read sc = (Inr (Some fr), sc1)
    \<and> read_to_end [] (fr, sc1) = (Inr (snd g), fr', sc2) \<and> awaits C gs tail sc2
    \<and> position sc2 = position sc + (if snd g = [] then 0 else frame_len g)"
proof -
  obtain fr sc1 fr' sc2 where "scanner_read sc = (Inr (Some fr), sc1)"
    "read_to_end [] (fr, sc1) = (Inr (snd g), fr', sc2)" "awaits C gs tail sc2"
    "position sc2 = (if snd g = [] then position sc else next_start sc + frame_len g)"
    by (rule read_frame_to_end [OF assms(1,2)]) blast
  with assms(3) show ?thesis by auto
qed

theorem read_position_witness:
  "\<exists>fr sc1 fr' sc2. scanner_read three_scanner = (Inr (Some fr), sc1)
    \<and> read_to_end [] (fr, sc1) = (Inr [1, 2, 3], fr', sc2) \<and> position sc2 = 31"
  using read_position [of sample "(EntryId 1, [1, 2, 3])" "[(EntryId 2, []), (EntryId 5, [9])]" "[]"
      three_scanner]
  by (fastforce simp: three_frames_def fits_def frame_len_def HEADER_LEN_def)

section \<open>Flushing\<close>

lemma overwrite_prefix_again:
  "off \<le> length c \<Longrightarrow> overwrite (overwrite c off (take k d)) off d = overwrite c off d"
  by (auto simp: overwrite_def min_def add.commute)

lemma flush_result:
  assumes "content w (path f) = Some c" and "cursor_flush f (cur, w) = (r, cur1, w1)"
  shows "case r of
      Inr _ \<Rightarrow> content w1 (path f) = Some (overwrite c (cur_position cur) (buffered cur))
        \<and> cur1 = \<lparr>buffered = [], cur_position = cur_position cur + length (buffered cur)\<rparr>
    | Inl e \<Rightarrow> (\<exists>k. content w1 (path f) = Some (overwrite c (cur_position cur) (take k (buffered cur)))) \<and> cur1 = cur"
  using assms by (auto simp: cursor_flush_def write_all_at_def write_bytes_content split: option.splits)

text \<open>C26: A flush either writes all buffered frames at the cursor, moves the cursor behind them and empties
  the buffer, or fails having written a prefix of them. After a failure the cursor it leaves can be
  flushed again: with a working device that succeeds, and every later flush that succeeds, whatever
  fails before it in the same call, leaves the file and the cursor as if the first flush had
  succeeded.\<close>

theorem flush_retry:
  assumes c: "content w (path f) = Some c" and pos: "cur_position cur \<le> length c"
    and run: "cursor_flush f (cur, w) = (r, cur1, w1)"
  defines "written \<equiv> overwrite c (cur_position cur) (buffered cur)"
    and "moved \<equiv> \<lparr>buffered = [], cur_position = cur_position cur + length (buffered cur)\<rparr>"
  shows "case r of
      Inr _ \<Rightarrow> content w1 (path f) = Some written \<and> cur1 = moved
    | Inl e \<Rightarrow> (\<exists>k. content w1 (path f) = Some (overwrite c (cur_position cur) (take k (buffered cur))))
        \<and> (\<exists>w2. cursor_flush f (cur1, w1\<lparr>faults := []\<rparr>) = (Inr (), moved, w2) \<and> content w2 (path f) = Some written)
        \<and> (\<forall>flts cur2 w2. cursor_flush f (cur1, w1\<lparr>faults := flts\<rparr>) = (Inr (), cur2, w2) \<longrightarrow>
             cur2 = moved \<and> content w2 (path f) = Some written)"
proof (cases r)
  case (Inr u)
  then show ?thesis using flush_result [OF c run] by (simp add: written_def moved_def)
next
  case (Inl e)
  then obtain k where k: "content w1 (path f) = Some (overwrite c (cur_position cur) (take k (buffered cur)))"
    and cur1: "cur1 = cur" using flush_result [OF c run] by auto
  have again: "cur2 = moved \<and> content w2 (path f) = Some written"
    if "cursor_flush f (cur1, w1\<lparr>faults := flts\<rparr>) = (Inr (), cur2, w2)" for flts cur2 w2
    using flush_result [OF _ that, of "overwrite c (cur_position cur) (take k (buffered cur))"] k pos
    by (simp add: cur1 overwrite_prefix_again written_def moved_def)
  obtain r2 cur2 w2 where r2: "cursor_flush f (cur1, w1\<lparr>faults := []\<rparr>) = (r2, cur2, w2)" by (metis prod_cases3)
  then have "r2 = Inr ()" by (auto simp: cursor_flush_def write_all_at_def next_outcome_def)
  with r2 again [of "[]"] k show ?thesis using again unfolding Inl sum.case by blast
qed

text \<open>A flush of a frame of which three bytes are written, and another try.\<close>

theorem flush_retry_witness:
  "\<exists>cur1 w1 cur2 w2. cursor_flush frames_handle (cursor_write sample (EntryId 1) [7] (cursor_new 8),
        (frames_world (replicate 8 0))\<lparr>faults := [Some 3]\<rparr>) = (Inl (Err DeviceFault), cur1, w1)
    \<and> content w1 (path frames_handle) = Some (replicate 8 0 @ take 3 (frame_bytes sample (EntryId 1, [7])))
    \<and> cursor_flush frames_handle (cur1, w1\<lparr>faults := []\<rparr>) = (Inr (), cur2, w2)
    \<and> content w2 (path frames_handle) = Some (replicate 8 0 @ frame_bytes sample (EntryId 1, [7]))
    \<and> buffered cur2 = []"
proof -
  let ?cur = "cursor_write sample (EntryId 1) [7] (cursor_new 8)"
  let ?w = "(frames_world (replicate 8 0))\<lparr>faults := [Some 3]\<rparr>"
  have b: "buffered ?cur = frame_bytes sample (EntryId 1, [7])" "cur_position ?cur = 8"
    by (simp_all add: cursor_write_def cursor_new_def buffer_write_frame)
  have c: "content ?w (path frames_handle) = Some (replicate 8 0)" by simp
  let ?w1 = "write_bytes (path frames_handle) 8 (take 3 (frame_bytes sample (EntryId 1, [7]))) (spend ?w)"
  have f: "cursor_flush frames_handle (?cur, ?w) = (Inl (Err DeviceFault), ?cur, ?w1)"
    by (simp only: cursor_flush_def prod.case b write_all_at_def) (simp add: next_outcome_def)
  have at_end: "overwrite (replicate 8 0) 8 d = replicate 8 0 @ d" for d :: bytes
    using overwrite_at_end [of "replicate 8 (0 :: u8)" d] by (simp del: overwrite_at_end)
  have "content ?w1 (path frames_handle) = Some (replicate 8 0 @ take 3 (frame_bytes sample (EntryId 1, [7])))"
    using write_bytes_content [of "spend ?w" "path frames_handle" "replicate 8 0" 8] c at_end by simp
  moreover have pos: "cur_position ?cur \<le> length (replicate 8 (0 :: u8))" by (simp add: b)
  note again = flush_retry [OF c pos f, unfolded sum.case b at_end]
  obtain w2 where "cursor_flush frames_handle (?cur, ?w1\<lparr>faults := []\<rparr>)
      = (Inr (), \<lparr>buffered = [], cur_position = 8 + frame_len (EntryId 1, [7])\<rparr>, w2)"
    "content w2 (path frames_handle) = Some (replicate 8 0 @ frame_bytes sample (EntryId 1, [7]))"
    using again by (simp only: length_frame_bytes) blast
  ultimately show ?thesis using f frame_cursor.select_convs(1) by metis
qed

end
