(* ===== verification/Partition_Point.thy ===== *)
theory Partition_Point
  imports Prelude
begin

text \<open>
  \<^verbatim>\<open>slice::partition_point\<close> of the Rust standard library, as the binary search it runs: a window
  of \<open>sz\<close> elements from \<open>base\<close> is halved until one is left. On a slice that is partitioned (every
  element where the predicate holds comes before every one where it fails) the result is the length
  of the longest prefix where it holds; the theory proves that for the search and states the
  prefix laws the index relies on.
\<close>

section \<open>The search\<close>

function bisect :: "('a \<Rightarrow> bool) \<Rightarrow> 'a list \<Rightarrow> nat \<Rightarrow> nat \<Rightarrow> nat" where
  "bisect p xs base sz =
     (if 1 < sz
      then (let half = sz div 2; mid = base + half
            in bisect p xs (if p (xs ! mid) then mid else base) (sz - half))
      else base)"
  by pat_completeness auto
termination
  by (relation "measure (\<lambda>(p, xs, base, sz). sz)") auto

declare bisect.simps [simp del]

definition partition_point :: "('a \<Rightarrow> bool) \<Rightarrow> 'a list \<Rightarrow> nat" where
  "partition_point p xs =
     (if xs = [] then 0
      else let base = bisect p xs 0 (length xs)
           in base + (if p (xs ! base) then 1 else 0))"

section \<open>The reference: the length of the longest prefix\<close>

definition partitioned :: "('a \<Rightarrow> bool) \<Rightarrow> 'a list \<Rightarrow> bool" where
  "partitioned p xs \<longleftrightarrow> dropWhile p xs = filter (\<lambda>x. \<not> p x) xs"

lemma partitioned_Nil [simp]: "partitioned p []"
  by (simp add: partitioned_def)

lemma partitioned_Cons [simp]:
  "partitioned p (x # xs) \<longleftrightarrow> (if p x then partitioned p xs else \<forall>y \<in> set xs. \<not> p y)"
  by (auto simp: partitioned_def filter_id_conv dest: sym)

lemma partitioned_nth:
  "partitioned p xs \<Longrightarrow> i < length xs \<Longrightarrow> p (xs ! i) \<longleftrightarrow> i < length (takeWhile p xs)"
proof (induction xs arbitrary: i)
  case Nil
  then show ?case by simp
next
  case (Cons x xs)
  then show ?case by (cases i) (auto split: if_splits)
qed

text \<open>The search looks at the element of index 0 only when its window ends there, so the elements
  after it are what has to be partitioned (at index \<open>L\<close>).\<close>

lemma bisect_bounds:
  assumes "\<And>i. 0 < i \<Longrightarrow> i < length xs \<Longrightarrow> p (xs ! i) \<longleftrightarrow> i < L"
    and "base + sz \<le> length xs" and "0 < sz" and "base = 0 \<or> base < L" and "L \<le> base + sz"
  shows "bisect p xs base sz < length xs
       \<and> (bisect p xs base sz = 0 \<or> bisect p xs base sz < L) \<and> L \<le> bisect p xs base sz + 1"
  using assms
proof (induction p xs base sz rule: bisect.induct)
  case (1 p xs base sz)
  show ?case
  proof (cases "1 < sz")
    case False
    with "1.prems" show ?thesis by (auto simp: bisect.simps [of p xs base sz])
  next
    case True
    define half where "half = sz div 2"
    define base' where "base' = (if p (xs ! (base + half)) then base + half else base)"
    have half: "0 < half" "half < sz" "half \<le> sz - half"
      using True by (auto simp: half_def)
    have mid: "p (xs ! (base + half)) \<longleftrightarrow> base + half < L"
      using "1.prems"(1,2) half by simp
    then have "L \<le> base' + (sz - half)" and "base' = 0 \<or> base' < L"
      and "base' + (sz - half) \<le> length xs"
      using "1.prems"(2,4,5) half by (auto simp: base'_def)
    moreover have "bisect p xs base sz = bisect p xs base' (sz - half)"
      using True by (simp add: bisect.simps [of p xs base sz] Let_def half_def base'_def)
    ultimately show ?thesis
      using "1.IH" [OF True half_def refl] "1.prems"(1) half by (simp add: base'_def)
  qed
qed

theorem partition_point_eq:
  assumes "partitioned p xs"
  shows "partition_point p xs = length (takeWhile p xs)"
proof (cases "xs = []")
  case True
  then show ?thesis by (simp add: partition_point_def)
next
  case False
  define r where "r = bisect p xs 0 (length xs)"
  have r: "r < length xs" "r = 0 \<or> r < length (takeWhile p xs)" "length (takeWhile p xs) \<le> r + 1"
    using bisect_bounds [of xs p "length (takeWhile p xs)" 0 "length xs"] False
      partitioned_nth [OF assms]
    by (auto simp: r_def length_takeWhile_le)
  show ?thesis
    using False r partitioned_nth [OF assms r(1)]
    by (auto simp: partition_point_def Let_def simp flip: r_def)
qed

text \<open>The first element may fall out of line: the rest still decides the result.\<close>

theorem partition_point_tail:
  assumes "partitioned p xs"
  shows "partition_point p (x # xs) =
    (if \<exists>y \<in> set xs. p y then Suc (length (takeWhile p xs)) else if p x then 1 else 0)"
proof -
  let ?L = "Suc (length (takeWhile p xs))"
  define r where "r = bisect p (x # xs) 0 (length (x # xs))"
  have nth: "p ((x # xs) ! i) \<longleftrightarrow> i < ?L" if "0 < i" "i < length (x # xs)" for i
    using that partitioned_nth [OF assms, of "i - 1"] by (cases i) auto
  have r: "r < length (x # xs)" "r = 0 \<or> r < ?L" "?L \<le> r + 1"
    using bisect_bounds [of "x # xs" p ?L 0 "length (x # xs)"] nth
    by (auto simp: r_def length_takeWhile_le)
  have ex: "(\<exists>y \<in> set xs. p y) \<longleftrightarrow> takeWhile p xs \<noteq> []"
    using assms by (cases xs) (auto split: if_splits)
  have pp: "partition_point p (x # xs) = r + (if p ((x # xs) ! r) then 1 else 0)"
    by (simp add: partition_point_def Let_def r_def)
  show ?thesis
  proof (cases "r = 0")
    case True
    then show ?thesis using r(3) by (auto simp: pp ex)
  next
    case False
    then have "p ((x # xs) ! r) \<longleftrightarrow> r < ?L" using nth r(1) by simp
    then show ?thesis using r False by (auto simp: pp ex)
  qed
qed

text \<open>On any slice, partitioned or not, the result is a position of the slice.\<close>

lemma bisect_less: "0 < sz \<Longrightarrow> base + sz \<le> n \<Longrightarrow> bisect p xs base sz < n"
proof (induction p xs base sz rule: bisect.induct)
  case (1 p xs base sz)
  show ?case
  proof (cases "1 < sz")
    case False
    with "1.prems" show ?thesis by (simp add: bisect.simps [of p xs base sz])
  next
    case True
    then show ?thesis
      using "1.IH" [OF True refl refl] "1.prems"
      by (auto simp: bisect.simps [of p xs base sz] Let_def)
  qed
qed

lemma partition_point_le: "partition_point p xs \<le> length xs"
  using bisect_less [of "length xs" 0 "length xs" p xs]
  by (auto simp: partition_point_def Let_def)

section \<open>Taking and dropping at the partition point\<close>

lemma take_partition_point:
  "partitioned p xs \<Longrightarrow> take (partition_point p xs) xs = filter p xs"
  by (induction xs) (auto simp: partition_point_eq filter_empty_conv)

lemma drop_partition_point:
  "partitioned p xs \<Longrightarrow> drop (partition_point p xs) xs = filter (\<lambda>x. \<not> p x) xs"
  by (simp add: partition_point_eq dropWhile_eq_drop [symmetric] partitioned_def)

lemma partition_point_eq_0_iff:
  "partitioned p xs \<Longrightarrow> partition_point p xs = 0 \<longleftrightarrow> (\<forall>x \<in> set xs. \<not> p x)"
  by (cases xs) (auto simp: partition_point_eq split: if_splits)

lemma last_filter_partition:
  assumes "partitioned p xs" and "0 < partition_point p xs"
  shows "xs ! (partition_point p xs - 1) = last (filter p xs)"
proof -
  have "filter p xs = take (partition_point p xs) xs"
    using assms(1) by (simp add: take_partition_point)
  moreover have le: "partition_point p xs \<le> length xs" by (rule partition_point_le)
  moreover have "take (partition_point p xs) xs \<noteq> []" using assms(2) le by auto
  ultimately show ?thesis using assms(2) by (simp add: last_conv_nth min_absorb2)
qed

lemma element_before_partition_point:
  assumes "partitioned p xs"
  shows "(if partition_point p xs = 0 then None else Some (xs ! (partition_point p xs - 1)))
       = (if filter p xs = [] then None else Some (last (filter p xs)))"
  using partition_point_eq_0_iff [OF assms] last_filter_partition [OF assms]
  by (auto simp: filter_empty_conv)

text \<open>A sorted key makes every threshold a partition.\<close>

lemma partitioned_sorted_le:
  "sorted (map f xs) \<Longrightarrow> partitioned (\<lambda>x. f x \<le> (t :: 'k::linorder)) xs"
  by (induction xs) auto

lemma partitioned_sorted_less:
  "sorted (map f xs) \<Longrightarrow> partitioned (\<lambda>x. f x < (t :: 'k::linorder)) xs"
  by (induction xs) auto

end
