(* ===== verification/Index.thy ===== *)
theory Index
  imports Partition_Point
begin

text \<open>
  \<^verbatim>\<open>src/index.rs\<close>: the checkpoint index of one segment and the entry index over all segments. Both
  are searched with \<^verbatim>\<open>partition_point\<close>; byte offsets are natural numbers. The two share one
  contract, the locale \<open>checkpoint_index\<close>: over the list of marks an index holds, \<open>find\<close> is the last
  mark not above the target and the truncations are filters. Both models are interpretations of it.
\<close>

section \<open>The index of a segment\<close>

record segment_index =
  index_checkpoints :: "(entry_id \<times> nat) list"

definition segment_index_new :: "(entry_id \<times> nat) list \<Rightarrow> segment_index" where
  "segment_index_new cps = \<lparr>index_checkpoints = cps\<rparr>"

definition first_id :: "segment_index \<Rightarrow> entry_id option" where
  "first_id ix = (case index_checkpoints ix of [] \<Rightarrow> None | (i, _) # _ \<Rightarrow> Some i)"

definition segment_find :: "segment_index \<Rightarrow> entry_id \<Rightarrow> (entry_id \<times> nat) option" where
  "segment_find ix target =
     (let pos = partition_point (\<lambda>(i, _). eid i \<le> eid target) (index_checkpoints ix)
      in if pos = 0 then None else Some (index_checkpoints ix ! (pos - 1)))"

definition segment_truncate_start :: "entry_id \<Rightarrow> segment_index \<Rightarrow> segment_index" where
  "segment_truncate_start first_entry ix =
     (let n = partition_point (\<lambda>(i, _). eid i < eid first_entry) (index_checkpoints ix)
      in ix\<lparr>index_checkpoints := drop n (index_checkpoints ix)\<rparr>)"

definition segment_truncate_end :: "entry_id \<Rightarrow> segment_index \<Rightarrow> segment_index" where
  "segment_truncate_end last_valid ix =
     (let keep = partition_point (\<lambda>(i, _). eid i \<le> eid last_valid) (index_checkpoints ix)
      in ix\<lparr>index_checkpoints := take keep (index_checkpoints ix)\<rparr>)"

section \<open>The index of the store\<close>

record index_position =
  segment :: segment_id
  checkpoint :: entry_id
  byte_offset :: nat

record entry_index =
  indexed :: "(segment_id \<times> segment_index) list"

definition entry_index_new :: entry_index where
  "entry_index_new = \<lparr>indexed = []\<rparr>"

text \<open>\<^verbatim>\<open>EntryIndex::add_segment\<close>; \<open>None\<close> is the failing \<^verbatim>\<open>debug_assert\<close>.\<close>

definition ascending :: "segment_index \<Rightarrow> segment_index \<Rightarrow> bool" where
  "ascending prev ix =
     (case (first_id prev, first_id ix) of (Some a, Some b) \<Rightarrow> eid a \<le> eid b | _ \<Rightarrow> True)"

definition add_segment :: "segment_id \<Rightarrow> segment_index \<Rightarrow> entry_index \<Rightarrow> entry_index option" where
  "add_segment s ix ei =
     (if indexed ei = [] \<or> ascending (snd (last (indexed ei))) ix
      then Some (ei\<lparr>indexed := indexed ei @ [(s, ix)]\<rparr>) else None)"

definition starts_by :: "entry_id \<Rightarrow> segment_id \<times> segment_index \<Rightarrow> bool" where
  "starts_by target = (\<lambda>(_, ix). case first_id ix of None \<Rightarrow> False | Some i \<Rightarrow> eid i \<le> eid target)"

definition entry_find :: "entry_index \<Rightarrow> entry_id \<Rightarrow> index_position option" where
  "entry_find ei target =
     (let pos = partition_point (starts_by target) (indexed ei)
      in if pos = 0 then None
         else case indexed ei ! (pos - 1) of (s, ix) \<Rightarrow>
                map_option (\<lambda>(i, off). \<lparr>segment = s, checkpoint = i, byte_offset = off\<rparr>)
                  (segment_find ix target))"

definition entry_truncate_start :: "entry_id \<Rightarrow> entry_index \<Rightarrow> entry_index" where
  "entry_truncate_start first_entry ei =
     (let pos = partition_point (starts_by first_entry) (indexed ei)
      in if pos = 0 then ei
         else let segs = drop (pos - 1) (indexed ei)
              in ei\<lparr>indexed := segs[0 := (fst (segs ! 0),
                                          segment_truncate_start first_entry (snd (segs ! 0)))]\<rparr>)"

definition entry_truncate_end :: "entry_id \<Rightarrow> entry_index \<Rightarrow> entry_index" where
  "entry_truncate_end last_valid ei =
     (let pos = partition_point (starts_by last_valid) (indexed ei);
          segs = take pos (indexed ei)
      in ei\<lparr>indexed := (if segs = [] then []
                        else butlast segs @ [(fst (last segs),
                               segment_truncate_end last_valid (snd (last segs)))])\<rparr>)"

section \<open>The contract\<close>

definition floor_of :: "('m \<Rightarrow> entry_id) \<Rightarrow> 'm list \<Rightarrow> entry_id \<Rightarrow> 'm option" where
  "floor_of key ms t =
     (let below = filter (\<lambda>m. key m \<le> t) ms in if below = [] then None else Some (last below))"

lemma sorted_key_last:
  "sorted_wrt (\<lambda>a b. key a < (key b :: 'k::linorder)) xs \<Longrightarrow> a \<in> set xs \<Longrightarrow> key a \<le> key (last xs)"
  by (induction xs rule: rev_induct) (auto simp: sorted_wrt_append less_imp_le)

lemma sorted_key_inj:
  "sorted_wrt (\<lambda>a b. key a < (key b :: 'k::linorder)) xs \<Longrightarrow> a \<in> set xs \<Longrightarrow> b \<in> set xs
     \<Longrightarrow> key a = key b \<Longrightarrow> a = b"
proof (induction xs)
  case (Cons x xs)
  then show ?case by (metis less_irrefl set_ConsD sorted_wrt.simps(2))
qed simp

locale checkpoint_lookup =
  fixes marks_of :: "'i \<Rightarrow> 'm list"
    and key :: "'m \<Rightarrow> entry_id"
    and wf :: "'i \<Rightarrow> bool"
    and find_in :: "'i \<Rightarrow> entry_id \<Rightarrow> 'm option"
  assumes ordered: "wf i \<Longrightarrow> sorted_wrt (<) (map key (marks_of i))"
    and find_floor: "wf i \<Longrightarrow> find_in i t = floor_of key (marks_of i) t"
begin

lemma find_None: "wf i \<Longrightarrow> find_in i t = None \<longleftrightarrow> (\<forall>m \<in> set (marks_of i). t < key m)"
  by (auto simp: find_floor floor_of_def Let_def filter_empty_conv not_le)

lemma find_greatest:
  assumes "wf i"
  shows "find_in i t = Some m \<longleftrightarrow> m \<in> set (marks_of i) \<and> key m \<le> t
           \<and> (\<forall>m' \<in> set (marks_of i). key m' \<le> t \<longrightarrow> key m' \<le> key m)"
proof -
  let ?b = "filter (\<lambda>m. key m \<le> t) (marks_of i)"
  have sb: "sorted_wrt (\<lambda>a b. key a < key b) ?b"
    using ordered [OF assms] by (simp add: sorted_wrt_map sorted_wrt_filter)
  have top: "key a \<le> key (last ?b)" if "a \<in> set ?b" for a
    by (rule sorted_key_last [OF sb that])
  have inj: "a = b" if "a \<in> set ?b" "b \<in> set ?b" "key a = key b" for a b
    by (rule sorted_key_inj [OF sb that])
  show ?thesis
  proof
    assume "find_in i t = Some m"
    then have "?b \<noteq> []" "m = last ?b"
      by (auto simp: find_floor [OF assms] floor_of_def Let_def split: if_splits)
    with top last_in_set [of ?b] show "m \<in> set (marks_of i) \<and> key m \<le> t
           \<and> (\<forall>m' \<in> set (marks_of i). key m' \<le> t \<longrightarrow> key m' \<le> key m)"
      by auto
  next
    assume r: "m \<in> set (marks_of i) \<and> key m \<le> t
           \<and> (\<forall>m' \<in> set (marks_of i). key m' \<le> t \<longrightarrow> key m' \<le> key m)"
    then have m: "m \<in> set ?b" by simp
    then have ne: "?b \<noteq> []" by (metis empty_iff empty_set)
    then have l: "last ?b \<in> set ?b" by (rule last_in_set)
    with r top [OF m] have "key (last ?b) = key m" by (auto intro!: antisym)
    with inj l m have "last ?b = m" by metis
    with ne show "find_in i t = Some m"
      by (simp add: find_floor [OF assms] floor_of_def Let_def)
  qed
qed

end

locale checkpoint_index = checkpoint_lookup +
  fixes cut_start :: "entry_id \<Rightarrow> 'a \<Rightarrow> 'a"
    and cut_end :: "entry_id \<Rightarrow> 'a \<Rightarrow> 'a"
  assumes wf_cut_start: "wf i \<Longrightarrow> wf (cut_start t i)"
    and marks_cut_start: "wf i \<Longrightarrow> marks_of (cut_start t i) = filter (\<lambda>m. t \<le> key m) (marks_of i)"
    and wf_cut_end: "wf i \<Longrightarrow> wf (cut_end t i)"
    and marks_cut_end: "wf i \<Longrightarrow> marks_of (cut_end t i) = filter (\<lambda>m. key m \<le> t) (marks_of i)"
begin

lemma find_cut_end: "wf i \<Longrightarrow> find_in (cut_end v i) t = find_in i (min t v)"
  by (simp add: find_floor wf_cut_end marks_cut_end floor_of_def conj_commute)

lemma find_cut_start:
  assumes "wf i"
  shows "find_in (cut_start v i) t =
    (case find_in i t of None \<Rightarrow> None | Some m \<Rightarrow> if v \<le> key m then Some m else None)"
proof -
  let ?i = "cut_start v i"
  have w: "wf ?i" by (rule wf_cut_start [OF assms])
  show ?thesis
  proof (cases "find_in i t")
    case None
    then have "find_in ?i t = None"
      using assms w by (simp add: find_None marks_cut_start)
    with None show ?thesis by simp
  next
    case (Some m)
    note g = find_greatest [OF assms, THEN iffD1, OF Some]
    show ?thesis
    proof (cases "v \<le> key m")
      case True
      with g have "find_in ?i t = Some m"
        by (auto simp: find_greatest [OF w] marks_cut_start [OF assms])
      with True Some show ?thesis by simp
    next
      case False
      have "find_in ?i t = None"
        unfolding find_None [OF w] marks_cut_start [OF assms]
      proof
        fix m' assume "m' \<in> set (filter (\<lambda>m. v \<le> key m) (marks_of i))"
        with g False show "t < key m'" by (force simp: not_le)
      qed
      with False Some show ?thesis by simp
    qed
  qed
qed

lemma cut_commute:
  "wf i \<Longrightarrow> marks_of (cut_start a (cut_end b i)) = marks_of (cut_end b (cut_start a i))"
  by (simp add: wf_cut_start wf_cut_end marks_cut_start marks_cut_end conj_commute)

end

section \<open>The segment index keeps the contract\<close>

definition wf_segment_index :: "segment_index \<Rightarrow> bool" where
  "wf_segment_index ix \<longleftrightarrow> sorted_wrt (<) (map fst (index_checkpoints ix))"

lemma segment_partitioned:
  assumes "wf_segment_index ix"
  shows "partitioned (\<lambda>(i, _). eid i \<le> eid t) (index_checkpoints ix)"
    and "partitioned (\<lambda>(i, _). eid i < eid t) (index_checkpoints ix)"
  using partitioned_sorted_le [of fst "index_checkpoints ix" t]
    partitioned_sorted_less [of fst "index_checkpoints ix" t] assms
  by (simp_all add: wf_segment_index_def strict_sorted_iff split_def)

lemma segment_find_floor:
  "wf_segment_index ix \<Longrightarrow> segment_find ix t = floor_of fst (index_checkpoints ix) t"
  using segment_partitioned(1) [of ix t]
    element_before_partition_point [of "\<lambda>m. fst m \<le> t" "index_checkpoints ix"]
  by (simp add: segment_find_def Let_def floor_of_def split_def)

lemma segment_marks_cut:
  assumes "wf_segment_index ix"
  shows "index_checkpoints (segment_truncate_end t ix)
      = filter (\<lambda>m. fst m \<le> t) (index_checkpoints ix)"
    and "index_checkpoints (segment_truncate_start t ix)
      = filter (\<lambda>m. t \<le> fst m) (index_checkpoints ix)"
  using segment_partitioned [OF assms, of t]
  by (simp_all add: segment_truncate_end_def segment_truncate_start_def take_partition_point
      drop_partition_point split_def not_less)

lemma sorted_wrt_map_filter: "sorted_wrt R (map f xs) \<Longrightarrow> sorted_wrt R (map f (filter p xs))"
  by (simp add: sorted_wrt_map sorted_wrt_filter)

interpretation seg_index: checkpoint_index index_checkpoints fst wf_segment_index segment_find
  segment_truncate_start segment_truncate_end
proof (unfold_locales, goal_cases)
  case (1 i)
  then show ?case by (simp add: wf_segment_index_def)
next
  case (2 i t)
  then show ?case by (rule segment_find_floor)
qed (simp_all add: segment_marks_cut wf_segment_index_def sorted_wrt_map_filter)

section \<open>The entry index keeps the contract\<close>

text \<open>The marks of all segments in order. Over a well-formed index they are strictly ascending and
  only the first segment (after its start was cut) and the last (without entries yet) hold none.\<close>

definition positions :: "segment_id \<times> segment_index \<Rightarrow> index_position list" where
  "positions e = map (\<lambda>(i, off). \<lparr>segment = fst e, checkpoint = i, byte_offset = off\<rparr>)
                   (index_checkpoints (snd e))"

definition entry_marks :: "entry_index \<Rightarrow> index_position list" where
  "entry_marks ei = concat (map positions (indexed ei))"

definition ascending_marks :: "(segment_id \<times> segment_index) list \<Rightarrow> bool" where
  "ascending_marks es \<longleftrightarrow> sorted_wrt (<) (map checkpoint (concat (map positions es)))"

definition wf_entry_index :: "entry_index \<Rightarrow> bool" where
  "wf_entry_index ei \<longleftrightarrow> ascending_marks (indexed ei)
     \<and> (\<forall>e \<in> set (butlast (tl (indexed ei))). positions e \<noteq> [])"

lemma checkpoint_positions [simp]:
  "map checkpoint (positions e) = map fst (index_checkpoints (snd e))"
  by (simp add: positions_def split_def)

lemma positions_eq_Nil [simp]: "positions e = [] \<longleftrightarrow> index_checkpoints (snd e) = []"
  by (simp add: positions_def)

lemma ascending_marks_Nil [simp]: "ascending_marks []"
  by (simp add: ascending_marks_def)

lemma ascending_marks_append:
  "ascending_marks (es @ fs) \<longleftrightarrow> ascending_marks es \<and> ascending_marks fs
     \<and> (\<forall>e \<in> set es. \<forall>f \<in> set fs. \<forall>m \<in> set (positions e). \<forall>n \<in> set (positions f).
          checkpoint m < checkpoint n)"
  by (auto simp: ascending_marks_def sorted_wrt_append)

lemma ascending_marks_single [simp]:
  "ascending_marks [e] \<longleftrightarrow> wf_segment_index (snd e)"
  by (simp add: ascending_marks_def wf_segment_index_def)

lemma ascending_marks_Cons:
  "ascending_marks (e # es) \<longleftrightarrow> wf_segment_index (snd e) \<and> ascending_marks es
     \<and> (\<forall>f \<in> set es. \<forall>m \<in> set (positions e). \<forall>n \<in> set (positions f).
          checkpoint m < checkpoint n)"
  using ascending_marks_append [of "[e]" es] by simp

lemma ascending_marks_wf: "ascending_marks es \<Longrightarrow> e \<in> set es \<Longrightarrow> wf_segment_index (snd e)"
  by (induction es) (auto simp: ascending_marks_Cons)

lemma starts_by_iff:
  "wf_segment_index (snd e) \<Longrightarrow> starts_by t e \<longleftrightarrow> (\<exists>m \<in> set (positions e). checkpoint m \<le> t)"
  by (cases e; cases "index_checkpoints (snd e)")
     (force simp: starts_by_def first_id_def positions_def wf_segment_index_def)+

lemma starts_by_not:
  "wf_segment_index (snd e) \<Longrightarrow> \<not> starts_by t e \<longleftrightarrow> (\<forall>m \<in> set (positions e). t < checkpoint m)"
  by (simp add: starts_by_iff not_le)

text \<open>The search splits the segments: before the segment it picks all marks are below the target,
  after it all are above.\<close>

lemma starts_by_partitioned:
  assumes "ascending_marks es" and "\<forall>e \<in> set (butlast es). positions e \<noteq> []"
  shows "partitioned (starts_by t) es"
  using assms
proof (induction es)
  case (Cons e es)
  note wf = Cons.prems(1) [unfolded ascending_marks_Cons]
  show ?case
  proof (cases "starts_by t e")
    case True
    have "\<forall>f \<in> set (butlast es). positions f \<noteq> []" using Cons.prems(2) by (cases es) auto
    with True Cons.IH wf show ?thesis by simp
  next
    case False
    have "t < checkpoint n" if f: "f \<in> set es" and n: "n \<in> set (positions f)" for f n
    proof -
      have "positions e \<noteq> []" using Cons.prems(2) f by (cases es) auto
      then obtain m where m: "m \<in> set (positions e)" by (cases "positions e") auto
      with False wf have "t < checkpoint m" by (simp add: starts_by_not)
      also have "\<dots> < checkpoint n" using wf f m n by blast
      finally show ?thesis .
    qed
    then have "\<forall>f \<in> set es. \<not> starts_by t f"
      using wf ascending_marks_wf [of es] by (simp add: starts_by_not)
    with False show ?thesis by simp
  qed
qed simp

lemma entry_split:
  assumes "wf_entry_index ei"
  obtains (none) "partition_point (starts_by t) (indexed ei) = 0"
      and "\<forall>m \<in> set (entry_marks ei). t < checkpoint m"
    | (at) pre e post where "indexed ei = pre @ e # post"
      and "partition_point (starts_by t) (indexed ei) = Suc (length pre)"
      and "\<forall>m \<in> set (concat (map positions pre)). checkpoint m < t"
      and "\<exists>m \<in> set (positions e). checkpoint m \<le> t"
      and "\<forall>m \<in> set (concat (map positions post)). t < checkpoint m"
proof (cases "indexed ei")
  case Nil
  then show ?thesis by (intro none) (auto simp: partition_point_def entry_marks_def)
next
  case (Cons x xs)
  have asc: "ascending_marks (x # xs)" and ne: "\<forall>e \<in> set (butlast xs). positions e \<noteq> []"
    using assms Cons by (auto simp: wf_entry_index_def)
  note wf = ascending_marks_wf [OF asc]
  have part: "partitioned (starts_by t) xs"
    using starts_by_partitioned [OF _ ne] asc by (simp add: ascending_marks_Cons)
  note pp = partition_point_tail [OF part, of x]
  have found: thesis if es: "x # xs = pre @ e # post" and e: "starts_by t e"
    and post: "\<forall>f \<in> set post. \<not> starts_by t f"
    and pos: "partition_point (starts_by t) (x # xs) = Suc (length pre)" for pre e post
  proof -
    have wfs: "wf_segment_index (snd f)" if "f \<in> set (pre @ e # post)" for f
      using wf that es by simp
    then obtain m where m: "m \<in> set (positions e)" "checkpoint m \<le> t"
      using e starts_by_iff [of e t] by auto
    have below: "checkpoint n < t" if n: "n \<in> set (concat (map positions pre))" for n
    proof -
      have "checkpoint n < checkpoint m"
        using asc m(1) n unfolding es by (auto simp: ascending_marks_append)
      with m(2) show ?thesis by simp
    qed
    have above: "t < checkpoint n" if n: "n \<in> set (concat (map positions post))" for n
      using post n wfs by (auto simp: starts_by_not)
    show thesis
      by (rule at [of pre e post]) (use Cons es pos below above m in auto)
  qed
  show ?thesis
  proof (cases "\<exists>y \<in> set xs. starts_by t y")
    case True
    let ?p = "takeWhile (starts_by t) xs" and ?d = "dropWhile (starts_by t) xs"
    have ne: "?p \<noteq> []" using True part by (cases xs) (auto split: if_splits)
    have "\<forall>f \<in> set ?d. \<not> starts_by t f" using part by (auto simp: partitioned_def)
    moreover have "starts_by t (last ?p)" using last_in_set [OF ne] set_takeWhileD by fast
    moreover have "x # xs = (x # butlast ?p) @ last ?p # ?d"
      using append_butlast_last_id [OF ne] takeWhile_dropWhile_id [of "starts_by t" xs]
      by (metis append.assoc append_Cons append_Nil)
    ultimately show ?thesis
      using True pp ne by (intro found [of "x # butlast ?p" "last ?p" ?d]) simp_all
  next
    case False
    show ?thesis
    proof (cases "starts_by t x")
      case True
      with False pp show ?thesis by (intro found [of "[]" x xs]) auto
    next
      case x: False
      with False wf have "\<forall>m \<in> set (entry_marks ei). t < checkpoint m"
        by (auto simp: entry_marks_def Cons starts_by_not)
      with x False pp show ?thesis by (intro none) (simp_all add: Cons)
    qed
  qed
qed

lemma filter_above: "\<forall>m \<in> set ms. t < key m \<Longrightarrow> filter (\<lambda>m. key m \<le> (t :: 'k::linorder)) ms = []"
  by (auto simp: filter_empty_conv not_le)

lemma filter_below: "\<forall>m \<in> set ms. key m < t \<Longrightarrow> filter (\<lambda>m. (t :: 'k::linorder) \<le> key m) ms = []"
  by (auto simp: filter_empty_conv not_le)

lemma filter_all_le: "\<forall>m \<in> set ms. key m < t \<Longrightarrow> filter (\<lambda>m. key m \<le> (t :: 'k::linorder)) ms = ms"
  by (auto simp: filter_id_conv)

lemma filter_all_ge: "\<forall>m \<in> set ms. t < key m \<Longrightarrow> filter (\<lambda>m. (t :: 'k::linorder) \<le> key m) ms = ms"
  by (auto simp: filter_id_conv)

lemmas filter_marks = filter_above filter_below filter_all_le filter_all_ge

lemma positions_segment_cut:
  assumes "wf_segment_index ix"
  shows "positions (s, segment_truncate_end t ix) = filter (\<lambda>m. checkpoint m \<le> t) (positions (s, ix))"
    and "positions (s, segment_truncate_start t ix) = filter (\<lambda>m. t \<le> checkpoint m) (positions (s, ix))"
  using assms by (simp_all add: positions_def segment_marks_cut filter_map o_def split_def)

lemma entry_find_floor:
  assumes "wf_entry_index ei"
  shows "entry_find ei t = floor_of checkpoint (entry_marks ei) t"
  using assms
proof (cases rule: entry_split [of ei t])
  case none
  then show ?thesis by (simp add: entry_find_def floor_of_def filter_above)
next
  case (at pre e post)
  obtain s ix where e: "e = (s, ix)" by (cases e)
  have wf: "wf_segment_index ix"
    using ascending_marks_wf [of "indexed ei" e] assms at(1) e by (simp add: wf_entry_index_def)
  let ?below = "filter (\<lambda>m. fst m \<le> t) (index_checkpoints ix)"
  have f: "filter (\<lambda>m. checkpoint m \<le> t) (positions e)
      = map (\<lambda>(i, off). \<lparr>segment = s, checkpoint = i, byte_offset = off\<rparr>) ?below"
    by (simp add: positions_def e filter_map o_def split_def)
  moreover have ne: "?below \<noteq> []"
    using at(4) f by (metis (no_types, lifting) filter_empty_conv list.simps(8))
  ultimately have "entry_find ei t = Some (last (filter (\<lambda>m. checkpoint m \<le> t) (positions e)))"
    using at(2) wf
    by (simp add: entry_find_def at(1) e segment_find_floor floor_of_def last_map)
  with at f ne show ?thesis
    by (simp add: floor_of_def entry_marks_def filter_marks)
qed

lemma entry_marks_cut_end:
  assumes "wf_entry_index ei"
  shows "entry_marks (entry_truncate_end t ei) = filter (\<lambda>m. checkpoint m \<le> t) (entry_marks ei)"
    and "wf_entry_index (entry_truncate_end t ei)"
proof -
  have "entry_marks (entry_truncate_end t ei) = filter (\<lambda>m. checkpoint m \<le> t) (entry_marks ei)
      \<and> (\<forall>e \<in> set (butlast (tl (indexed (entry_truncate_end t ei)))). positions e \<noteq> [])"
    using assms
  proof (cases rule: entry_split [of ei t])
    case none
    then show ?thesis
      by (simp add: entry_truncate_end_def filter_above) (simp add: entry_marks_def)
  next
    case (at pre e post)
    have wf: "wf_segment_index (snd e)"
      using ascending_marks_wf [of "indexed ei" e] assms at(1) by (simp add: wf_entry_index_def)
    have cut: "indexed (entry_truncate_end t ei) = pre @ [(fst e, segment_truncate_end t (snd e))]"
      using at(2) by (simp add: entry_truncate_end_def at(1))
    have "\<forall>f \<in> set (tl pre). positions f \<noteq> []"
      using assms at(1) by (cases pre) (auto simp: wf_entry_index_def butlast_append)
    with cut have "\<forall>f \<in> set (butlast (tl (indexed (entry_truncate_end t ei)))). positions f \<noteq> []"
      by (cases pre) (auto simp: butlast_append)
    moreover have "entry_marks (entry_truncate_end t ei)
        = filter (\<lambda>m. checkpoint m \<le> t) (entry_marks ei)"
      using at(3,5) wf positions_segment_cut(1) [OF wf, of "fst e" t]
      by (simp add: entry_marks_def cut at(1) filter_marks)
    ultimately show ?thesis by blast
  qed
  then show "entry_marks (entry_truncate_end t ei) = filter (\<lambda>m. checkpoint m \<le> t) (entry_marks ei)"
    and "wf_entry_index (entry_truncate_end t ei)"
    using assms by (auto simp: wf_entry_index_def ascending_marks_def entry_marks_def
        sorted_wrt_map_filter)
qed

lemma entry_marks_cut_start:
  assumes "wf_entry_index ei"
  shows "entry_marks (entry_truncate_start t ei) = filter (\<lambda>m. t \<le> checkpoint m) (entry_marks ei)"
    and "wf_entry_index (entry_truncate_start t ei)"
proof -
  have "entry_marks (entry_truncate_start t ei) = filter (\<lambda>m. t \<le> checkpoint m) (entry_marks ei)
      \<and> (\<forall>e \<in> set (butlast (tl (indexed (entry_truncate_start t ei)))). positions e \<noteq> [])"
    using assms
  proof (cases rule: entry_split [of ei t])
    case none
    with assms show ?thesis
      by (simp add: entry_truncate_start_def filter_all_ge wf_entry_index_def)
  next
    case (at pre e post)
    have wf: "wf_segment_index (snd e)"
      using ascending_marks_wf [of "indexed ei" e] assms at(1) by (simp add: wf_entry_index_def)
    have cut: "indexed (entry_truncate_start t ei) = (fst e, segment_truncate_start t (snd e)) # post"
      using at(2) by (simp add: entry_truncate_start_def at(1))
    have "\<forall>f \<in> set (butlast post). positions f \<noteq> []"
      using assms at(1) by (cases pre) (auto simp: wf_entry_index_def butlast_append split: if_splits)
    with cut have "\<forall>f \<in> set (butlast (tl (indexed (entry_truncate_start t ei)))). positions f \<noteq> []"
      by simp
    moreover have "entry_marks (entry_truncate_start t ei)
        = filter (\<lambda>m. t \<le> checkpoint m) (entry_marks ei)"
      using at(3,5) positions_segment_cut(2) [OF wf, of "fst e" t]
      by (simp add: entry_marks_def cut at(1) filter_marks)
    ultimately show ?thesis by blast
  qed
  then show "entry_marks (entry_truncate_start t ei) = filter (\<lambda>m. t \<le> checkpoint m) (entry_marks ei)"
    and "wf_entry_index (entry_truncate_start t ei)"
    using assms by (auto simp: wf_entry_index_def ascending_marks_def entry_marks_def
        sorted_wrt_map_filter)
qed

interpretation entries_index: checkpoint_index entry_marks checkpoint wf_entry_index entry_find
  entry_truncate_start entry_truncate_end
proof (unfold_locales, goal_cases)
  case (1 i)
  then show ?case by (simp add: wf_entry_index_def ascending_marks_def entry_marks_def)
next
  case (2 i t)
  then show ?case by (rule entry_find_floor)
qed (simp_all add: entry_marks_cut_start entry_marks_cut_end)

section \<open>Properties\<close>

text \<open>C25: \<^verbatim>\<open>EntryIndex::find\<close>, two binary searches, agrees with a linear search through all checkpoints
  of the store: it returns the last checkpoint of the whole store that is not above the
  target, with its segment and offset, and nothing exactly when every checkpoint is above it. This
  holds for every index built in ascending order, also when the first segment has no checkpoint left
  (its start was truncated) and the last has none yet.\<close>

theorem entry_find_greatest:
  assumes "wf_entry_index ei"
  shows "entry_find ei t = floor_of checkpoint (entry_marks ei) t
       \<and> (entry_find ei t = Some m \<longleftrightarrow> m \<in> set (entry_marks ei) \<and> checkpoint m \<le> t
            \<and> (\<forall>m' \<in> set (entry_marks ei). checkpoint m' \<le> t \<longrightarrow> checkpoint m' \<le> checkpoint m))
       \<and> (entry_find ei t = None \<longleftrightarrow> (\<forall>m' \<in> set (entry_marks ei). t < checkpoint m'))"
  using entry_find_floor [OF assms] entries_index.find_greatest [OF assms]
    entries_index.find_None [OF assms] by blast

definition index_example :: entry_index where
  "index_example = \<lparr>indexed = [(SegmentId 1, \<lparr>index_checkpoints = []\<rparr>),
     (SegmentId 2, \<lparr>index_checkpoints = [(EntryId 64, 8), (EntryId 128, 900)]\<rparr>),
     (SegmentId 3, \<lparr>index_checkpoints = [(EntryId 200, 8)]\<rparr>),
     (SegmentId 4, \<lparr>index_checkpoints = []\<rparr>)]\<rparr>"

lemma wf_index_example: "wf_entry_index index_example"
  by (simp add: wf_entry_index_def ascending_marks_def index_example_def positions_def)

theorem entry_find_greatest_witness:
  "entry_find index_example (EntryId 150)
     = Some \<lparr>segment = SegmentId 2, checkpoint = EntryId 128, byte_offset = 900\<rparr>
   \<and> entry_find index_example (EntryId 63) = None"
  using conjunct2 [OF entry_find_greatest [OF wf_index_example, of "EntryId 150"
      "\<lparr>segment = SegmentId 2, checkpoint = EntryId 128, byte_offset = 900\<rparr>"]]
    conjunct2 [OF entry_find_greatest [OF wf_index_example, of "EntryId 63"]]
  by (simp add: entry_marks_def index_example_def positions_def)

text \<open>Truncating the entry index at either end keeps it well-formed and removes exactly the
  checkpoints outside the kept range: afterwards \<^verbatim>\<open>find\<close> answers as before for targets inside
  the range, never with a checkpoint after \<open>b\<close>, and with none at all where the old answer lies
  before \<open>a\<close>.\<close>

theorem entry_truncate_find:
  assumes "wf_entry_index ei"
  shows "wf_entry_index (entry_truncate_start a (entry_truncate_end b ei))
    \<and> entry_marks (entry_truncate_start a (entry_truncate_end b ei))
        = filter (\<lambda>m. a \<le> checkpoint m \<and> checkpoint m \<le> b) (entry_marks ei)
    \<and> entry_find (entry_truncate_start a (entry_truncate_end b ei)) t
        = (case entry_find ei (min t b) of
             None \<Rightarrow> None | Some m \<Rightarrow> if a \<le> checkpoint m then Some m else None)"
proof -
  note w = entries_index.wf_cut_end [OF assms, of b]
  show ?thesis
    using entries_index.find_cut_start [OF w, of a t] entries_index.find_cut_end [OF assms, of b t]
      entries_index.wf_cut_start [OF w, of a] entries_index.marks_cut_start [OF w, of a]
      entries_index.marks_cut_end [OF assms, of b]
    by (simp add: conj_commute)
qed

theorem entry_truncate_find_witness:
  "entry_marks (entry_truncate_start (EntryId 100) (entry_truncate_end (EntryId 150) index_example))
     = [\<lparr>segment = SegmentId 2, checkpoint = EntryId 128, byte_offset = 900\<rparr>]"
  using entry_truncate_find [OF wf_index_example, of "EntryId 100" "EntryId 150"]
  by (simp add: entry_marks_def index_example_def positions_def)

lemma add_segment_keeps:
  assumes "wf_entry_index ei" and "wf_segment_index ix"
    and "\<forall>m \<in> set (entry_marks ei). \<forall>c \<in> set (index_checkpoints ix). checkpoint m < fst c"
    and "length (indexed ei) \<le> 1 \<or> positions (last (indexed ei)) \<noteq> []"
  shows "\<exists>ei'. add_segment s ix ei = Some ei' \<and> wf_entry_index ei'
           \<and> entry_marks ei' = entry_marks ei @ positions (s, ix)"
proof -
  let ?ei = "ei\<lparr>indexed := indexed ei @ [(s, ix)]\<rparr>"
  have asc: "ascending (snd (last (indexed ei))) ix" if ne: "indexed ei \<noteq> []"
  proof (cases "index_checkpoints (snd (last (indexed ei)))"; cases "index_checkpoints ix")
    fix a as b bs
    assume a: "index_checkpoints (snd (last (indexed ei))) = a # as"
      and b: "index_checkpoints ix = b # bs"
    let ?m = "\<lparr>segment = fst (last (indexed ei)), checkpoint = fst a, byte_offset = snd a\<rparr>"
    have "?m \<in> set (positions (last (indexed ei)))"
      using a by (cases a) (simp add: positions_def)
    then have "?m \<in> set (entry_marks ei)" using last_in_set [OF ne] by (auto simp: entry_marks_def)
    with assms(3) b have "fst a < fst b" by fastforce
    with a b show ?thesis by (cases a; cases b) (simp add: ascending_def first_id_def)
  qed (auto simp: ascending_def first_id_def split: option.split)
  then have "add_segment s ix ei = Some ?ei" by (auto simp: add_segment_def)
  moreover have "ascending_marks (indexed ?ei)"
    using assms(1-3)
    by (fastforce simp: wf_entry_index_def ascending_marks_append entry_marks_def positions_def)
  moreover have "\<forall>e \<in> set (butlast (tl (indexed ?ei))). positions e \<noteq> []"
  proof (cases "length (indexed ei) \<le> 1")
    case True
    then show ?thesis by (cases "indexed ei") auto
  next
    case False
    then obtain x zs where xs: "indexed ei = x # zs" "zs \<noteq> []"
      by (cases "indexed ei"; cases "tl (indexed ei)") auto
    have "set zs = insert (last zs) (set (butlast zs))"
      using append_butlast_last_id [OF xs(2)]
      by (metis Un_insert_right list.simps(15) set_append set_empty2 sup_bot_right)
    with assms(1,4) False xs(2) show ?thesis by (simp add: wf_entry_index_def xs(1))
  qed
  ultimately show ?thesis by (simp add: wf_entry_index_def) (simp add: entry_marks_def)
qed

text \<open>Segments added in ascending order, with every segment but the last non-empty, give a
  well-formed entry index: \<^verbatim>\<open>add_segment\<close> accepts a segment whose checkpoints all lie above those
  already there (its \<^verbatim>\<open>debug_assert\<close> holds), appends its checkpoints in order and keeps the index
  well-formed.\<close>

theorem add_segment_wf:
  assumes "wf_entry_index ei" and "wf_segment_index ix"
    and "\<forall>m \<in> set (entry_marks ei). \<forall>c \<in> set (index_checkpoints ix). checkpoint m < fst c"
    and "length (indexed ei) \<le> 1 \<or> positions (last (indexed ei)) \<noteq> []"
  shows "\<exists>ei'. add_segment s ix ei = Some ei' \<and> wf_entry_index ei'
           \<and> entry_marks ei' = entry_marks ei @ positions (s, ix)"
  by (rule add_segment_keeps [OF assms])

theorem add_segment_wf_witness:
  "\<exists>ei'. add_segment (SegmentId 1) \<lparr>index_checkpoints = [(EntryId 3, 8)]\<rparr> entry_index_new = Some ei'
     \<and> wf_entry_index ei'
     \<and> entry_marks ei' = [\<lparr>segment = SegmentId 1, checkpoint = EntryId 3, byte_offset = 8\<rparr>]"
  using add_segment_wf [of entry_index_new "\<lparr>index_checkpoints = [(EntryId 3, 8)]\<rparr>" "SegmentId 1"]
  by (simp add: entry_index_new_def wf_entry_index_def wf_segment_index_def entry_marks_def
      positions_def)

end
