(* ===== verification/State.thy ===== *)
theory State
  imports Prelude
begin

text \<open>
  \<^verbatim>\<open>src/state.rs\<close>, first half: the manifest operations and the state machine they drive. \<open>apply\<close>
  is a step on the store state that either performs an operation or returns the error of the check
  that failed. The invariant \<open>wf_state\<close> says what a store promises of its segments, seals and dead
  set; \<open>op_valid\<close> says which operations a store may issue in a state, and \<open>manifest_step\<close> is the
  relation of the steps it takes.
\<close>

section \<open>Operations and state\<close>

datatype op =
    CreateSegment segment_id entry_id
  | RollSegment segment_id entry_id entry_id u32 u64 segment_id entry_id
  | TruncateStart entry_id "segment_id list"
  | TruncateEnd segment_id u64 "segment_id list"
  | SegmentDeleted segment_id
  | RecordOrphan segment_id
  | Metadata

record manifest_op =
  the_op :: op
  op_meta :: "(u8 \<times> bytes) list"

definition bare :: "op \<Rightarrow> manifest_op" where
  "bare p = \<lparr>the_op = p, op_meta = []\<rparr>"

definition with_meta :: "op \<Rightarrow> (u8 \<times> bytes) list \<Rightarrow> manifest_op" where
  "with_meta p kvs = \<lparr>the_op = p, op_meta = kvs\<rparr>"

record segment_entry =
  se_id :: segment_id
  se_first :: entry_id

record seal_info =
  sealed_first :: entry_id
  sealed_last :: entry_id
  entry_count :: u32
  final_size :: u64

record store_state =
  segments :: "segment_entry list"
  seals :: "segment_id \<rightharpoonup> seal_info"
  active_segment_id :: "segment_id option"
  dead :: "segment_id set"
  head_entry :: entry_id
  metadata :: "(u8 \<times> bytes) list"

definition empty_state :: store_state where
  "empty_state = \<lparr>segments = [], seals = Map.empty, active_segment_id = None, dead = {},
     head_entry = EntryId 0, metadata = []\<rparr>"

definition active_segment :: "store_state \<Rightarrow> segment_entry option" where
  "active_segment s = (case active_segment_id s of
     None \<Rightarrow> None | Some i \<Rightarrow> find (\<lambda>e. se_id e = i) (segments s))"

definition is_empty :: "store_state \<Rightarrow> bool" where
  "is_empty s \<longleftrightarrow> segments s = []"

section \<open>Applying an operation\<close>

datatype apply_error =
    StoreNotEmpty
  | NotActiveSegment segment_id
  | TruncateStartBeforeFirst entry_id
  | SegmentNotFound segment_id
  | SegmentNotDead segment_id

type_synonym apply_step = "(store_state, apply_error, unit) step"

definition create_segment :: "segment_id \<Rightarrow> entry_id \<Rightarrow> apply_step" where
  "create_segment i first s =
     (if \<not> is_empty s then (Inl StoreNotEmpty, s)
      else (Inr (), s\<lparr>head_entry := first,
                      segments := segments s @ [\<lparr>se_id = i, se_first = first\<rparr>],
                      active_segment_id := Some i\<rparr>))"

definition roll_segment ::
  "segment_id \<Rightarrow> entry_id \<Rightarrow> entry_id \<Rightarrow> u32 \<Rightarrow> u64 \<Rightarrow> segment_id \<Rightarrow> entry_id \<Rightarrow> apply_step" where
  "roll_segment sealed first lst cnt sz new new_first s =
     (if active_segment_id s \<noteq> Some sealed then (Inl (NotActiveSegment sealed), s)
      else (Inr (), s\<lparr>seals := (seals s)(sealed \<mapsto>
                        \<lparr>sealed_first = first, sealed_last = lst, entry_count = cnt, final_size = sz\<rparr>),
                      segments := segments s @ [\<lparr>se_id = new, se_first = new_first\<rparr>],
                      active_segment_id := Some new\<rparr>))"

definition kill_segment :: "segment_id \<Rightarrow> store_state \<Rightarrow> store_state" where
  "kill_segment i s = s\<lparr>segments := filter (\<lambda>e. se_id e \<noteq> i) (segments s),
                        seals := (seals s)(i := None), dead := insert i (dead s)\<rparr>"

definition truncate_start :: "entry_id \<Rightarrow> segment_id list \<Rightarrow> apply_step" where
  "truncate_start first drops s =
     (if first < head_entry s then (Inl (TruncateStartBeforeFirst first), s)
      else (Inr (), (fold kill_segment drops s)\<lparr>head_entry := first\<rparr>))"

text \<open>The first listed segment that the store does not have, in the order the loop looks.\<close>

definition first_unknown :: "store_state \<Rightarrow> segment_id list \<Rightarrow> segment_id option" where
  "first_unknown s is = find (\<lambda>i. \<not> (\<exists>e \<in> set (segments s). se_id e = i)) is"

definition truncate_end :: "segment_id \<Rightarrow> u64 \<Rightarrow> segment_id list \<Rightarrow> apply_step" where
  "truncate_end new_active offset drops s =
     (case first_unknown s drops of
        Some i \<Rightarrow> (Inl (SegmentNotFound i), s)
      | None \<Rightarrow>
          if \<not> (\<exists>e \<in> set (segments s). se_id e = new_active)
          then (Inl (SegmentNotFound new_active), s)
          else let t = fold kill_segment drops s
               in (Inr (), t\<lparr>seals := (seals t)(new_active := None),
                             active_segment_id := Some new_active\<rparr>))"

definition segment_deleted :: "segment_id \<Rightarrow> apply_step" where
  "segment_deleted i s =
     (if i \<notin> dead s then (Inl (SegmentNotDead i), s)
      else (Inr (), s\<lparr>dead := dead s - {i}\<rparr>))"

fun apply_op :: "op \<Rightarrow> apply_step" where
  "apply_op (CreateSegment i first) = create_segment i first"
| "apply_op (RollSegment i first lst cnt sz new new_first) =
     roll_segment i first lst cnt sz new new_first"
| "apply_op (TruncateStart first drops) = truncate_start first drops"
| "apply_op (TruncateEnd i offset drops) = truncate_end i offset drops"
| "apply_op (SegmentDeleted i) = segment_deleted i"
| "apply_op (RecordOrphan i) = (\<lambda>s. (Inr (), s\<lparr>dead := insert i (dead s)\<rparr>))"
| "apply_op Metadata = ok ()"

text \<open>The pair with the key is overwritten where it stands; a new key goes to the end.\<close>

fun set_pair :: "u8 \<times> bytes \<Rightarrow> (u8 \<times> bytes) list \<Rightarrow> (u8 \<times> bytes) list" where
  "set_pair (k, v) [] = [(k, v)]"
| "set_pair (k, v) ((k', v') # kvs) =
     (if k' = k then (k', v) # kvs else (k', v') # set_pair (k, v) kvs)"

definition apply_manifest_op :: "manifest_op \<Rightarrow> apply_step" where
  "apply_manifest_op m = and_then (apply_op (the_op m))
     (\<lambda>_ s. (Inr (), s\<lparr>metadata := fold set_pair (op_meta m) (metadata s)\<rparr>))"

section \<open>Errors\<close>

text \<open>The check of each operation, as one function from the operation to the error it gives.\<close>

fun op_error :: "store_state \<Rightarrow> op \<Rightarrow> apply_error option" where
  "op_error s (CreateSegment i first) = (if segments s = [] then None else Some StoreNotEmpty)"
| "op_error s (RollSegment i first lst cnt sz new new_first) =
     (if active_segment_id s = Some i then None else Some (NotActiveSegment i))"
| "op_error s (TruncateStart first drops) =
     (if head_entry s \<le> first then None else Some (TruncateStartBeforeFirst first))"
| "op_error s (TruncateEnd i offset drops) =
     map_option SegmentNotFound (find (\<lambda>j. j \<notin> se_id ` set (segments s)) (drops @ [i]))"
| "op_error s (SegmentDeleted i) = (if i \<in> dead s then None else Some (SegmentNotDead i))"
| "op_error s (RecordOrphan i) = None"
| "op_error s Metadata = None"

lemma find_append: "find p (xs @ ys) = (case find p xs of None \<Rightarrow> find p ys | Some x \<Rightarrow> Some x)"
  by (induction xs) auto

lemma first_unknown_find:
  "first_unknown s is = find (\<lambda>j. j \<notin> se_id ` set (segments s)) is"
  by (simp add: first_unknown_def image_iff eq_commute)

lemma apply_op_error: "fst (apply_op p s) = (case op_error s p of None \<Rightarrow> Inr () | Some e \<Rightarrow> Inl e)"
  and apply_op_unchanged: "op_error s p = Some e \<Longrightarrow> snd (apply_op p s) = s"
  by (cases p; force simp: create_segment_def is_empty_def roll_segment_def truncate_start_def
      truncate_end_def segment_deleted_def Let_def find_append first_unknown_find not_less
      split: option.splits)+

section \<open>The invariant\<close>

abbreviation ids_of :: "store_state \<Rightarrow> segment_id list" where
  "ids_of s \<equiv> map se_id (segments s)"

text \<open>The segments, with their seals, in the order of their entries: a segment is sealed exactly when
  another follows it, and its seal's entries lie between its own first entry and the first entry of
  every segment after it.\<close>

definition sealed_before :: "(segment_id \<rightharpoonup> seal_info) \<Rightarrow> segment_entry \<Rightarrow> segment_entry \<Rightarrow> bool" where
  "sealed_before sl e f \<longleftrightarrow>
     (case sl (se_id e) of None \<Rightarrow> False
      | Some i \<Rightarrow> sealed_first i = se_first e \<and> sealed_first i \<le> sealed_last i
                 \<and> sealed_last i < se_first f)"

definition wf_state :: "store_state \<Rightarrow> bool" where
  "wf_state s \<longleftrightarrow> distinct (ids_of s)
     \<and> set (ids_of s) \<inter> dead s = {}
     \<and> active_segment_id s = (if segments s = [] then None else Some (last (ids_of s)))
     \<and> dom (seals s) = set (butlast (ids_of s))
     \<and> sorted_wrt (sealed_before (seals s)) (segments s)
     \<and> distinct (map fst (metadata s))"

text \<open>The operations a store may issue: new segments get ids that are neither live nor dead, entry ids
  grow from one segment to the next, only sealed segments are dropped at the start, and exactly the
  segments after the target at the end.\<close>

fun op_valid :: "store_state \<Rightarrow> op \<Rightarrow> bool" where
  "op_valid s (CreateSegment i first) \<longleftrightarrow> segments s = [] \<and> i \<notin> dead s"
| "op_valid s (RollSegment i first lst cnt sz new new_first) \<longleftrightarrow>
     active_segment_id s = Some i \<and> segments s \<noteq> [] \<and> first = se_first (last (segments s))
     \<and> first \<le> lst \<and> lst < new_first \<and> new \<notin> set (ids_of s) \<and> new \<notin> dead s"
| "op_valid s (TruncateStart first drops) \<longleftrightarrow>
     head_entry s \<le> first \<and> set drops \<subseteq> dom (seals s)"
| "op_valid s (TruncateEnd i offset drops) \<longleftrightarrow>
     (\<exists>e \<in> set (segments s). se_id e = i)
     \<and> drops = tl (dropWhile (\<lambda>j. j \<noteq> i) (ids_of s))"
| "op_valid s (SegmentDeleted i) \<longleftrightarrow> i \<in> dead s"
| "op_valid s (RecordOrphan i) \<longleftrightarrow> i \<notin> set (ids_of s)"
| "op_valid s Metadata \<longleftrightarrow> True"

lemma kill_segments:
  "segments (fold kill_segment is s) = filter (\<lambda>e. se_id e \<notin> set is) (segments s)"
  "seals (fold kill_segment is s) = (\<lambda>j. if j \<in> set is then None else seals s j)"
  "dead (fold kill_segment is s) = set is \<union> dead s"
  "active_segment_id (fold kill_segment is s) = active_segment_id s"
  "head_entry (fold kill_segment is s) = head_entry s"
  "metadata (fold kill_segment is s) = metadata s"
  by (induction "is" arbitrary: s) (auto simp: kill_segment_def intro: filter_cong)

lemma truncate_end_split:
  assumes "op_valid s (TruncateEnd i offset drops)"
  obtains pre e post where "segments s = pre @ e # post" and "se_id e = i"
    and "drops = map se_id post"
proof -
  have "\<exists>e \<in> set (segments s). se_id e = i" using assms by simp
  then obtain pre e post where s: "segments s = pre @ e # post" "se_id e = i"
      "\<forall>f \<in> set pre. se_id f \<noteq> i"
    by (elim split_list_first_propE) auto
  have "dropWhile (\<lambda>j. j \<noteq> i) (map se_id pre @ map se_id (e # post)) = map se_id (e # post)"
    using s(2,3) by (subst dropWhile_append2) auto
  with assms s show thesis by (intro that [of pre e post]) simp_all
qed

lemma op_valid_no_error: "op_valid s p \<Longrightarrow> op_error s p = None"
proof (cases p)
  case (TruncateEnd i off drops)
  assume "op_valid s p"
  then show ?thesis
    unfolding TruncateEnd by (rule truncate_end_split) (auto simp: find_None_iff)
qed auto

lemma sealed_before_cong:
  "sorted_wrt (sealed_before sl) es \<Longrightarrow> \<forall>i \<in> set (butlast (map se_id es)). sl' i = sl i
     \<Longrightarrow> sorted_wrt (sealed_before sl') es"
proof (induction es)
  case (Cons e es)
  then show ?case by (cases "es = []") (auto simp: sealed_before_def)
qed simp

lemma wf_state_single:
  "wf_state s \<Longrightarrow> segments s \<noteq> [] \<Longrightarrow> last (ids_of s) \<notin> dom (seals s)"
  by (cases "segments s" rule: rev_cases) (auto simp: wf_state_def)

lemma dom_seals_ids: "wf_state s \<Longrightarrow> dom (seals s) \<subseteq> set (ids_of s)"
  by (auto simp: wf_state_def dest: in_set_butlastD)

lemma wf_create:
  "wf_state s \<Longrightarrow> op_valid s (CreateSegment i first) \<Longrightarrow> wf_state (snd (create_segment i first s))"
  by (simp add: wf_state_def create_segment_def is_empty_def)

lemma wf_roll:
  assumes wf: "wf_state s" and v: "op_valid s (RollSegment i first lst cnt sz new new_first)"
  shows "wf_state (snd (roll_segment i first lst cnt sz new new_first s))"
proof -
  let ?info = "\<lparr>sealed_first = first, sealed_last = lst, entry_count = cnt, final_size = sz\<rparr>"
  let ?sl = "(seals s)(i \<mapsto> ?info)"
  obtain es e where es: "segments s = es @ [e]" using v by (cases "segments s" rule: rev_cases) auto
  have i: "i = se_id e" and e: "se_first e = first" using wf v es by (auto simp: wf_state_def)
  have srt: "sorted_wrt (sealed_before ?sl) (es @ [e])"
    by (rule sealed_before_cong [of "seals s"])
       (use wf es i in \<open>auto simp: wf_state_def image_iff\<close>)
  have less: "sealed_before ?sl f \<lparr>se_id = new, se_first = new_first\<rparr>" if "f \<in> set (es @ [e])" for f
  proof (cases "f = e")
    case True
    then show ?thesis using v e i es by (simp add: sealed_before_def)
  next
    case False
    with that srt have "sealed_before ?sl f e" by (auto simp: sorted_wrt_append)
    with v e show ?thesis by (auto simp: sealed_before_def split: option.splits)
  qed
  show ?thesis
    using wf v es i srt less
    by (auto simp: wf_state_def roll_segment_def sorted_wrt_append butlast_append)
qed

lemma wf_truncate_start:
  assumes wf: "wf_state s" and v: "op_valid s (TruncateStart first drops)"
  shows "wf_state (snd (truncate_start first drops s))"
proof (cases "segments s" rule: rev_cases)
  case Nil
  with wf v show ?thesis by (simp add: wf_state_def truncate_start_def kill_segments)
next
  case (snoc es e)
  have e: "se_id e \<notin> set drops"
    using wf v wf_state_single [OF wf] snoc by auto
  let ?es = "filter (\<lambda>f. se_id f \<notin> set drops) es"
  let ?sl = "\<lambda>j. if j \<in> set drops then None else seals s j"
  have "sorted_wrt (sealed_before ?sl) (?es @ [e])"
  proof (rule sealed_before_cong [of "seals s"])
    have "sorted_wrt (sealed_before (seals s)) (filter (\<lambda>f. se_id f \<notin> set drops) (es @ [e]))"
      using wf snoc by (intro sorted_wrt_filter) (simp add: wf_state_def)
    then show "sorted_wrt (sealed_before (seals s)) (?es @ [e])" using e by simp
  qed auto
  moreover have "set drops \<subseteq> set (ids_of s)" using v dom_seals_ids [OF wf] by auto
  moreover have "dom ?sl = set (map se_id ?es)"
    using wf snoc by (auto simp: wf_state_def dom_def split: if_splits)
  ultimately show ?thesis
    using wf v snoc e
    by (auto simp: wf_state_def truncate_start_def kill_segments distinct_map_filter)
qed

lemma cut_sets:
  "D = P \<union> B \<Longrightarrow> B \<subseteq> insert i S \<Longrightarrow> P \<inter> insert i S = {} \<Longrightarrow> X = D - S - {i} \<Longrightarrow> X = P"
  by blast

lemma wf_truncate_end:
  assumes wf: "wf_state s" and v: "op_valid s (TruncateEnd i offset drops)"
  shows "wf_state (snd (truncate_end i offset drops s))"
  using v
proof (rule truncate_end_split)
  fix pre e post
  assume s: "segments s = pre @ e # post" "se_id e = i" "drops = map se_id post"
  have unk: "first_unknown s drops = None"
    using s by (auto simp: first_unknown_find find_None_iff)
  have flt: "filter (\<lambda>f. se_id f \<notin> set drops) (segments s) = pre @ [e]"
    using wf s by (auto simp: wf_state_def filter_id_conv filter_empty_conv)
  let ?sl = "(\<lambda>j. if j \<in> set drops then None else seals s j)(i := None)"
  have "sorted_wrt (sealed_before ?sl) (pre @ [e])"
    by (rule sealed_before_cong [of "seals s"])
       (use wf s in \<open>auto simp: wf_state_def sorted_wrt_append image_iff\<close>)
  moreover have "dom ?sl = set (map se_id pre)"
  proof -
    have dom: "dom (seals s) = set (map se_id pre) \<union> set (butlast (map se_id (e # post)))"
      using wf s(1) by (simp add: wf_state_def butlast_append)
    have sub: "set (butlast (map se_id (e # post))) \<subseteq> insert i (set drops)"
      using s by (auto dest: in_set_butlastD)
    have disj: "set (map se_id pre) \<inter> insert i (set drops) = {}"
      using wf s by (auto simp: wf_state_def image_iff)
    have "dom ?sl = dom (seals s) - set drops - {i}" by (auto simp: dom_def split: if_splits)
    with dom sub disj show ?thesis by (rule cut_sets)
  qed
  ultimately show "wf_state (snd (truncate_end i offset drops s))"
    using wf s flt unk
    by (auto simp: wf_state_def truncate_end_def Let_def kill_segments)
qed

lemma wf_apply_op:
  assumes "wf_state s" and "op_valid s p"
  shows "wf_state (snd (apply_op p s))"
  using assms
proof (cases p)
  case (SegmentDeleted i)
  with assms show ?thesis by (auto simp: segment_deleted_def wf_state_def)
next
  case (RecordOrphan i)
  with assms show ?thesis by (auto simp: wf_state_def)
qed (auto intro: wf_create wf_roll wf_truncate_start wf_truncate_end simp del: op_valid.simps)

section \<open>Metadata\<close>

lemma map_of_set_pair: "map_of (set_pair (k, v) kvs) = (map_of kvs)(k \<mapsto> v)"
  by (induction "(k, v)" kvs rule: set_pair.induct) auto

lemma keys_set_pair: "fst ` set (set_pair (k, v) kvs) = insert k (fst ` set kvs)"
  by (induction "(k, v)" kvs rule: set_pair.induct) auto

lemma distinct_set_pair: "distinct (map fst kvs) \<Longrightarrow> distinct (map fst (set_pair (k, v) kvs))"
  by (induction "(k, v)" kvs rule: set_pair.induct) (auto simp: keys_set_pair)

lemma map_of_set_pairs: "map_of (fold set_pair new kvs) = map_of kvs ++ map_of (rev new)"
  by (induction new arbitrary: kvs) (auto simp: map_of_set_pair map_add_def split: option.splits)

lemma distinct_set_pairs: "distinct (map fst kvs) \<Longrightarrow> distinct (map fst (fold set_pair new kvs))"
  by (induction new arbitrary: kvs) (auto simp: distinct_set_pair)

lemma wf_metadata [simp]:
  "distinct (map fst kvs) \<Longrightarrow> wf_state s \<Longrightarrow> wf_state (s\<lparr>metadata := kvs\<rparr>)"
  by (simp add: wf_state_def)

lemma metadata_apply_op [simp]: "metadata (snd (apply_op p s)) = metadata s"
  by (cases p) (auto simp: create_segment_def roll_segment_def truncate_start_def truncate_end_def
      segment_deleted_def Let_def kill_segments split: option.split)

section \<open>The whole operation\<close>

lemma apply_manifest_op_result:
  "apply_manifest_op m s =
     (case op_error s (the_op m) of
        Some e \<Rightarrow> (Inl e, s)
      | None \<Rightarrow> (Inr (), (snd (apply_op (the_op m) s))
                  \<lparr>metadata := fold set_pair (op_meta m) (metadata s)\<rparr>))"
  using apply_op_error [of "the_op m" s] apply_op_unchanged [of s "the_op m"]
    metadata_apply_op [of "the_op m" s]
  by (cases "apply_op (the_op m) s")
     (auto simp: apply_manifest_op_def and_then_def split: option.splits)

lemma wf_apply_manifest_op:
  "wf_state s \<Longrightarrow> op_valid s (the_op m) \<Longrightarrow> wf_state (snd (apply_manifest_op m s))"
  using wf_apply_op [of s "the_op m"] distinct_set_pairs [of "metadata s" "op_meta m"]
  by (auto simp: apply_manifest_op_result op_valid_no_error intro: wf_metadata)
     (simp add: wf_state_def)

section \<open>Steps and reachable states\<close>

inductive manifest_step :: "store_state \<Rightarrow> manifest_op \<Rightarrow> store_state \<Rightarrow> bool" where
  issue: "op_valid s (the_op m) \<Longrightarrow> apply_manifest_op m s = (Inr (), t) \<Longrightarrow> manifest_step s m t"

inductive manifest_steps :: "store_state \<Rightarrow> manifest_op list \<Rightarrow> store_state \<Rightarrow> bool" where
  none: "manifest_steps s [] s"
| more: "manifest_step s m t \<Longrightarrow> manifest_steps t ms u \<Longrightarrow> manifest_steps s (m # ms) u"

inductive_cases manifest_stepE: "manifest_step s m t"
inductive_cases manifest_steps_ConsE: "manifest_steps s (m # ms) u"
inductive_simps manifest_steps_Nil: "manifest_steps s [] u"
inductive_simps manifest_steps_Cons: "manifest_steps s (m # ms) u"

lemma step_wf: "manifest_step s m t \<Longrightarrow> wf_state s \<Longrightarrow> wf_state t"
  by (elim manifest_stepE) (use wf_apply_manifest_op in fastforce)

lemma steps_wf: "manifest_steps s ms t \<Longrightarrow> wf_state s \<Longrightarrow> wf_state t"
  by (induction rule: manifest_steps.induct) (auto intro: step_wf)

lemma wf_empty_state [simp]: "wf_state empty_state"
  by (simp add: wf_state_def empty_state_def)

text \<open>The segment files a state knows of; \<open>creates\<close> and \<open>deletes\<close> are what an operation says it
  makes and removes.\<close>

definition tracked :: "store_state \<Rightarrow> segment_id set" where
  "tracked s = set (ids_of s) \<union> dead s"

fun creates :: "op \<Rightarrow> segment_id set" where
  "creates (CreateSegment i first) = {i}"
| "creates (RollSegment i first lst cnt sz new new_first) = {new}"
| "creates (RecordOrphan i) = {i}"
| "creates _ = {}"

fun deletes :: "op \<Rightarrow> segment_id set" where
  "deletes (SegmentDeleted i) = {i}"
| "deletes _ = {}"

lemma tracked_apply_op:
  assumes "wf_state s" and "op_valid s p"
  shows "tracked (snd (apply_op p s)) = (tracked s \<union> creates p) - deletes p"
  using assms
proof (cases p)
  case (TruncateEnd i off drops)
  with assms(2) have "op_valid s (TruncateEnd i off drops)" by simp
  then show ?thesis
  proof (rule truncate_end_split)
    fix pre e post
    assume s: "segments s = pre @ e # post" "se_id e = i" "drops = map se_id post"
    then have "first_unknown s drops = None" by (auto simp: first_unknown_find find_None_iff)
    with s TruncateEnd show ?thesis
      by (auto simp: tracked_def truncate_end_def Let_def kill_segments)
  qed
next
  case (TruncateStart first drops)
  with assms have "set drops \<subseteq> set (ids_of s)" using dom_seals_ids [OF assms(1)] by auto
  with TruncateStart assms show ?thesis
    by (auto simp: tracked_def truncate_start_def kill_segments)
next
  case (SegmentDeleted i)
  with assms show ?thesis by (auto simp: tracked_def segment_deleted_def wf_state_def)
qed (auto simp: tracked_def create_segment_def is_empty_def roll_segment_def)

lemma step_result:
  "manifest_step s m t \<Longrightarrow>
     op_valid s (the_op m)
     \<and> t = (snd (apply_op (the_op m) s))\<lparr>metadata := fold set_pair (op_meta m) (metadata s)\<rparr>"
  by (elim manifest_stepE) (simp add: apply_manifest_op_result op_valid_no_error)

lemma tracked_metadata [simp]: "tracked (s\<lparr>metadata := kvs\<rparr>) = tracked s"
  by (simp add: tracked_def)

lemma step_head:
  assumes "manifest_step s m t" and "wf_state s" and "segments s \<noteq> []"
  shows "segments t \<noteq> [] \<and> head_entry s \<le> head_entry t"
proof (cases "the_op m")
  case (TruncateStart first drops)
  have "last (ids_of s) \<notin> set drops"
    using step_result [OF assms(1)] wf_state_single [OF assms(2,3)] TruncateStart by auto
  then have "filter (\<lambda>e. se_id e \<notin> set drops) (segments s) \<noteq> []"
    using assms(3) by (auto simp: filter_empty_conv last_map intro!: bexI [of _ "last (segments s)"])
  with step_result [OF assms(1)] TruncateStart show ?thesis
    by (auto simp: truncate_start_def kill_segments)
next
  case (TruncateEnd i off drops)
  with step_result [OF assms(1)] have v: "op_valid s (TruncateEnd i off drops)" by simp
  from v show ?thesis
  proof (rule truncate_end_split)
    fix pre e post
    assume s: "segments s = pre @ e # post" "se_id e = i" "drops = map se_id post"
    then have "first_unknown s drops = None" by (auto simp: first_unknown_find find_None_iff)
    moreover have "e \<in> set (filter (\<lambda>f. se_id f \<notin> set drops) (segments s))"
      using s assms(2) by (auto simp: wf_state_def)
    ultimately show ?thesis
      using step_result [OF assms(1)] TruncateEnd s
      by (auto simp: truncate_end_def Let_def kill_segments filter_empty_conv)
  qed
qed (use step_result [OF assms(1)] assms(3) in
    \<open>auto simp: create_segment_def is_empty_def roll_segment_def segment_deleted_def\<close>)

section \<open>Properties\<close>

text \<open>C21: Every state a store reaches from the empty one by issuing valid operations keeps the
  invariant: distinct live segments, none of them dead, the last one active, all others sealed, the
  sealed entry ranges in order and disjoint, one metadata value per key. In every such state each valid
  operation is accepted.\<close>

theorem reachable_wf:
  assumes "manifest_steps empty_state ms s"
  shows "wf_state s \<and> (\<forall>m. op_valid s (the_op m) \<longrightarrow> (\<exists>t. manifest_step s m t \<and> wf_state t))"
proof -
  have wf: "wf_state s" using steps_wf [OF assms] by simp
  moreover have "\<exists>t. manifest_step s m t \<and> wf_state t" if "op_valid s (the_op m)" for m
    using that wf_apply_manifest_op [OF wf that]
    by (auto intro!: exI manifest_step.issue simp: apply_manifest_op_result op_valid_no_error)
  ultimately show ?thesis by blast
qed

definition history_example :: "manifest_op list" where
  "history_example =
     [bare (CreateSegment (SegmentId 1) (EntryId 0)),
      bare (RollSegment (SegmentId 1) (EntryId 0) (EntryId 9) 10 300 (SegmentId 2) (EntryId 10)),
      with_meta (TruncateStart (EntryId 12) [SegmentId 1]) [(1, [7]), (2, []), (1, [8])],
      bare (SegmentDeleted (SegmentId 1)),
      bare (RollSegment (SegmentId 2) (EntryId 10) (EntryId 19) 10 300 (SegmentId 3) (EntryId 20)),
      with_meta (TruncateEnd (SegmentId 2) 100 [SegmentId 3]) [(2, [5])]]"

definition history_end :: store_state where
  "history_end = \<lparr>segments = [\<lparr>se_id = SegmentId 2, se_first = EntryId 10\<rparr>],
     seals = Map.empty, active_segment_id = Some (SegmentId 2), dead = {SegmentId 3},
     head_entry = EntryId 12, metadata = [(1, [8]), (2, [5])]\<rparr>"

lemmas run_simps = manifest_steps_Cons manifest_steps_Nil manifest_step.simps apply_manifest_op_result
  history_example_def history_end_def empty_state_def bare_def with_meta_def create_segment_def
  is_empty_def roll_segment_def truncate_start_def truncate_end_def segment_deleted_def
  kill_segment_def first_unknown_def Let_def

lemma history_runs: "manifest_steps empty_state history_example history_end"
  by (simp add: run_simps fun_upd_idem_iff fun_eq_iff)

theorem reachable_wf_witness: "wf_state history_end"
  using reachable_wf [OF history_runs] by blast

text \<open>C23: An operation is refused exactly when its check fails, with that check's error, and then the
  state, metadata included, is unchanged; an accepted operation leaves no error behind.\<close>

theorem apply_manifest_op_errors:
  "apply_manifest_op m s =
     (case op_error s (the_op m) of
        Some e \<Rightarrow> (Inl e, s)
      | None \<Rightarrow> (Inr (), snd (apply_manifest_op m s)))"
  by (simp add: apply_manifest_op_result split: option.split)

text \<open>C22: No segment file is lost track of: along any run of valid operations from a well-formed state,
  the live and dead segments together grow by the segments operations create or record and shrink only
  by the deletions recorded.\<close>

theorem tracked_steps:
  assumes "manifest_steps s ms t" and "wf_state s"
  shows "tracked t = fold (\<lambda>m S. (S \<union> creates (the_op m)) - deletes (the_op m)) ms (tracked s)"
  using assms
proof (induction rule: manifest_steps.induct)
  case (more s m t ms u)
  then have "tracked t = (tracked s \<union> creates (the_op m)) - deletes (the_op m)"
    using step_result [OF more.hyps(1)] tracked_apply_op [of s "the_op m"] by simp
  with more show ?case using step_wf by simp
qed simp

theorem tracked_steps_witness: "tracked history_end = {SegmentId 2, SegmentId 3}"
  using tracked_steps [OF history_runs wf_empty_state]
  by (auto simp: history_example_def bare_def with_meta_def tracked_def empty_state_def)

text \<open>The log head never moves back and a store never becomes empty again: along any run of valid
  operations from a well-formed state with a segment.\<close>

theorem head_monotone:
  assumes "manifest_steps s ms t" and "wf_state s" and "segments s \<noteq> []"
  shows "segments t \<noteq> [] \<and> head_entry s \<le> head_entry t"
  using assms
proof (induction rule: manifest_steps.induct)
  case (more s m t ms u)
  with step_head [OF more.hyps(1)] step_wf [OF more.hyps(1)] show ?case by force
qed simp

theorem head_monotone_witness:
  "segments (history_end\<lparr>head_entry := EntryId 30\<rparr>) \<noteq> []
     \<and> EntryId 12 \<le> head_entry (history_end\<lparr>head_entry := EntryId 30\<rparr>)"
proof -
  have "manifest_steps history_end [bare (TruncateStart (EntryId 30) [])]
      (history_end\<lparr>head_entry := EntryId 30\<rparr>)"
    by (simp add: run_simps)
  moreover have "wf_state history_end" using steps_wf [OF history_runs] by simp
  moreover have "segments history_end \<noteq> []" by (simp add: history_end_def)
  ultimately show ?thesis using head_monotone by (simp add: history_end_def)
qed

text \<open>Metadata is last-write-wins: after any sequence of accepted operations the value of a key is
  the last value written for it, by the last operation that wrote it, or the value it had before; and
  no key appears twice.\<close>

theorem metadata_last_write_wins:
  assumes "for_each apply_manifest_op ms s = (Inr (), t)"
  shows "map_of (metadata t) = map_of (metadata s) ++ map_of (rev (concat (map op_meta ms)))
       \<and> (distinct (map fst (metadata s)) \<longrightarrow> distinct (map fst (metadata t)))"
  using assms
proof (induction ms arbitrary: s)
  case (Cons m ms)
  then obtain u where u: "apply_manifest_op m s = (Inr (), u)"
    and rest: "for_each apply_manifest_op ms u = (Inr (), t)"
    by (auto simp: and_then_eq_Inr)
  from u have "metadata u = fold set_pair (op_meta m) (metadata s)"
    by (auto simp: apply_manifest_op_result split: option.splits)
  with Cons.IH [OF rest] show ?case
    by (simp add: map_of_set_pairs distinct_set_pairs)
qed (simp add: ok_def)

theorem metadata_last_write_wins_witness:
  "map_of (metadata history_end) = [1 \<mapsto> [8], 2 \<mapsto> [5]]"
proof -
  have "for_each apply_manifest_op history_example empty_state = (Inr (), history_end)"
    by (simp add: run_simps and_then_def fun_upd_idem_iff fun_eq_iff)
  from metadata_last_write_wins [OF this] show ?thesis
    by (simp add: history_example_def empty_state_def bare_def with_meta_def)
qed

end
