(* ===== verification/Codec.thy ===== *)
theory Codec
  imports State Crates
begin

text \<open>
  \<^verbatim>\<open>src/state.rs\<close>, second half: manifest operations as \<^verbatim>\<open>yatlv\<close> frames. \<open>encode_adds\<close> is the list
  of fields the code adds to the builder, in its order; \<open>decode\<close> reads them back through the parser.
\<close>

definition TAG_OP_TYPE :: u16 where "TAG_OP_TYPE = 1"
definition TAG_SEGMENT_ID :: u16 where "TAG_SEGMENT_ID = 2"
definition TAG_FIRST_ENTRY :: u16 where "TAG_FIRST_ENTRY = 3"
definition TAG_LAST_ENTRY :: u16 where "TAG_LAST_ENTRY = 4"
definition TAG_ENTRY_COUNT :: u16 where "TAG_ENTRY_COUNT = 5"
definition TAG_FINAL_SIZE :: u16 where "TAG_FINAL_SIZE = 6"
definition TAG_NEW_SEGMENT_ID :: u16 where "TAG_NEW_SEGMENT_ID = 7"
definition TAG_NEW_FIRST_ENTRY :: u16 where "TAG_NEW_FIRST_ENTRY = 8"
definition TAG_BYTE_OFFSET :: u16 where "TAG_BYTE_OFFSET = 9"
definition TAG_DROP_ID :: u16 where "TAG_DROP_ID = 10"
definition TAG_META :: u16 where "TAG_META = 11"
definition TAG_META_KEY :: u16 where "TAG_META_KEY = 1"
definition TAG_META_VALUE :: u16 where "TAG_META_VALUE = 2"

definition OP_CREATE_SEGMENT :: u8 where "OP_CREATE_SEGMENT = 0x01"
definition OP_ROLL_SEGMENT :: u8 where "OP_ROLL_SEGMENT = 0x02"
definition OP_TRUNCATE_START :: u8 where "OP_TRUNCATE_START = 0x03"
definition OP_TRUNCATE_END :: u8 where "OP_TRUNCATE_END = 0x04"
definition OP_SEGMENT_DELETED :: u8 where "OP_SEGMENT_DELETED = 0x05"
definition OP_RECORD_ORPHAN :: u8 where "OP_RECORD_ORPHAN = 0x06"
definition OP_META :: u8 where "OP_META = 0x07"

lemmas tag_defs = TAG_OP_TYPE_def TAG_SEGMENT_ID_def TAG_FIRST_ENTRY_def TAG_LAST_ENTRY_def
  TAG_ENTRY_COUNT_def TAG_FINAL_SIZE_def TAG_NEW_SEGMENT_ID_def TAG_NEW_FIRST_ENTRY_def
  TAG_BYTE_OFFSET_def TAG_DROP_ID_def TAG_META_def TAG_META_KEY_def TAG_META_VALUE_def

lemmas op_tag_defs = OP_CREATE_SEGMENT_def OP_ROLL_SEGMENT_def OP_TRUNCATE_START_def
  OP_TRUNCATE_END_def OP_SEGMENT_DELETED_def OP_RECORD_ORPHAN_def OP_META_def

section \<open>Encoding\<close>

fun op_type :: "op \<Rightarrow> u8" where
  "op_type (CreateSegment _ _) = OP_CREATE_SEGMENT"
| "op_type (RollSegment _ _ _ _ _ _ _) = OP_ROLL_SEGMENT"
| "op_type (TruncateStart _ _) = OP_TRUNCATE_START"
| "op_type (TruncateEnd _ _ _) = OP_TRUNCATE_END"
| "op_type (SegmentDeleted _) = OP_SEGMENT_DELETED"
| "op_type (RecordOrphan _) = OP_RECORD_ORPHAN"
| "op_type Metadata = OP_META"

fun op_adds :: "op \<Rightarrow> tlv_add list" where
  "op_adds (CreateSegment i first) =
     [Add TAG_SEGMENT_ID (U32 (sid i)), Add TAG_FIRST_ENTRY (U64 (eid first))]"
| "op_adds (RollSegment i first lst cnt sz new new_first) =
     [Add TAG_SEGMENT_ID (U32 (sid i)), Add TAG_FIRST_ENTRY (U64 (eid first)),
      Add TAG_LAST_ENTRY (U64 (eid lst)), Add TAG_ENTRY_COUNT (U32 cnt),
      Add TAG_FINAL_SIZE (U64 sz), Add TAG_NEW_SEGMENT_ID (U32 (sid new)),
      Add TAG_NEW_FIRST_ENTRY (U64 (eid new_first))]"
| "op_adds (TruncateStart first drops) =
     Add TAG_FIRST_ENTRY (U64 (eid first)) # map (\<lambda>i. Add TAG_DROP_ID (U32 (sid i))) drops"
| "op_adds (TruncateEnd i offset drops) =
     Add TAG_NEW_SEGMENT_ID (U32 (sid i)) # Add TAG_BYTE_OFFSET (U64 offset)
       # map (\<lambda>i. Add TAG_DROP_ID (U32 (sid i))) drops"
| "op_adds (SegmentDeleted i) = [Add TAG_SEGMENT_ID (U32 (sid i))]"
| "op_adds (RecordOrphan i) = [Add TAG_SEGMENT_ID (U32 (sid i))]"
| "op_adds Metadata = []"

definition meta_adds :: "(u8 \<times> bytes) list \<Rightarrow> tlv_add list" where
  "meta_adds kvs =
     map (\<lambda>(k, v). AddFrame TAG_META [(TAG_META_KEY, U8 k), (TAG_META_VALUE, Data v)]) kvs"

definition encode_adds :: "manifest_op \<Rightarrow> tlv_add list" where
  "encode_adds m = Add TAG_OP_TYPE (U8 (op_type (the_op m))) # op_adds (the_op m)
                     @ meta_adds (op_meta m)"

definition encode :: "'f crates \<Rightarrow> manifest_op \<Rightarrow> bytes" where
  "encode C m = tlv_build C (encode_adds m)"

section \<open>Decoding\<close>

datatype decode_error = UnknownOpType u8 | Format tlv_error

definition bind_sum :: "'e + 'a \<Rightarrow> ('a \<Rightarrow> 'e + 'b) \<Rightarrow> 'e + 'b" where
  "bind_sum r f = (case r of Inl e \<Rightarrow> Inl e | Inr a \<Rightarrow> f a)"

definition from_yatlv :: "tlv_error + 'a \<Rightarrow> decode_error + 'a" where
  "from_yatlv r = (case r of Inl e \<Rightarrow> Inl (Format e) | Inr a \<Rightarrow> Inr a)"

text \<open>\<^verbatim>\<open>collect::<Result<Vec<_>, _>>\<close>: the first error of the list, or all the values.\<close>

fun collect_results :: "('e + 'a) list \<Rightarrow> 'e + 'a list" where
  "collect_results [] = Inr []"
| "collect_results (r # rs) =
     bind_sum r (\<lambda>a. bind_sum (collect_results rs) (\<lambda>as. Inr (a # as)))"

definition field_segment_id :: "'f crates \<Rightarrow> 'f \<Rightarrow> u16 \<Rightarrow> decode_error + segment_id" where
  "field_segment_id C f t = bind_sum (from_yatlv (get_u32 C f t)) (\<lambda>v. Inr (SegmentId v))"

definition field_entry_id :: "'f crates \<Rightarrow> 'f \<Rightarrow> u16 \<Rightarrow> decode_error + entry_id" where
  "field_entry_id C f t = bind_sum (from_yatlv (get_u64 C f t)) (\<lambda>v. Inr (EntryId v))"

definition field_drops :: "'f crates \<Rightarrow> 'f \<Rightarrow> decode_error + segment_id list" where
  "field_drops C f = from_yatlv (collect_results
     (map (\<lambda>r. bind_sum r (\<lambda>v. Inr (SegmentId v))) (get_u32s C f TAG_DROP_ID)))"

definition decode_op :: "'f crates \<Rightarrow> 'f \<Rightarrow> u8 \<Rightarrow> decode_error + op" where
  "decode_op C f t =
     (if t = OP_CREATE_SEGMENT then
        bind_sum (field_segment_id C f TAG_SEGMENT_ID) (\<lambda>i.
        bind_sum (field_entry_id C f TAG_FIRST_ENTRY) (\<lambda>first.
        Inr (CreateSegment i first)))
      else if t = OP_ROLL_SEGMENT then
        bind_sum (field_segment_id C f TAG_SEGMENT_ID) (\<lambda>i.
        bind_sum (field_entry_id C f TAG_FIRST_ENTRY) (\<lambda>first.
        bind_sum (field_entry_id C f TAG_LAST_ENTRY) (\<lambda>lst.
        bind_sum (from_yatlv (get_u32 C f TAG_ENTRY_COUNT)) (\<lambda>cnt.
        bind_sum (from_yatlv (get_u64 C f TAG_FINAL_SIZE)) (\<lambda>sz.
        bind_sum (field_segment_id C f TAG_NEW_SEGMENT_ID) (\<lambda>new.
        bind_sum (field_entry_id C f TAG_NEW_FIRST_ENTRY) (\<lambda>new_first.
        Inr (RollSegment i first lst cnt sz new new_first))))))))
      else if t = OP_TRUNCATE_START then
        bind_sum (field_entry_id C f TAG_FIRST_ENTRY) (\<lambda>first.
        bind_sum (field_drops C f) (\<lambda>drops.
        Inr (TruncateStart first drops)))
      else if t = OP_TRUNCATE_END then
        bind_sum (field_segment_id C f TAG_NEW_SEGMENT_ID) (\<lambda>i.
        bind_sum (from_yatlv (get_u64 C f TAG_BYTE_OFFSET)) (\<lambda>offset.
        bind_sum (field_drops C f) (\<lambda>drops.
        Inr (TruncateEnd i offset drops))))
      else if t = OP_SEGMENT_DELETED then
        bind_sum (field_segment_id C f TAG_SEGMENT_ID) (\<lambda>i. Inr (SegmentDeleted i))
      else if t = OP_RECORD_ORPHAN then
        bind_sum (field_segment_id C f TAG_SEGMENT_ID) (\<lambda>i. Inr (RecordOrphan i))
      else if t = OP_META then Inr Metadata
      else Inl (UnknownOpType t))"

definition decode_meta :: "'f crates \<Rightarrow> tlv_error + 'f \<Rightarrow> decode_error + (u8 \<times> bytes)" where
  "decode_meta C r =
     bind_sum (from_yatlv r) (\<lambda>f.
     bind_sum (from_yatlv (get_u8 C f TAG_META_KEY)) (\<lambda>k.
     bind_sum (from_yatlv (get_data C f TAG_META_VALUE)) (\<lambda>v. Inr (k, v))))"

definition decode :: "'f crates \<Rightarrow> bytes \<Rightarrow> decode_error + manifest_op" where
  "decode C bs =
     bind_sum (from_yatlv (tlv_parse C bs)) (\<lambda>f.
     bind_sum (from_yatlv (get_u8 C f TAG_OP_TYPE)) (\<lambda>t.
     bind_sum (decode_op C f t) (\<lambda>p.
     bind_sum (collect_results (map (decode_meta C) (get_frames C f TAG_META))) (\<lambda>kvs.
     Inr \<lparr>the_op = p, op_meta = kvs\<rparr>))))"

section \<open>Round trip\<close>

lemma bind_sum_simps [simp]: "bind_sum (Inl e) f = Inl e" "bind_sum (Inr a) f = f a"
  by (simp_all add: bind_sum_def)

lemma from_yatlv_simps [simp]: "from_yatlv (Inl e) = Inl (Format e)" "from_yatlv (Inr a) = Inr a"
  by (simp_all add: from_yatlv_def)

lemma collect_Inr [simp]: "collect_results (map (\<lambda>x. Inr (g x)) xs) = Inr (map g xs)"
  by (induction xs) auto

lemma scalar_at_append:
  "scalar_at (xs @ ys) t =
     (if \<exists>a \<in> set xs. (case a of Add u v \<Rightarrow> u | AddFrame u kvs \<Rightarrow> u) = t
      then scalar_at xs t else scalar_at ys t)"
  by (induction xs t rule: scalar_at.induct) auto

lemma u32s_at_append: "u32s_at (xs @ ys) t = u32s_at xs t @ u32s_at ys t"
  by (induction xs t rule: u32s_at.induct) auto

lemma frames_at_append: "frames_at (xs @ ys) t = frames_at xs t @ frames_at ys t"
  by (induction xs t rule: frames_at.induct) auto

lemma u32s_at_meta [simp]: "u32s_at (meta_adds kvs) t = []"
  by (induction kvs) (auto simp: meta_adds_def)

lemma u32s_at_drops [simp]:
  "u32s_at (map (\<lambda>i. Add u (U32 (sid i))) is) u = map sid is"
  by (induction "is") auto

lemma frames_at_op [simp]: "frames_at (op_adds p) t = []"
proof -
  have [simp]: "frames_at (map (\<lambda>i. Add u (U32 (sid i))) is) t = []" for u "is"
    by (induction "is") auto
  show ?thesis by (cases p) auto
qed

lemma frames_at_meta [simp]:
  "frames_at (meta_adds kvs) TAG_META
     = map (\<lambda>(k, v). [(TAG_META_KEY, U8 k), (TAG_META_VALUE, Data v)]) kvs"
  by (induction kvs) (auto simp: meta_adds_def)

lemma decode_metas:
  assumes "list_all2 (\<lambda>r kvs. \<exists>g. r = Inr g \<and> scalars_read C g (map_of kvs)) rs
             (map (\<lambda>(k, v). [(TAG_META_KEY, U8 k), (TAG_META_VALUE, Data v)]) kvs)"
  shows "collect_results (map (decode_meta C) rs) = Inr kvs"
  using assms
proof (induction kvs arbitrary: rs)
  case (Cons kv kvs)
  then show ?case
    by (cases kv) (auto simp: list_all2_Cons2 decode_meta_def scalars_read_def tag_defs)
qed simp

lemma decode_op_read:
  assumes s: "scalars_read C f (scalar_at (encode_adds m))"
    and d: "get_u32s C f TAG_DROP_ID = map Inr (u32s_at (encode_adds m) TAG_DROP_ID)"
  shows "decode_op C f (op_type (the_op m)) = Inr (the_op m)"
proof -
  note scalar = s [unfolded scalars_read_def]
  show ?thesis
  proof (cases "the_op m")
    case (TruncateStart first drops)
    then show ?thesis
      using scalar d
      by (simp add: decode_op_def op_tag_defs field_entry_id_def field_drops_def encode_adds_def
          tag_defs u32s_at_append o_def)
  next
    case (TruncateEnd i offset drops)
    then show ?thesis
      using scalar d
      by (simp add: decode_op_def op_tag_defs field_segment_id_def field_drops_def encode_adds_def
          tag_defs u32s_at_append o_def)
  qed (use scalar in \<open>simp_all add: decode_op_def op_tag_defs field_entry_id_def
         field_segment_id_def encode_adds_def tag_defs\<close>)
qed

lemma faithful_decode:
  assumes "tlv_faithful C (encode_adds m)"
  shows "decode C (encode C m) = Inr m"
proof -
  obtain f where parse: "tlv_parse C (tlv_build C (encode_adds m)) = Inr f"
    and s: "scalars_read C f (scalar_at (encode_adds m))"
    and u: "\<And>t. get_u32s C f t = map Inr (u32s_at (encode_adds m) t)"
    and fr: "list_all2 (\<lambda>r kvs. \<exists>g. r = Inr g \<and> scalars_read C g (map_of kvs))
               (get_frames C f TAG_META) (frames_at (encode_adds m) TAG_META)"
    using assms by (auto simp: tlv_faithful_def)
  have "get_u8 C f TAG_OP_TYPE = Inr (op_type (the_op m))"
    using s by (simp add: scalars_read_def encode_adds_def)
  moreover have "collect_results (map (decode_meta C) (get_frames C f TAG_META)) = Inr (op_meta m)"
    using fr by (intro decode_metas) (simp add: encode_adds_def frames_at_append)
  ultimately show ?thesis
    using parse decode_op_read [OF s u] by (simp add: decode_def encode_def)
qed

section \<open>Properties\<close>

text \<open>C24: Every manifest operation, with its metadata pairs in order, is read back from its encoding:
  \<^verbatim>\<open>decode\<close> inverts \<^verbatim>\<open>encode\<close> whenever the frame library returns the fields it was given.\<close>

theorem decode_encode:
  assumes "tlv_faithful C (encode_adds m)"
  shows "decode C (encode C m) = Inr m"
  using assms by (rule faithful_decode)

theorem decode_encode_witness:
  "decode sample (encode sample
      (with_meta (TruncateEnd (SegmentId 2) 100 [SegmentId 3, SegmentId 4]) [(1, [7, 8]), (2, [])]))
   = Inr (with_meta (TruncateEnd (SegmentId 2) 100 [SegmentId 3, SegmentId 4]) [(1, [7, 8]), (2, [])])"
  by (rule decode_encode) simp

lemma bind_sum_eq_Inr: "bind_sum r f = Inr b \<longleftrightarrow> (\<exists>a. r = Inr a \<and> f a = Inr b)"
  by (simp add: bind_sum_def split: sum.split)

lemma bind_sum_eq_Inl: "bind_sum r f = Inl e \<longleftrightarrow> r = Inl e \<or> (\<exists>a. r = Inr a \<and> f a = Inl e)"
  by (simp add: bind_sum_def split: sum.split)

lemma from_yatlv_eq: "from_yatlv r = Inr a \<longleftrightarrow> r = Inr a" "from_yatlv r \<noteq> Inl (UnknownOpType t)"
  by (simp_all add: from_yatlv_def split: sum.split)

lemma fields_not_unknown:
  "field_segment_id C f t \<noteq> Inl (UnknownOpType u)" "field_entry_id C f t \<noteq> Inl (UnknownOpType u)"
  "field_drops C f \<noteq> Inl (UnknownOpType u)" "decode_meta C r \<noteq> Inl (UnknownOpType u)"
  by (auto simp: field_segment_id_def field_entry_id_def field_drops_def decode_meta_def
      bind_sum_eq_Inl from_yatlv_eq)

lemma collect_not_unknown:
  "(\<And>r. r \<in> set rs \<Longrightarrow> r \<noteq> Inl e) \<Longrightarrow> collect_results rs \<noteq> Inl e"
  by (induction rs) (auto simp: bind_sum_eq_Inl)

text \<open>The operation type decides what is decoded: a decoded operation has the type its frame
  carries, and \<^verbatim>\<open>UnknownOpType\<close> is reported exactly for a readable type outside the seven known ones,
  with that type.\<close>

theorem decode_by_op_type:
  "(\<forall>m. decode C bs = Inr m \<longrightarrow>
      (\<exists>f. tlv_parse C bs = Inr f \<and> get_u8 C f TAG_OP_TYPE = Inr (op_type (the_op m))))
   \<and> (decode C bs = Inl (UnknownOpType t) \<longleftrightarrow>
        (\<exists>f. tlv_parse C bs = Inr f \<and> get_u8 C f TAG_OP_TYPE = Inr t
           \<and> t \<notin> {OP_CREATE_SEGMENT, OP_ROLL_SEGMENT, OP_TRUNCATE_START, OP_TRUNCATE_END,
                   OP_SEGMENT_DELETED, OP_RECORD_ORPHAN, OP_META}))"
proof -
  have ty: "op_type p = u" if "decode_op C f u = Inr p" for f u p
    using that by (auto simp: decode_op_def bind_sum_eq_Inr split: if_splits)
  have unk: "decode_op C f u = Inl (UnknownOpType t) \<longleftrightarrow> u = t \<and>
      u \<notin> {OP_CREATE_SEGMENT, OP_ROLL_SEGMENT, OP_TRUNCATE_START, OP_TRUNCATE_END,
            OP_SEGMENT_DELETED, OP_RECORD_ORPHAN, OP_META}" for f u
    by (auto simp: decode_op_def bind_sum_eq_Inl fields_not_unknown from_yatlv_eq)
  have metas: "collect_results (map (decode_meta C) rs) \<noteq> Inl (UnknownOpType t)" for rs
    by (rule collect_not_unknown) (auto simp: fields_not_unknown)
  show ?thesis
    by (auto simp: decode_def bind_sum_eq_Inr bind_sum_eq_Inl from_yatlv_eq unk metas dest: ty)
qed

theorem decode_by_op_type_witness:
  "decode sample (tlv_build sample [Add TAG_OP_TYPE (U8 9)]) = Inl (UnknownOpType 9)"
  using decode_by_op_type [of sample "tlv_build sample [Add TAG_OP_TYPE (U8 9)]" 9] sample_scalars
  by (simp add: sample_parse_build scalars_read_def op_tag_defs)

end
