(* ===== verification/Files.thy ===== *)
theory Files
  imports Byte_Order Disk "HOL-Library.Char_ord"
begin

text \<open>
  \<^verbatim>\<open>src/files.rs\<close>: the names of the store's files, their magic numbers, and the operations that
  create, open, measure, delete and list them. The base directory of the configuration is the world
  itself. What the standard library does with a path (\<^verbatim>\<open>extension\<close>, \<^verbatim>\<open>file_stem\<close>) and with a number in
  base 16 (\<^verbatim>\<open>from_str_radix\<close>, which takes a leading plus sign, upper and lower case and any number
  of digits up to an overflow) is written out.
\<close>

section \<open>Names\<close>

definition MANIFEST_FILE_NAME :: string where
  "MANIFEST_FILE_NAME = ''MANIFEST''"

definition hex_char :: "nat \<Rightarrow> char" where
  "hex_char d = ''0123456789abcdef'' ! d"

definition hex_value :: "char \<Rightarrow> nat option" where
  "hex_value = map_of (zip ''0123456789abcdefABCDEF'' ([0..<16] @ [10..<16]))"

text \<open>The name part of \<^verbatim>\<open>segment_path\<close>: \<^verbatim>\<open>{:08x}.seg\<close>.\<close>

definition segment_path :: "segment_id \<Rightarrow> string" where
  "segment_path i = map hex_char (digits 16 8 (unat (sid i))) @ ''.seg''"

fun radix16_from :: "nat \<Rightarrow> string \<Rightarrow> u32 option" where
  "radix16_from acc [] = Some (of_nat acc)"
| "radix16_from acc (c # cs) =
     (case hex_value c of
        None \<Rightarrow> None
      | Some d \<Rightarrow> if acc * 16 + d < 2 ^ 32 then radix16_from (acc * 16 + d) cs else None)"

definition from_str_radix16 :: "string \<Rightarrow> u32 option" where
  "from_str_radix16 s =
     (if s = [] \<or> s = ''+'' \<or> s = ''-'' then None
      else radix16_from 0 (if hd s = CHR ''+'' then tl s else s))"

text \<open>The last dot splits a file name, unless nothing stands before it.\<close>

definition split_extension :: "string \<Rightarrow> string \<times> string option" where
  "split_extension n =
     (let after = takeWhile (\<lambda>c. c \<noteq> CHR ''.'') (rev n);
          rest = dropWhile (\<lambda>c. c \<noteq> CHR ''.'') (rev n)
      in if length rest \<le> 1 \<or> n = ''..'' then (n, None) else (rev (tl rest), Some (rev after)))"

definition parse_segment_path :: "string \<Rightarrow> segment_id option" where
  "parse_segment_path n =
     (case split_extension n of (stem, extension) \<Rightarrow>
        if extension \<noteq> Some ''seg'' then None
        else map_option SegmentId (from_str_radix16 stem))"

section \<open>Opening and creating\<close>

definition SEGMENT_MAGIC :: bytes where
  "SEGMENT_MAGIC = [0xff, 0x57, 0x44, 0x53, 0x45, 0x47, 0x4d, 0x01]"

definition MANIFEST_MAGIC :: bytes where
  "MANIFEST_MAGIC = [0xff, 0x57, 0x44, 0x4d, 0x4e, 0x46, 0x54, 0x01]"

definition MAGIC_LEN :: nat where
  "MAGIC_LEN = 8"

definition check_magic :: "handle \<Rightarrow> bytes \<Rightarrow> handle io" where
  "check_magic f expected = and_then (map_err (\<lambda>_. Err InvalidData) (read_exact f 8))
     (\<lambda>(magic, f'). if magic \<noteq> expected then err (Err InvalidData) else ok f')"

definition open_checked :: "string \<Rightarrow> bytes \<Rightarrow> (handle \<times> nat) io" where
  "open_checked n magic = and_then (fs_open n)
     (\<lambda>f. and_then (check_magic f magic) (\<lambda>f'. ok (f', MAGIC_LEN)))"

definition manifest_exists :: "world \<Rightarrow> bool \<times> world" where
  "manifest_exists = fs_exists MANIFEST_FILE_NAME"

definition synchronize_dir :: "unit io" where
  "synchronize_dir = sync_dir"

definition create_manifest :: "(handle \<times> nat) io" where
  "create_manifest = and_then (fs_create_new MANIFEST_FILE_NAME) (\<lambda>f.
     and_then (write_all f MANIFEST_MAGIC) (\<lambda>f'.
     and_then (sync_all f') (\<lambda>_.
     and_then synchronize_dir (\<lambda>_.
     ok (f', MAGIC_LEN)))))"

definition open_manifest_rw :: "(handle \<times> nat) io" where
  "open_manifest_rw = open_checked MANIFEST_FILE_NAME MANIFEST_MAGIC"

definition open_manifest_read :: "(handle \<times> nat) io" where
  "open_manifest_read = open_checked MANIFEST_FILE_NAME MANIFEST_MAGIC"

definition create_segment_file :: "segment_id \<Rightarrow> (handle \<times> nat) io" where
  "create_segment_file i = and_then (fs_create_new (segment_path i)) (\<lambda>f.
     and_then (write_all f SEGMENT_MAGIC) (\<lambda>f'.
     and_then (sync_all f') (\<lambda>_.
     ok (f', MAGIC_LEN))))"

definition open_segment :: "segment_id \<Rightarrow> (handle \<times> nat) io" where
  "open_segment i = open_checked (segment_path i) SEGMENT_MAGIC"

definition open_segment_rw :: "segment_id \<Rightarrow> (handle \<times> nat) io" where
  "open_segment_rw i = open_checked (segment_path i) SEGMENT_MAGIC"

definition segment_size :: "segment_id \<Rightarrow> nat io" where
  "segment_size i = metadata_len (segment_path i)"

definition delete_segment :: "segment_id \<Rightarrow> unit io" where
  "delete_segment i = (\<lambda>w.
     case remove_file (segment_path i) w of
       (Inr _, w') \<Rightarrow> (Inr (), w')
     | (Inl e, w') \<Rightarrow> if e = Err NotFound then (Inr (), w') else (Inl e, w'))"

definition collect_segment_ids :: "segment_id list io" where
  "collect_segment_ids = and_then read_dir
     (\<lambda>ns. ok (sort (List.map_filter parse_segment_path ns)))"

section \<open>Names determine ids\<close>

lemma hex_chars:
  "list_all (\<lambda>d. hex_value (hex_char d) = Some d
     \<and> hex_char d \<notin> {CHR ''+'', CHR ''-'', CHR ''.'', CHR ''M''}) [0..<16]"
  by code_simp

lemma hex_value_char: "d < 16 \<Longrightarrow> hex_value (hex_char d) = Some d"
  using hex_chars by (simp add: list_all_iff)

lemma hex_char_not_sign: "d < 16 \<Longrightarrow> hex_char d \<notin> {CHR ''+'', CHR ''-'', CHR ''.'', CHR ''M''}"
  using hex_chars by (simp add: list_all_iff)

lemma radix16_from_chars:
  assumes "\<forall>d \<in> set ds. d < 16" and "acc * 16 ^ length ds + horner 16 ds < 2 ^ 32"
  shows "radix16_from acc (map hex_char ds) = Some (of_nat (acc * 16 ^ length ds + horner 16 ds))"
  using assms
proof (induction ds arbitrary: acc)
  case (Cons d ds)
  have "acc * 16 + d \<le> (acc * 16 + d) * 16 ^ length ds" by simp
  also have "\<dots> \<le> acc * 16 ^ length (d # ds) + horner 16 (d # ds)" by (simp add: algebra_simps)
  finally have "acc * 16 + d < 2 ^ 32" using Cons.prems(2) by linarith
  moreover have "(acc * 16 + d) * 16 ^ length ds + horner 16 ds
      = acc * 16 ^ length (d # ds) + horner 16 (d # ds)"
    by (simp add: algebra_simps)
  ultimately show ?case
    using Cons.prems Cons.IH [of "acc * 16 + d"] by (simp add: hex_value_char del: horner_Cons power_Suc)
qed simp

lemma segment_digits: "\<forall>d \<in> set (digits 16 8 x). d < 16"
  using set_digits [of 16 _ 8 x] by auto

lemma split_segment_path:
  "split_extension (segment_path i) = (map hex_char (digits 16 8 (unat (sid i))), Some ''seg'')"
proof -
  have ne: "digits 16 8 (unat (sid i)) \<noteq> []"
    by (metis length_digits list.size(3) zero_neq_numeral)
  then show ?thesis
    by (auto simp: split_extension_def segment_path_def Let_def)
qed

lemma parse_segment_path_path [simp]: "parse_segment_path (segment_path i) = Some i"
proof -
  let ?ds = "digits 16 8 (unat (sid i))"
  have len: "unat (sid i) < 16 ^ 8" using unsigned_less [of "sid i"] by simp
  have h: "horner 16 ?ds = unat (sid i)" using len by (simp add: horner_digits)
  have "radix16_from 0 (map hex_char ?ds) = Some (of_nat (horner 16 ?ds))"
    using radix16_from_chars [OF segment_digits, of 0 "unat (sid i)"] len h by simp
  then have r: "radix16_from 0 (map hex_char ?ds) = Some (sid i)" by (simp add: h)
  obtain d ds where ds: "?ds = d # ds" by (cases ?ds) (auto dest: arg_cong [of _ _ length])
  have "d < 16" using segment_digits [of "unat (sid i)"] ds by simp
  then have "hex_char d \<noteq> CHR ''+''" "hex_char d \<noteq> CHR ''-''" using hex_char_not_sign by auto
  then have "from_str_radix16 (map hex_char ?ds) = Some (sid i)"
    using r by (simp add: from_str_radix16_def ds)
  then show ?thesis by (simp add: parse_segment_path_def split_segment_path)
qed

lemma segment_path_eq [simp]: "segment_path i = segment_path j \<longleftrightarrow> i = j"
  by (metis option.inject parse_segment_path_path)

lemma parse_manifest [simp]: "parse_segment_path MANIFEST_FILE_NAME = None"
  by (simp add: parse_segment_path_def split_extension_def MANIFEST_FILE_NAME_def)

lemma segment_path_not_manifest [simp]:
  "segment_path i \<noteq> MANIFEST_FILE_NAME" "MANIFEST_FILE_NAME \<noteq> segment_path i"
  by (metis option.distinct(1) parse_manifest parse_segment_path_path)+

section \<open>What the operations do in a world without faults\<close>

lemma length_magic [simp]: "length SEGMENT_MAGIC = MAGIC_LEN" "length MANIFEST_MAGIC = MAGIC_LEN"
  by (simp_all add: SEGMENT_MAGIC_def MANIFEST_MAGIC_def MAGIC_LEN_def)

lemma MAGIC_LEN_8: "MAGIC_LEN = 8"
  by (simp add: MAGIC_LEN_def)

lemma read_exact_healthy:
  "healthy w \<Longrightarrow> content w (path f) = Some c \<Longrightarrow>
     read_exact f n w = (if n \<le> length (drop (cursor_at f) c)
        then (Inr (take n (drop (cursor_at f) c), f\<lparr>cursor_at := cursor_at f + n\<rparr>), w)
        else (Inl (Err UnexpectedEof), w))"
  by (simp add: read_exact_def read_stream_def Let_def)

lemma open_checked_healthy:
  assumes "healthy w"
  shows "open_checked n magic w =
    (case content w n of
       None \<Rightarrow> (Inl (Err NotFound), w)
     | Some c \<Rightarrow> if MAGIC_LEN \<le> length c \<and> take MAGIC_LEN c = magic
                then (Inr (\<lparr>path = n, cursor_at = MAGIC_LEN\<rparr>, MAGIC_LEN), w)
                else (Inl (Err InvalidData), w))"
  using assms
  by (auto simp: open_checked_def and_then_def fs_open_def check_magic_def map_err_def
      read_exact_healthy MAGIC_LEN_8 split: option.splits)

lemma open_checked_magic:
  "healthy w \<Longrightarrow> content w n = Some (magic @ c) \<Longrightarrow> length magic = MAGIC_LEN \<Longrightarrow>
     open_checked n magic w = (Inr (\<lparr>path = n, cursor_at = MAGIC_LEN\<rparr>, MAGIC_LEN), w)"
  by (simp add: open_checked_healthy)

lemma create_segment_file_healthy:
  "healthy w \<Longrightarrow> base_dir_exists w \<Longrightarrow> create_segment_file i w =
     (case content w (segment_path i) of
        Some _ \<Rightarrow> (Inl (Err AlreadyExists), w)
      | None \<Rightarrow> (Inr (\<lparr>path = segment_path i, cursor_at = MAGIC_LEN\<rparr>, MAGIC_LEN),
                 store_file (segment_path i) SEGMENT_MAGIC w))"
  by (auto simp: create_segment_file_def and_then_def fs_create_new_def write_all_def
      write_bytes_def overwrite_def split: option.splits)

lemma create_manifest_healthy:
  "healthy w \<Longrightarrow> base_dir_exists w \<Longrightarrow> create_manifest w =
     (case content w MANIFEST_FILE_NAME of
        Some _ \<Rightarrow> (Inl (Err AlreadyExists), w)
      | None \<Rightarrow> (Inr (\<lparr>path = MANIFEST_FILE_NAME, cursor_at = MAGIC_LEN\<rparr>, MAGIC_LEN),
                 save_names (store_file MANIFEST_FILE_NAME MANIFEST_MAGIC w)))"
  by (auto simp: create_manifest_def and_then_def fs_create_new_def write_all_def synchronize_dir_def
      sync_dir_def write_bytes_def overwrite_def split: option.splits)

lemma delete_segment_healthy:
  "healthy w \<Longrightarrow> delete_segment i w =
     (Inr (), if content w (segment_path i) = None then w
              else w\<lparr>entries := AList.delete (segment_path i) (entries w)\<rparr>)"
  by (simp add: delete_segment_def remove_file_def)

section \<open>What they keep in any world\<close>

text \<open>An operation on one file leaves the others as they are, however it ends.\<close>

definition others_kept :: "string \<Rightarrow> 'a io \<Rightarrow> bool" where
  "others_kept n m \<longleftrightarrow> (\<forall>w. \<forall>k. k \<noteq> n \<longrightarrow> content (snd (m w)) k = content w k)"

lemma others_keptD: "others_kept n m \<Longrightarrow> k \<noteq> n \<Longrightarrow> content (snd (m w)) k = content w k"
  by (simp add: others_kept_def)

lemma others_kept_and_then [intro]:
  "others_kept n m \<Longrightarrow> (\<And>a w t. m w = (Inr a, t) \<Longrightarrow> others_kept n (f a))
     \<Longrightarrow> others_kept n (and_then m f)"
proof -
  assume m: "others_kept n m" and f: "\<And>a w t. m w = (Inr a, t) \<Longrightarrow> others_kept n (f a)"
  have "content (snd (and_then m f w)) k = content w k" if k: "k \<noteq> n" for w k
  proof -
    obtain r t where mw: "m w = (r, t)" by (cases "m w")
    then have t: "content t k = content w k" using others_keptD [OF m k, of w] by simp
    show ?thesis
    proof (cases r)
      case (Inl e)
      then show ?thesis using mw t by (simp add: and_then_def)
    next
      case (Inr a)
      then show ?thesis using mw t others_keptD [OF f k, of w a t t] by (simp add: and_then_def)
    qed
  qed
  then show ?thesis by (simp add: others_kept_def)
qed

lemma others_kept_basic [intro]:
  "others_kept n (ok a)" "others_kept n (err e)" "others_kept n (sync_all f)"
  "others_kept n sync_dir" "others_kept n (fs_create_new n)" "others_kept k (fs_open n)"
  "path f = n \<Longrightarrow> others_kept n (write_all_at f data off)"
  "path f = n \<Longrightarrow> others_kept n (set_len f l)"
  "others_kept n (remove_file n)"
  by (auto simp: others_kept_def sync_all_def sync_dir_def call_def fs_create_new_def fs_open_def
      write_all_at_def write_bytes_other set_len_def remove_file_def delete_conv' fun_upd_def
      split: option.splits)

section \<open>Properties\<close>

text \<open>File names determine segments: the name of a segment parses back to its id, different ids have
  different names, and the manifest is never taken for a segment.\<close>

theorem segment_names:
  "parse_segment_path (segment_path i) = Some i
   \<and> (segment_path i = segment_path j \<longleftrightarrow> i = j)
   \<and> segment_path i \<noteq> MANIFEST_FILE_NAME
   \<and> parse_segment_path MANIFEST_FILE_NAME = None"
  by simp

lemma hex_values:
  "hex_value CHR ''0'' = Some 0" "hex_value CHR ''1'' = Some 1" "hex_value CHR ''A'' = Some 10"
  by code_simp+

lemmas parse_simps = parse_segment_path_def split_extension_def from_str_radix16_def hex_values

text \<open>The converse fails: names the store never writes are taken for segments too (a short number,
  a plus sign, capital digits), and two files of the directory can stand for one id.\<close>

theorem foreign_segment_names:
  "parse_segment_path ''1.seg'' = Some (SegmentId 1)
   \<and> parse_segment_path ''+1.seg'' = Some (SegmentId 1)
   \<and> parse_segment_path ''0000000A.seg'' = Some (SegmentId 10)
   \<and> parse_segment_path ''100000000.seg'' = None
   \<and> ''1.seg'' \<noteq> segment_path (SegmentId 1) \<and> ''+1.seg'' \<noteq> segment_path (SegmentId 1)"
proof -
  have "parse_segment_path ''1.seg'' = Some (SegmentId 1)" by (simp add: parse_simps)
  moreover have "parse_segment_path ''+1.seg'' = Some (SegmentId 1)" by (simp add: parse_simps)
  moreover have "parse_segment_path ''0000000A.seg'' = Some (SegmentId 10)" by (simp add: parse_simps)
  moreover have "parse_segment_path ''100000000.seg'' = None" by (simp add: parse_simps)
  moreover have "''1.seg'' \<noteq> segment_path (SegmentId 1)"
    by (rule notI, drule arg_cong [of _ _ length]) (simp add: segment_path_def)
  moreover have "''+1.seg'' \<noteq> segment_path (SegmentId 1)"
    by (rule notI, drule arg_cong [of _ _ length]) (simp add: segment_path_def)
  ultimately show ?thesis by (intro conjI)
qed

lemma set_map_filter_ids:
  "\<forall>n \<in> set ns. n = MANIFEST_FILE_NAME \<or> n \<in> range segment_path \<Longrightarrow>
     set (List.map_filter parse_segment_path ns) = {i. segment_path i \<in> set ns}"
  by (induction ns) (auto simp: List.map_filter_simps)

lemma distinct_map_filter_ids:
  "\<forall>n \<in> set ns. n = MANIFEST_FILE_NAME \<or> n \<in> range segment_path \<Longrightarrow> distinct ns \<Longrightarrow>
     distinct (List.map_filter parse_segment_path ns)"
  by (induction ns) (auto simp: List.map_filter_simps set_map_filter_ids)

lemma collect_listing:
  assumes "healthy w" and "wf_world w" and "base_dir_exists w"
    and "\<forall>n c. content w n = Some c \<longrightarrow> n = MANIFEST_FILE_NAME \<or> n \<in> range segment_path"
  shows "\<exists>ids. collect_segment_ids w = (Inr ids, w) \<and> sorted ids \<and> distinct ids
           \<and> set ids = {i. content w (segment_path i) \<noteq> None}"
proof -
  let ?ns = "map fst (entries w)"
  have names: "\<forall>n \<in> set ?ns. n = MANIFEST_FILE_NAME \<or> n \<in> range segment_path"
    using assms(4) by (metis domD dom_map_of_conv_image_fst set_map)
  have "set ?ns = {n. content w n \<noteq> None}"
    by (auto simp: map_of_eq_None_iff simp del: not_None_eq)
  moreover have "distinct ?ns" using assms(2) by (simp add: wf_world_def)
  ultimately show ?thesis
    using assms(1,3) set_map_filter_ids [OF names] distinct_map_filter_ids [OF names]
    by (auto simp: collect_segment_ids_def and_then_def read_dir_def)
qed

text \<open>In a directory that holds only the store's files, the listing returns exactly the segments
  whose files exist, in ascending order and each once.\<close>

theorem collect_segment_ids_exact:
  assumes "healthy w" and "wf_world w" and "base_dir_exists w"
    and "\<forall>n c. content w n = Some c \<longrightarrow> n = MANIFEST_FILE_NAME \<or> n \<in> range segment_path"
  shows "\<exists>ids. collect_segment_ids w = (Inr ids, w) \<and> sorted ids \<and> distinct ids
           \<and> set ids = {i. content w (segment_path i) \<noteq> None}"
  by (rule collect_listing [OF assms])

definition example_dir :: world where
  "example_dir = \<lparr>base_dir_exists = True, entries = [(segment_path (SegmentId 9), SEGMENT_MAGIC),
     (MANIFEST_FILE_NAME, MANIFEST_MAGIC), (segment_path (SegmentId 2), SEGMENT_MAGIC)],
     faults = [], saved = \<lambda>_. [], listed = []\<rparr>"

lemma example_dir_content:
  "content example_dir (segment_path i) =
     (if i = SegmentId 9 \<or> i = SegmentId 2 then Some SEGMENT_MAGIC else None)"
  by (simp add: example_dir_def)

lemma example_dir_ids: "{i. content example_dir (segment_path i) \<noteq> None} = {SegmentId 2, SegmentId 9}"
  by (auto simp: example_dir_content split: if_splits)

lemma example_dir_names:
  "content example_dir n = Some c \<longrightarrow> n = MANIFEST_FILE_NAME \<or> n \<in> range segment_path"
  by (simp add: example_dir_def)

lemma example_dir_simps [simp]: "healthy example_dir" "wf_world example_dir" "base_dir_exists example_dir"
  by (simp_all add: example_dir_def healthy_def wf_world_def)

theorem collect_segment_ids_exact_witness:
  "collect_segment_ids example_dir = (Inr [SegmentId 2, SegmentId 9], example_dir)"
proof -
  have "\<exists>ids. collect_segment_ids example_dir = (Inr ids, example_dir) \<and> sorted ids \<and> distinct ids
      \<and> set ids = {i. content example_dir (segment_path i) \<noteq> None}"
    by (rule collect_segment_ids_exact) (simp_all add: example_dir_names)
  then obtain ids where ids: "collect_segment_ids example_dir = (Inr ids, example_dir)"
    "sorted ids" "distinct ids" "set ids = {SegmentId 2, SegmentId 9}"
    unfolding example_dir_ids by blast
  then have "ids = [SegmentId 2, SegmentId 9]"
    by (intro sorted_distinct_set_unique) auto
  with ids show ?thesis by simp
qed

lemma fs_create_new_path: "fs_create_new n w = (Inr f, t) \<Longrightarrow> path f = n"
  by (auto simp: fs_create_new_def call_def split: option.splits if_splits)

lemma write_all_path: "write_all f d w = (Inr f', t) \<Longrightarrow> path f' = path f"
  by (auto simp: write_all_def and_then_eq_Inr)

lemma others_kept_create: "others_kept (segment_path i) (create_segment_file i)"
proof -
  have wr: "others_kept (segment_path i) (write_all f d)" if "path f = segment_path i" for f d
    unfolding write_all_def by (intro others_kept_and_then others_kept_basic that)
  show ?thesis
    unfolding create_segment_file_def
    by (intro others_kept_and_then others_kept_basic wr) (rule fs_create_new_path)
qed

lemma overwrite_Nil [simp]: "overwrite [] 0 d = d"
  by (simp add: overwrite_def)

lemma write_all_new:
  assumes "content w (path f) = Some []" and "cursor_at f = 0"
  shows "write_all f d w = (case next_outcome w of
      None \<Rightarrow> (Inr (f\<lparr>cursor_at := length d\<rparr>), put_content (path f) d (spend w))
    | Some k \<Rightarrow> (Inl (Err DeviceFault), put_content (path f) (take k d) (spend w)))"
  using assms
  by (simp add: write_all_def and_then_def write_all_at_def write_bytes_def split: option.split)

text \<open>Creating a segment file is safe under any failure of the device: it never touches another file
  or an existing one, and it leaves either no file, a file that holds a piece of the magic number, or, and
  always when it succeeds, the whole magic number.\<close>

theorem create_segment_safe:
  assumes "create_segment_file i w = (r, w')"
  shows "(\<forall>n. n \<noteq> segment_path i \<longrightarrow> content w' n = content w n)
    \<and> (\<forall>c. content w (segment_path i) = Some c \<longrightarrow>
          content w' (segment_path i) = Some c \<and> (\<exists>e. r = Inl e))
    \<and> (content w (segment_path i) = None \<longrightarrow>
         (case r of
            Inr (f, off) \<Rightarrow> content w' (segment_path i) = Some SEGMENT_MAGIC
              \<and> f = \<lparr>path = segment_path i, cursor_at = MAGIC_LEN\<rparr> \<and> off = MAGIC_LEN
          | Inl e \<Rightarrow> content w' (segment_path i) = None
              \<or> (\<exists>k. content w' (segment_path i) = Some (take k SEGMENT_MAGIC))))"
proof -
  have others: "content w' n = content w n" if "n \<noteq> segment_path i" for n
    using others_keptD [OF others_kept_create that, of w] assms by simp
  show ?thesis
  proof (cases "content w (segment_path i)")
    case (Some c)
    then have "(\<exists>e. r = Inl e) \<and> content w' (segment_path i) = Some c"
      using assms
      by (auto simp: create_segment_file_def and_then_def fs_create_new_def call_def
          split: option.splits if_splits)
    with Some others show ?thesis by auto
  next
    case None
    let ?n = "segment_path i" and ?h = "\<lparr>path = segment_path i, cursor_at = 0\<rparr>"
    let ?w1 = "put_content (segment_path i) [] (give_up (segment_path i) 0 (spend w))"
    show ?thesis
    proof (cases "next_outcome w = None \<and> base_dir_exists w")
      case False
      then have "r = Inl (Err DeviceFault) \<or> r = Inl (Err NotFound)" and "w' = spend w"
        using assms None
        by (auto simp: create_segment_file_def and_then_def fs_create_new_def call_def
            split: option.splits)
      with None show ?thesis by auto
    next
      case True
      then have c: "fs_create_new ?n w = (Inr ?h, ?w1)"
        using None by (simp add: fs_create_new_def call_def)
      note step = assms [unfolded create_segment_file_def and_then_def c, simplified]
      note wr = write_all_new [of ?w1 ?h SEGMENT_MAGIC, simplified]
      show ?thesis
      proof (cases "next_outcome ?w1")
        case (Some k)
        with step wr have "r = Inl (Err DeviceFault)"
            "content w' ?n = Some (take k SEGMENT_MAGIC)"
          by (auto simp: and_then_def)
        with None others show ?thesis by auto
      next
        case n: None
        with step wr have "content w' ?n = Some SEGMENT_MAGIC"
          "(\<exists>e. r = Inl e) \<or> r = Inr (\<lparr>path = ?n, cursor_at = MAGIC_LEN\<rparr>, MAGIC_LEN)"
          by (auto simp: and_then_def sync_all_def call_def split: option.splits)
        moreover have "\<exists>k. SEGMENT_MAGIC = take k SEGMENT_MAGIC"
          by (rule exI [of _ MAGIC_LEN]) simp
        ultimately show ?thesis using None others by (elim disjE exE; simp)
      qed
    qed
  qed
qed

theorem create_segment_safe_witness:
  "content (snd (create_segment_file (SegmentId 3) (example_dir\<lparr>faults := [None, Some 3]\<rparr>)))
     (segment_path (SegmentId 2)) = Some SEGMENT_MAGIC"
proof -
  obtain r w' where c:
    "create_segment_file (SegmentId 3) (example_dir\<lparr>faults := [None, Some 3]\<rparr>) = (r, w')"
    by fastforce
  then show ?thesis
    using create_segment_safe [OF c] by (simp add: example_dir_def)
qed

lemma open_checked_entries: "entries (snd (open_checked n magic w)) = entries w"
proof -
  have "entries (snd (read_exact f k v)) = entries v" for f k v
    by (simp add: read_exact_def read_stream_def Let_def split: option.split)
  then have "entries (snd (check_magic f magic v)) = entries v" for f v
    using prod.collapse [of "read_exact f 8 v"]
    by (auto simp: check_magic_def and_then_def map_err_def split: prod.split sum.split)
       (metis snd_conv)+
  moreover have "entries (snd (fs_open n w)) = entries w"
    by (simp add: fs_open_def call_def split: option.split)
  ultimately show ?thesis
    by (auto simp: open_checked_def and_then_def split: prod.split sum.split) (metis snd_conv)+
qed

lemma open_checked_Inr:
  assumes "open_checked n magic w = (Inr (f, off), w')"
  shows "\<exists>c k. content w n = Some c \<and> magic = take 8 (take k c)
    \<and> f = \<lparr>path = n, cursor_at = MAGIC_LEN\<rparr> \<and> off = MAGIC_LEN"
proof -
  obtain g w1 f' w2 where g: "fs_open n w = (Inr g, w1)"
    and f': "check_magic g magic w1 = (Inr f', w2)" and f: "f = f'" "off = MAGIC_LEN"
    using assms by (auto simp: open_checked_def and_then_eq_Inr)
  from g obtain c where c: "content w n = Some c" and g: "g = \<lparr>path = n, cursor_at = 0\<rparr>" "w1 = spend w"
    by (auto simp: fs_open_def call_def split: option.splits if_splits)
  from f' obtain w3 where r: "read_exact g 8 w1 = (Inr (magic, f'), w3)"
    by (auto simp: check_magic_def and_then_eq_Inr map_err_def split: prod.splits sum.splits if_splits)
  have "\<exists>k. magic = take 8 (take k c) \<and> f' = g\<lparr>cursor_at := 8\<rparr>"
  proof (cases "next_outcome w1")
    case None
    with r c g show ?thesis
      by (intro exI [of _ 8]) (auto simp: read_exact_def read_stream_def split: if_splits)
  next
    case (Some k)
    with r c g show ?thesis
      by (intro exI [of _ k]) (auto simp: read_exact_def read_stream_def split: if_splits)
  qed
  with c f g show ?thesis by (auto simp: MAGIC_LEN_8)
qed

text \<open>A segment file is opened, in any world, only if it starts with the segment magic number; the
  handle then stands right behind it, and opening changes no file. In a world without faults every file
  with the magic number is opened, a missing one gives \<^verbatim>\<open>NotFound\<close> and any other \<^verbatim>\<open>InvalidData\<close>.\<close>

theorem open_segment_result:
  "(\<forall>f off w'. open_segment i w = (Inr (f, off), w') \<longrightarrow>
      (\<exists>c. content w (segment_path i) = Some (SEGMENT_MAGIC @ c))
      \<and> f = \<lparr>path = segment_path i, cursor_at = MAGIC_LEN\<rparr> \<and> off = MAGIC_LEN)
   \<and> entries (snd (open_segment i w)) = entries w
   \<and> (healthy w \<longrightarrow> open_segment i w =
        (case content w (segment_path i) of
           None \<Rightarrow> (Inl (Err NotFound), w)
         | Some c \<Rightarrow> if MAGIC_LEN \<le> length c \<and> take MAGIC_LEN c = SEGMENT_MAGIC
                    then (Inr (\<lparr>path = segment_path i, cursor_at = MAGIC_LEN\<rparr>, MAGIC_LEN), w)
                    else (Inl (Err InvalidData), w)))"
proof -
  have "\<exists>c'. c = SEGMENT_MAGIC @ c'" if "SEGMENT_MAGIC = take 8 (take k c)" for k c
    by (rule exI [of _ "drop (min 8 k) c"]) (simp add: that min.commute)
  then have opened: "(\<exists>c. content w (segment_path i) = Some (SEGMENT_MAGIC @ c))
      \<and> f = \<lparr>path = segment_path i, cursor_at = MAGIC_LEN\<rparr> \<and> off = MAGIC_LEN"
    if "open_segment i w = (Inr (f, off), w')" for f off w'
    using open_checked_Inr [OF that [unfolded open_segment_def]] by metis
  show ?thesis
    by (rule conjI, use opened in blast)
       (simp add: open_segment_def open_checked_healthy open_checked_entries)
qed

theorem open_segment_result_witness:
  "open_segment (SegmentId 2) example_dir
     = (Inr (\<lparr>path = segment_path (SegmentId 2), cursor_at = MAGIC_LEN\<rparr>, MAGIC_LEN), example_dir)
   \<and> open_segment (SegmentId 3) example_dir = (Inl (Err NotFound), example_dir)"
  using open_segment_result [of "SegmentId 2" example_dir, THEN conjunct2, THEN conjunct2]
    open_segment_result [of "SegmentId 3" example_dir, THEN conjunct2, THEN conjunct2]
  by (simp add: example_dir_content)

end
