(* ===== verification/Manifest.thy ===== *)
theory Manifest
  imports Codec Files Frame_Read
begin

text \<open>
  \<^verbatim>\<open>src/manifest.rs\<close>: appending an operation to the manifest, and replaying the manifest into a store
  state. The two are the sides of a log, whose contract is the locale \<open>op_log\<close>: appending adds one
  operation to what the log holds, and replaying runs the operations it holds. The manifest is an
  interpretation of it.
\<close>

section \<open>Writing\<close>

text \<open>The frame is buffered first; a flush that fails leaves it in the buffer.\<close>

definition write_op :: "'f crates \<Rightarrow> handle \<Rightarrow> manifest_op \<Rightarrow> unit cursor_io" where
  "write_op C f m = (\<lambda>(cur, w).
     let cur1 = cursor_write C (EntryId 0) (encode C m) cur
     in case cursor_flush f (cur1, w) of
          (Inl e, cur2, w1) \<Rightarrow> (Inl e, cur2, w1)
        | (Inr _, cur2, w1) \<Rightarrow>
            (case sync_all f w1 of
               (Inl e, w2) \<Rightarrow> (Inl e, cur2, w2)
             | (Inr _, w2) \<Rightarrow> (Inr (), cur2, w2)))"

section \<open>Replaying\<close>

datatype replay_error =
    InvalidOp nat decode_error
  | ApplyFailed nat apply_error
  | ReplayIo io_kind

record replay_result =
  replayed :: store_state
  replay_next :: nat

lemma drop_size: "scan_size (reader_drop fr sc) \<le> scan_size sc"
  by (simp add: reader_drop_def scan_size_def)

function replay_loop ::
  "'f crates \<Rightarrow> store_state \<Rightarrow> nat \<Rightarrow> frame_scanner \<Rightarrow> replay_error + replay_result" where
  "replay_loop C st nxt sc =
     (case scanner_read sc of
        (Inr None, _) \<Rightarrow> Inr \<lparr>replayed = st, replay_next = nxt\<rparr>
      | (Inr (Some fr), sc1) \<Rightarrow>
          (case read_to_end [] (fr, sc1) of
             (Inl e, _) \<Rightarrow> Inl (ReplayIo e)
           | (Inr payload, fr', sc2) \<Rightarrow>
               (case decode C payload of
                  Inl e \<Rightarrow> Inl (InvalidOp (frame_start fr) e)
                | Inr m \<Rightarrow>
                    (case apply_manifest_op m st of
                       (Inl e, _) \<Rightarrow> Inl (ApplyFailed (frame_start fr) e)
                     | (Inr _, st') \<Rightarrow>
                         let sc3 = reader_drop fr' sc2
                         in replay_loop C st' (position sc3) sc3)))
      | (Inl (Truncated _), _) \<Rightarrow> Inr \<lparr>replayed = st, replay_next = nxt\<rparr>
      | (Inl (ScanIo e), _) \<Rightarrow> Inl (ReplayIo e)
      | (Inl (ChecksumMismatch _), _) \<Rightarrow> Inr \<lparr>replayed = st, replay_next = nxt\<rparr>)"
  by pat_completeness auto

termination
  by (relation "measure (\<lambda>(C, st, nxt, sc). scan_size sc)")
     (auto dest: read_size [OF sym sym] intro: le_less_trans [OF drop_size])

declare replay_loop.simps [simp del]

definition replay :: "'f crates \<Rightarrow> handle \<Rightarrow> nat \<Rightarrow> world \<Rightarrow> (replay_error + replay_result) \<times> world" where
  "replay C f offset w =
     (case scanner_new f offset w of (sc, w') \<Rightarrow> (replay_loop C empty_state offset sc, w'))"

section \<open>What replaying a written manifest gives\<close>

definition op_frame :: "'f crates \<Rightarrow> manifest_op \<Rightarrow> frame" where
  "op_frame C m = (EntryId 0, encode C m)"

text \<open>What is asked of an operation's encoding: it is faithful, not empty, and its length fits the
  length field of a frame.\<close>

definition op_writable :: "'f crates \<Rightarrow> manifest_op \<Rightarrow> bool" where
  "op_writable C m \<longleftrightarrow> tlv_faithful C (encode_adds m) \<and> encode C m \<noteq> [] \<and> fits (op_frame C m)"

lemma decode_written: "op_writable C m \<Longrightarrow> decode C (encode C m) = Inr m"
  by (simp add: op_writable_def faithful_decode)

abbreviation ops_bytes :: "'f crates \<Rightarrow> manifest_op list \<Rightarrow> bytes" where
  "ops_bytes C ms \<equiv> frames_bytes C (map (op_frame C) ms)"

lemma replay_loop_step:
  assumes "awaits C (op_frame C m # fs) tail sc" and "op_writable C m"
  obtains sc' where "awaits C fs tail sc'" and "peeked sc' = None" and "stream_end sc' = stream_end sc"
    and "position sc' = next_start sc + frame_len (op_frame C m)"
    and "replay_loop C st nxt sc =
      (case apply_manifest_op m st of
         (Inl e, _) \<Rightarrow> Inl (ApplyFailed (next_start sc) e)
       | (Inr _, st') \<Rightarrow> replay_loop C st' (position sc') sc')"
proof -
  have fits: "fits (op_frame C m)" and ne: "snd (op_frame C m) \<noteq> []"
    using assms(2) by (simp_all add: op_writable_def op_frame_def)
  obtain fr sc1 fr' sc2 where r: "scanner_read sc = (Inr (Some fr), sc1)"
    "frame_start fr = next_start sc" "read_to_end [] (fr, sc1) = (Inr (snd (op_frame C m)), fr', sc2)"
    "remaining fr' = 0" "peeked sc2 = None" "awaits C fs tail sc2"
    "position sc2 = (if snd (op_frame C m) = [] then position sc
                     else next_start sc + frame_len (op_frame C m))"
    "stream_end sc2 = stream_end sc"
    by (rule read_frame_to_end [OF assms(1) fits]) blast
  have d: "decode C (snd (op_frame C m)) = Inr m"
    using assms(2) by (simp add: op_frame_def decode_written)
  have "replay_loop C st nxt sc =
      (case apply_manifest_op m st of
         (Inl e, _) \<Rightarrow> Inl (ApplyFailed (next_start sc) e)
       | (Inr _, st') \<Rightarrow> replay_loop C st' (position sc2) sc2)"
    using r(1-4) d
    by (subst replay_loop.simps) (simp add: reader_drop_def split: prod.split sum.split)
  with r ne show thesis by (intro that [of sc2]) simp_all
qed

lemma replay_loop_ops:
  assumes "awaits C (map (op_frame C) ms) tail sc" and "\<forall>m \<in> set ms. op_writable C m"
    and "peeked sc = None" and "for_each apply_manifest_op ms st = (Inr (), st')"
    and "nxt = position sc"
  shows "\<exists>sc'. replay_loop C st nxt sc = replay_loop C st' (position sc') sc'
    \<and> stream sc' = tail \<and> peeked sc' = None \<and> stream_end sc' = stream_end sc
    \<and> position sc' = position sc + length (ops_bytes C ms)"
  using assms
proof (induction ms arbitrary: st nxt sc)
  case Nil
  then show ?case by (intro exI [of _ sc]) (simp add: ok_def)
next
  case (Cons m ms)
  then obtain st1 where st1: "apply_manifest_op m st = (Inr (), st1)"
    and rest: "for_each apply_manifest_op ms st1 = (Inr (), st')"
    by (auto simp: and_then_eq_Inr)
  have aw: "awaits C (op_frame C m # map (op_frame C) ms) tail sc" using Cons.prems(1) by simp
  have wr: "op_writable C m" using Cons.prems(2) by simp
  obtain sc1 where sc1: "awaits C (map (op_frame C) ms) tail sc1" "peeked sc1 = None"
    "stream_end sc1 = stream_end sc" "position sc1 = next_start sc + frame_len (op_frame C m)"
    and step: "replay_loop C st nxt sc =
      (case apply_manifest_op m st of
         (Inl e, _) \<Rightarrow> Inl (ApplyFailed (next_start sc) e)
       | (Inr _, st') \<Rightarrow> replay_loop C st' (position sc1) sc1)"
    by (rule replay_loop_step [OF aw wr]) blast
  have wrs: "\<forall>m \<in> set ms. op_writable C m" using Cons.prems(2) by simp
  from Cons.IH [OF sc1(1) wrs sc1(2) rest refl] step st1 sc1 Cons.prems(3)
  show ?case by (auto simp: add.assoc)
qed

lemma replay_loop_end:
  assumes "peeked sc = None" and "stream_end sc = None" and "length (stream sc) < HEADER_LEN"
  shows "replay_loop C st nxt sc = Inr \<lparr>replayed = st, replay_next = nxt\<rparr>"
  using assms
  by (subst replay_loop.simps) (auto simp: scanner_read_def and_then_apply peek_header_step)

lemma replay_loop_torn:
  assumes "peeked sc = None" and "stream_end sc = None" and "fits g"
    and "stream sc = take j (frame_bytes C g)" and "HEADER_LEN \<le> j" and "j < frame_len g"
  shows "replay_loop C st nxt sc = Inl (ReplayIo UnexpectedEof)"
proof -
  have str: "stream sc = frame_header C g @ take (j - HEADER_LEN) (snd g)"
    using assms(4,5) by (simp add: frame_bytes_header)
  then have "peek_header sc = (Inr (Some (frame_header C g, position sc)),
      sc\<lparr>stream := take (j - HEADER_LEN) (snd g), peeked := Some (frame_header C g, position sc)\<rparr>)"
    using assms(1) by (simp add: peek_header_step)
  then have rd: "scanner_read sc = (Inr (Some \<lparr>fr_id = fst g, remaining = length (snd g),
      payload_len = length (snd g), frame_start = position sc\<rparr>),
      sc\<lparr>stream := take (j - HEADER_LEN) (snd g), peeked := None\<rparr>)"
    using assms(3) by (simp add: scanner_read_def and_then_apply Let_def unpeek_def)
  have "length (take (j - HEADER_LEN) (snd g)) < length (snd g)"
    using assms(5,6) by (auto simp: frame_len_def)
  then have "\<exists>s'. read_to_end [] (\<lparr>fr_id = fst g, remaining = length (snd g),
      payload_len = length (snd g), frame_start = position sc\<rparr>,
      sc\<lparr>stream := take (j - HEADER_LEN) (snd g), peeked := None\<rparr>) = (Inl UnexpectedEof, s')"
    using assms(2) by (intro read_to_end_short) simp_all
  with rd show ?thesis by (subst replay_loop.simps) auto
qed

section \<open>The log\<close>

text \<open>A log of operations: \<open>holds l ms\<close> says that log \<open>l\<close> holds the operations \<open>ms\<close>.\<close>

locale op_log =
  fixes holds :: "'l \<Rightarrow> 'm list \<Rightarrow> bool"
    and writable :: "'m \<Rightarrow> bool"
    and append_op :: "'m \<Rightarrow> 'l \<Rightarrow> 'l"
    and run :: "'m list \<Rightarrow> 's option"
    and replay_log :: "'l \<Rightarrow> 's option"
  assumes append_holds: "holds l ms \<Longrightarrow> writable m \<Longrightarrow> holds (append_op m l) (ms @ [m])"
    and replay_holds: "holds l ms \<Longrightarrow> run ms = Some s \<Longrightarrow> replay_log l = Some s"
begin

lemma append_all: "holds l ms \<Longrightarrow> \<forall>m \<in> set new. writable m \<Longrightarrow> holds (fold append_op new l) (ms @ new)"
proof (induction new arbitrary: l ms)
  case (Cons m new)
  then have "holds (append_op m l) (ms @ [m])" by (simp add: append_holds)
  with Cons.IH [OF this] Cons.prems have "holds (fold append_op new (append_op m l)) ((ms @ [m]) @ new)" by simp
  then show ?case by simp
qed simp

lemma replay_after_appends:
  "holds l ms \<Longrightarrow> \<forall>m \<in> set new. writable m \<Longrightarrow> run (ms @ new) = Some s \<Longrightarrow>
     replay_log (fold append_op new l) = Some s"
  by (rule replay_holds [OF append_all])

end

definition manifest_handle :: handle where
  "manifest_handle = \<lparr>path = MANIFEST_FILE_NAME, cursor_at = MAGIC_LEN\<rparr>"

definition log_holds :: "'f crates \<Rightarrow> frame_cursor \<times> world \<Rightarrow> manifest_op list \<Rightarrow> bool" where
  "log_holds C l ms \<longleftrightarrow> (case l of (cur, w) \<Rightarrow> healthy w
     \<and> content w MANIFEST_FILE_NAME = Some (MANIFEST_MAGIC @ ops_bytes C ms)
     \<and> (\<forall>m \<in> set ms. op_writable C m)
     \<and> cur = cursor_new (MAGIC_LEN + length (ops_bytes C ms)))"

definition append_manifest :: "'f crates \<Rightarrow> manifest_op \<Rightarrow> frame_cursor \<times> world \<Rightarrow> frame_cursor \<times> world" where
  "append_manifest C m l = snd (write_op C manifest_handle m l)"

definition run_ops :: "manifest_op list \<Rightarrow> store_state option" where
  "run_ops ms = (case for_each apply_manifest_op ms empty_state of
     (Inr _, st) \<Rightarrow> Some st | (Inl _, _) \<Rightarrow> None)"

definition replay_manifest :: "'f crates \<Rightarrow> frame_cursor \<times> world \<Rightarrow> store_state option" where
  "replay_manifest C l = (case open_manifest_read (snd l) of
     (Inr (f, off), w) \<Rightarrow> (case fst (replay C f off w) of Inr r \<Rightarrow> Some (replayed r) | Inl _ \<Rightarrow> None)
   | (Inl _, _) \<Rightarrow> None)"

lemma write_op_healthy:
  assumes "healthy w" and "content w (path f) = Some c" and "cur = cursor_new (length c)"
  shows "write_op C f m (cur, w) =
    (Inr (), cursor_new (length c + frame_len (op_frame C m)),
     store_file (path f) (c @ frame_bytes C (op_frame C m)) w)"
proof -
  have "buffered (cursor_write C (EntryId 0) (encode C m) cur) = frame_bytes C (op_frame C m)"
    and "cur_position (cursor_write C (EntryId 0) (encode C m) cur) = length c"
    using assms(3) by (simp_all add: cursor_write_def cursor_new_def buffer_write_frame op_frame_def)
  with assms(1,2) show ?thesis
    by (simp add: write_op_def Let_def cursor_flush_def and_then_def write_bytes_def cursor_new_def
        cursor_write_def)
qed

lemma append_manifest_holds:
  "log_holds C l ms \<Longrightarrow> op_writable C m \<Longrightarrow> log_holds C (append_manifest C m l) (ms @ [m])"
proof -
  assume h: "log_holds C l ms" and m: "op_writable C m"
  obtain cur w where l: "l = (cur, w)" by (cases l)
  let ?c = "MANIFEST_MAGIC @ ops_bytes C ms"
  have c: "content w (path manifest_handle) = Some ?c" and w: "healthy w"
    and cur: "cur = cursor_new (length ?c)"
    using h l by (simp_all add: log_holds_def manifest_handle_def)
  show ?thesis
    using h m l write_op_healthy [OF w c cur, of C m]
    by (auto simp: log_holds_def append_manifest_def manifest_handle_def add.assoc)
qed

lemma replay_written:
  assumes "healthy w" and "content w MANIFEST_FILE_NAME = Some (MANIFEST_MAGIC @ ops_bytes C ms @ tail)"
    and "\<forall>m \<in> set ms. op_writable C m" and "for_each apply_manifest_op ms empty_state = (Inr (), st)"
  obtains sc where "open_manifest_read w = (Inr (manifest_handle, MAGIC_LEN), w)"
    and "replay C manifest_handle MAGIC_LEN w = (replay_loop C st (position sc) sc, w)"
    and "stream sc = tail" and "peeked sc = None" and "stream_end sc = None"
    and "position sc = MAGIC_LEN + length (ops_bytes C ms)"
proof -
  have op: "open_manifest_read w = (Inr (manifest_handle, MAGIC_LEN), w)"
    unfolding open_manifest_read_def manifest_handle_def
    by (rule open_checked_magic [OF assms(1,2)]) simp
  define sc where "sc = fst (scanner_new manifest_handle MAGIC_LEN w)"
  have new: "scanner_new manifest_handle MAGIC_LEN w = (sc, w)"
    and sc: "stream sc = ops_bytes C ms @ tail" "peeked sc = None" "stream_end sc = None"
      "position sc = MAGIC_LEN"
    using assms(1,2) by (simp_all add: sc_def scanner_new_def read_stream_def manifest_handle_def)
  have "awaits C (map (op_frame C) ms) tail sc" using sc by simp
  from replay_loop_ops [OF this assms(3) sc(2) assms(4) sc(4) [symmetric]]
  obtain sc' where "replay_loop C empty_state MAGIC_LEN sc = replay_loop C st (position sc') sc'"
    "stream sc' = tail" "peeked sc' = None" "stream_end sc' = None"
    "position sc' = MAGIC_LEN + length (ops_bytes C ms)"
    using sc by auto
  with op new show thesis by (intro that [of sc']) (simp_all add: replay_def)
qed

interpretation manifest_log: op_log "log_holds C" "op_writable C" "append_manifest C" run_ops
  "replay_manifest C" for C
proof (unfold_locales, goal_cases)
  case (1 l ms m)
  then show ?case by (rule append_manifest_holds)
next
  case (2 l ms s)
  obtain cur w where l: "l = (cur, w)" by (cases l)
  have w: "healthy w" "content w MANIFEST_FILE_NAME = Some (MANIFEST_MAGIC @ ops_bytes C ms @ [])"
    "\<forall>m \<in> set ms. op_writable C m"
    using 2(1) by (simp_all add: l log_holds_def)
  have run: "for_each apply_manifest_op ms empty_state = (Inr (), s)"
    using 2(2) by (simp add: run_ops_def split: prod.splits sum.splits)
  obtain sc where sc: "open_manifest_read w = (Inr (manifest_handle, MAGIC_LEN), w)"
    "replay C manifest_handle MAGIC_LEN w = (replay_loop C s (position sc) sc, w)"
    "stream sc = []" "peeked sc = None" "stream_end sc = None"
    by (rule replay_written [OF w run]) blast
  then have "replay_loop C s (position sc) sc = Inr \<lparr>replayed = s, replay_next = position sc\<rparr>"
    by (intro replay_loop_end) (simp_all add: HEADER_LEN_def)
  with sc show ?case by (simp add: replay_manifest_def l)
qed

section \<open>Properties\<close>

text \<open>C18: The manifest is a faithful log. Take a manifest that holds the operations \<open>ms\<close>, append the
  operations \<open>new\<close> one after the other, close it and open it again: if the state machine accepts
  \<open>ms\<close> followed by \<open>new\<close>, replay returns exactly the state it reaches.\<close>

theorem manifest_replay:
  assumes "log_holds C l ms" and "\<forall>m \<in> set new. op_writable C m" and "run_ops (ms @ new) = Some s"
  shows "replay_manifest C (fold (append_manifest C) new l) = Some s"
  using assms by (rule manifest_log.replay_after_appends)

definition fresh_manifest :: world where
  "fresh_manifest = \<lparr>base_dir_exists = True, entries = [(MANIFEST_FILE_NAME, MANIFEST_MAGIC)], faults = [], saved = \<lambda>_. [], listed = []\<rparr>"

lemma log_holds_fresh: "log_holds sample (cursor_new MAGIC_LEN, fresh_manifest) []"
  by (simp add: log_holds_def fresh_manifest_def healthy_def)

text \<open>Encodings of the library in the sample record are never empty.\<close>

lemma sample_encode_ne: "encode sample m \<noteq> []"
  by (simp add: encode_def encode_adds_def sample_def)

lemma sample_writable: "length (encode sample m) < 2 ^ 32 \<Longrightarrow> op_writable sample m"
  by (simp add: op_writable_def sample_encode_ne fits_def op_frame_def)

lemmas encode_sample_simps = encode_def encode_adds_def sample_def tag_defs op_tag_defs meta_adds_def
  put_pair_def put_len_def

lemma history_writable: "\<forall>m \<in> set history_example. op_writable sample m"
  by (simp add: history_example_def bare_def with_meta_def)
     (intro conjI sample_writable; simp add: encode_sample_simps)

theorem manifest_replay_witness:
  "replay_manifest sample (fold (append_manifest sample) history_example
     (cursor_new MAGIC_LEN, fresh_manifest)) = Some history_end"
proof (rule manifest_replay [OF log_holds_fresh history_writable])
  show "run_ops ([] @ history_example) = Some history_end"
    by (simp add: run_ops_def run_simps and_then_def fun_upd_idem_iff fun_eq_iff)
qed

text \<open>A torn manifest tail is tolerated by replay only when it is shorter than a frame header: then
  replay returns the state of the whole frames and the offset behind them. A torn tail with a complete
  header, which the scan reports as a truncatable \<open>TornTail\<close> like any other, makes replay fail with an
  \<^verbatim>\<open>UnexpectedEof\<close> error.\<close>

theorem replay_torn_tail:
  assumes "healthy w"
    and "content w MANIFEST_FILE_NAME = Some (MANIFEST_MAGIC @ ops_bytes C ms @ take j (frame_bytes C g))"
    and "\<forall>m \<in> set ms. op_writable C m" and "for_each apply_manifest_op ms empty_state = (Inr (), st)"
    and "fits g" and "0 < j" and "j < frame_len g"
  shows "fst (replay C manifest_handle MAGIC_LEN w) =
      (if j < HEADER_LEN
       then Inr \<lparr>replayed = st, replay_next = MAGIC_LEN + length (ops_bytes C ms)\<rparr>
       else Inl (ReplayIo UnexpectedEof))
    \<and> map_sum id status (fst (scan_all C 1 (fst (scanner_new manifest_handle MAGIC_LEN w)))) = Inr TornTail"
proof -
  obtain sc where sc: "replay C manifest_handle MAGIC_LEN w = (replay_loop C st (position sc) sc, w)"
    "stream sc = take j (frame_bytes C g)" "peeked sc = None" "stream_end sc = None"
    "position sc = MAGIC_LEN + length (ops_bytes C ms)"
    by (rule replay_written [OF assms(1-4)]) blast
  have "fst (replay C manifest_handle MAGIC_LEN w) =
      (if j < HEADER_LEN
       then Inr \<lparr>replayed = st, replay_next = MAGIC_LEN + length (ops_bytes C ms)\<rparr>
       else Inl (ReplayIo UnexpectedEof))"
    using sc assms(5-7) replay_loop_end [OF sc(3,4)] replay_loop_torn [OF sc(3,4) assms(5) sc(2)]
    by auto
  moreover
  let ?sc = "fst (scanner_new manifest_handle MAGIC_LEN w)"
  have "fst (scan_all C 1 ?sc) = Inr
      \<lparr>count = length (map (op_frame C) ms), checkpoints = marks 1 0 (position ?sc) (map (op_frame C) ms),
       last_id = last_frame_id (map (op_frame C) ms),
       next_offset = position ?sc + length (ops_bytes C ms),
       status = (if take j (frame_bytes C g) = [] then Clean else TornTail)\<rparr>"
  proof (rule scan_all_frames)
    show "\<forall>f \<in> set (map (op_frame C) ms). fits f" using assms(3) by (simp add: op_writable_def)
    show "take j (frame_bytes C g) = [] \<or> torn_piece C (take j (frame_bytes C g))"
      unfolding torn_piece_def using assms(5-7) by (intro disjI2 exI [of _ g] exI [of _ j]) simp
  qed (use assms(1,2) in \<open>simp_all add: scanner_new_def read_stream_def manifest_handle_def\<close>)
  then have "map_sum id status (fst (scan_all C 1 ?sc)) = Inr TornTail" using assms(6) by simp
  ultimately show ?thesis by blast
qed

definition torn_manifest :: "nat \<Rightarrow> world" where
  "torn_manifest j = \<lparr>base_dir_exists = True, entries = [(MANIFEST_FILE_NAME,
     MANIFEST_MAGIC @ take j (frame_bytes sample (op_frame sample (bare Metadata))))], faults = [], saved = \<lambda>_. [], listed = []\<rparr>"

theorem replay_torn_tail_witness:
  "fst (replay sample manifest_handle MAGIC_LEN (torn_manifest 21)) = Inl (ReplayIo UnexpectedEof)"
proof -
  have "21 < frame_len (op_frame sample (bare Metadata))" "fits (op_frame sample (bare Metadata))"
    by (simp_all add: frame_len_def HEADER_LEN_def op_frame_def fits_def bare_def encode_sample_simps)
  then show ?thesis
    using replay_torn_tail [of "torn_manifest 21" sample "[]" 21
        "op_frame sample (bare Metadata)" empty_state]
    by (simp add: torn_manifest_def healthy_def HEADER_LEN_def ok_def)
qed

text \<open>An operation that does not apply is reported with the offset of its frame: if the state machine
  accepts \<open>ms\<close> and refuses the next operation \<open>m\<close> with \<open>e\<close>, replay fails there with that error, whatever
  follows in the manifest.\<close>

theorem replay_apply_failed:
  assumes "healthy w"
    and "content w MANIFEST_FILE_NAME = Some (MANIFEST_MAGIC @ ops_bytes C (ms @ [m]) @ tail)"
    and "\<forall>m \<in> set (ms @ [m]). op_writable C m"
    and "for_each apply_manifest_op ms empty_state = (Inr (), st)" and "op_error st (the_op m) = Some e"
  shows "fst (replay C manifest_handle MAGIC_LEN w)
      = Inl (ApplyFailed (MAGIC_LEN + length (ops_bytes C ms)) e)"
proof -
  have c: "content w MANIFEST_FILE_NAME
      = Some (MANIFEST_MAGIC @ ops_bytes C ms @ (frame_bytes C (op_frame C m) @ tail))"
    and wr: "\<forall>m \<in> set ms. op_writable C m" "op_writable C m"
    using assms(2,3) by simp_all
  obtain sc where sc: "replay C manifest_handle MAGIC_LEN w = (replay_loop C st (position sc) sc, w)"
    "stream sc = frame_bytes C (op_frame C m) @ tail" "peeked sc = None"
    "position sc = MAGIC_LEN + length (ops_bytes C ms)"
    by (rule replay_written [OF assms(1) c wr(1) assms(4)]) blast
  have aw: "awaits C (op_frame C m # []) tail sc" using sc(2,3) by simp
  show ?thesis
    by (rule replay_loop_step [OF aw wr(2), of st "position sc"])
       (use sc assms(5) in \<open>simp add: apply_manifest_op_result\<close>)
qed

theorem replay_apply_failed_witness:
  "fst (replay sample manifest_handle MAGIC_LEN (put_content MANIFEST_FILE_NAME
      (MANIFEST_MAGIC @ ops_bytes sample [bare (SegmentDeleted (SegmentId 7))]) fresh_manifest))
    = Inl (ApplyFailed 8 (SegmentNotDead (SegmentId 7)))"
proof -
  have "op_writable sample (bare (SegmentDeleted (SegmentId 7)))"
    by (rule sample_writable) (simp add: bare_def encode_sample_simps)
  then show ?thesis
    using replay_apply_failed [of "put_content MANIFEST_FILE_NAME
        (MANIFEST_MAGIC @ ops_bytes sample [bare (SegmentDeleted (SegmentId 7))]) fresh_manifest"
        sample "[]" "bare (SegmentDeleted (SegmentId 7))" "[]" empty_state
        "SegmentNotDead (SegmentId 7)"]
    by (simp add: fresh_manifest_def healthy_def ok_def bare_def empty_state_def MAGIC_LEN_8)
qed

text \<open>An operation whose write failed is not gone. The frame stays in the manifest cursor, so when the
  next operation is written successfully both stand in the manifest, in order, although the first was
  reported as failed and never applied to the state in memory.\<close>

theorem failed_op_resurfaces:
  assumes "faults w = [Some k]" and "content w (path f) = Some c" and "cur = cursor_new (length c)"
  shows "\<exists>cur1 w1. write_op C f m (cur, w) = (Inl (Err DeviceFault), cur1, w1)
    \<and> fst (write_op C f m' (cur1, w1)) = Inr ()
    \<and> content (snd (snd (write_op C f m' (cur1, w1)))) (path f)
        = Some (c @ frame_bytes C (op_frame C m) @ frame_bytes C (op_frame C m'))"
proof -
  let ?w1 = "write_bytes (path f) (length c) (take k (frame_bytes C (op_frame C m))) (spend w)"
  let ?cur1 = "\<lparr>buffered = frame_bytes C (op_frame C m), cur_position = length c\<rparr>"
  have h: "healthy ?w1" using assms(1) by (simp add: healthy_def spend_def)
  have "write_op C f m (cur, w) = (Inl (Err DeviceFault), ?cur1, ?w1)"
    using assms
    by (simp add: write_op_def Let_def cursor_flush_def and_then_def write_all_at_def next_outcome_def
        cursor_write_def cursor_new_def buffer_write_frame op_frame_def)
  moreover
  let ?d = "frame_bytes C (op_frame C m)" and ?d' = "frame_bytes C (op_frame C m')"
  have "overwrite (c @ take k ?d) (length c) (?d @ ?d') = c @ ?d @ ?d'"
    by (simp add: overwrite_def)
  then have "fst (write_op C f m' (?cur1, ?w1)) = Inr ()
    \<and> content (snd (snd (write_op C f m' (?cur1, ?w1)))) (path f) = Some (c @ ?d @ ?d')"
    using h assms(2)
    by (simp add: write_op_def Let_def cursor_flush_def and_then_def cursor_write_def
        buffer_write_frame write_bytes_content op_frame_def)
  ultimately show ?thesis by blast
qed

theorem failed_op_resurfaces_witness:
  "\<exists>cur1 w1. write_op sample manifest_handle (bare Metadata)
       (cursor_new 8, fresh_manifest\<lparr>faults := [Some 0]\<rparr>) = (Inl (Err DeviceFault), cur1, w1)
    \<and> content (snd (snd (write_op sample manifest_handle (bare (RecordOrphan (SegmentId 3))) (cur1, w1))))
        MANIFEST_FILE_NAME
      = Some (MANIFEST_MAGIC @ ops_bytes sample [bare Metadata, bare (RecordOrphan (SegmentId 3))])"
  using failed_op_resurfaces [of "fresh_manifest\<lparr>faults := [Some 0]\<rparr>" 0 manifest_handle MANIFEST_MAGIC
      "cursor_new 8" sample "bare Metadata" "bare (RecordOrphan (SegmentId 3))"]
  by (auto simp: fresh_manifest_def manifest_handle_def MAGIC_LEN_8)

end
