(* ===== verification/Issue.thy ===== *)
theory Issue
  imports Files
begin

text \<open>
  \<^verbatim>\<open>src/issue.rs\<close>: the issues a scan reports, the file each is about, and the text they are displayed
  as. An issue report is the list of issues in the order they were pushed.
\<close>

datatype file_ref = Directory | Manifest | Segment segment_id

datatype issue =
    DirectoryNotFound
  | DirectoryNotReadable
  | ManifestNotFound
  | ManifestNotReadable
  | ManifestChecksumCorrupt nat
  | ManifestEmpty
  | SealedSegmentMissing
  | SealedSegmentSizeMismatch nat nat
  | ActiveSegmentMissing
  | SealedSegmentChecksumCorrupt nat
  | DeadSegmentNotFound
  | OrphanSegmentFound
  | ManifestTornTail nat
  | ActiveSegmentTornTail nat

record file_issue =
  issue_file :: file_ref
  the_issue :: issue

type_synonym issue_report = "file_issue list"

definition push_issue :: "file_ref \<Rightarrow> issue \<Rightarrow> issue_report \<Rightarrow> issue_report" where
  "push_issue f i r = r @ [\<lparr>issue_file = f, the_issue = i\<rparr>]"

section \<open>Display\<close>

fun show_nat :: "nat \<Rightarrow> string" where
  "show_nat n = (if n < 10 then [hex_char n] else show_nat (n div 10) @ [hex_char (n mod 10)])"

declare show_nat.simps [simp del]

fun show_file_ref :: "file_ref \<Rightarrow> string" where
  "show_file_ref Directory = ''directory''"
| "show_file_ref Manifest = ''manifest''"
| "show_file_ref (Segment i) = segment_path i"

fun show_issue :: "issue \<Rightarrow> string" where
  "show_issue DirectoryNotFound = ''directory not found''"
| "show_issue DirectoryNotReadable = ''directory not readable''"
| "show_issue ManifestNotFound = ''manifest not found''"
| "show_issue ManifestNotReadable = ''manifest not readable''"
| "show_issue (ManifestChecksumCorrupt offset) =
     ''manifest checksum corrupt at offset '' @ show_nat offset"
| "show_issue ManifestEmpty = ''manifest is empty (no segments recorded)''"
| "show_issue SealedSegmentMissing = ''sealed segment file missing''"
| "show_issue (SealedSegmentSizeMismatch expected actual) =
     ''sealed segment size mismatch: expected '' @ show_nat expected @ '', actual '' @ show_nat actual"
| "show_issue ActiveSegmentMissing = ''active segment file missing''"
| "show_issue (SealedSegmentChecksumCorrupt corrupt_at) =
     ''sealed segment checksum corrupt at offset '' @ show_nat corrupt_at"
| "show_issue DeadSegmentNotFound = ''dead segment file not found on disk''"
| "show_issue OrphanSegmentFound = ''orphan segment found on disk with no manifest record''"
| "show_issue (ManifestTornTail truncate_to) =
     ''manifest has torn tail; truncatable to '' @ show_nat truncate_to"
| "show_issue (ActiveSegmentTornTail truncate_to) =
     ''active segment has torn tail; truncatable to '' @ show_nat truncate_to"

definition show_file_issue :: "file_issue \<Rightarrow> string" where
  "show_file_issue fi = show_issue (the_issue fi) @ '' ['' @ show_file_ref (issue_file fi) @ '']''"

definition show_report :: "issue_report \<Rightarrow> string" where
  "show_report r = show_nat (length r) @ '' issue(s):''
     @ concat (map (\<lambda>fi. [CHR 0x0A] @ ''  '' @ show_file_issue fi) r)"

end
