(* ===== verification/Scan_Report.thy ===== *)
theory Scan_Report
  imports Manifest Issue Index
begin

text \<open>
  \<^verbatim>\<open>src/scan.rs\<close>: the scan of a store's directory before it is opened. It verifies and replays the
  manifest, looks for segment files the manifest does not know and for dead ones that are gone, and
  scans every live segment. Problems go into the issue report; the four phases stop early when one
  leaves nothing to go on with.
\<close>

section \<open>Reports\<close>

definition INDEX_STRIDE :: nat where
  "INDEX_STRIDE = 64"

record segment_report =
  report_id :: segment_id
  num_entries :: nat
  write_offset :: nat
  report_last :: "entry_id option"
  report_index :: segment_index

record scan_report =
  report_state :: store_state
  manifest_next_offset :: nat
  segment_reports :: "segment_report list"
  report_issues :: issue_report

type_synonym 'a scanning = "issue_report \<times> world \<Rightarrow> 'a \<times> issue_report \<times> world"

definition failed_report :: "segment_id \<Rightarrow> segment_report" where
  "failed_report i = \<lparr>report_id = i, num_entries = 0, write_offset = 0, report_last = None,
     report_index = segment_index_new []\<rparr>"

section \<open>Scanning one segment\<close>

text \<open>The check of a sealed segment's file size, before the file is opened.\<close>

definition size_issue :: "segment_id \<Rightarrow> nat option \<Rightarrow> world \<Rightarrow> issue option \<times> world" where
  "size_issue i expected_len w =
     (case expected_len of
        None \<Rightarrow> (None, w)
      | Some expected \<Rightarrow>
          (case segment_size i w of
             (Inl _, w') \<Rightarrow> (Some SealedSegmentMissing, w')
           | (Inr actual, w') \<Rightarrow>
               (if actual \<noteq> expected then Some (SealedSegmentSizeMismatch expected actual) else None,
                w')))"

definition scan_segment :: "'f crates \<Rightarrow> segment_id \<Rightarrow> nat option \<Rightarrow> segment_report scanning" where
  "scan_segment C i expected_len = (\<lambda>(issues, w).
     let is_sealed = expected_len \<noteq> None;
         missing = (if is_sealed then SealedSegmentMissing else ActiveSegmentMissing);
         failed = (\<lambda>issue w'. (failed_report i, push_issue (Segment i) issue issues, w'))
     in case size_issue i expected_len w of
          (Some issue, w1) \<Rightarrow> failed issue w1
        | (None, w1) \<Rightarrow>
            (case open_segment i w1 of
               (Inl _, w2) \<Rightarrow> failed missing w2
             | (Inr (f, offset), w2) \<Rightarrow>
                 (case scanner_new f offset w2 of (sc, w3) \<Rightarrow>
                    (case fst (scan_all C INDEX_STRIDE sc) of
                       Inl _ \<Rightarrow> failed missing w3
                     | Inr s \<Rightarrow>
                         let index = segment_index_new (checkpoints s)
                         in if status s = Clean
                            then (\<lparr>report_id = i, num_entries = count s, write_offset = next_offset s,
                                   report_last = last_id s, report_index = index\<rparr>, issues, w3)
                            else (\<lparr>report_id = i, num_entries = count s, write_offset = 0,
                                   report_last = last_id s, report_index = index\<rparr>,
                                  push_issue (Segment i)
                                    (if is_sealed then SealedSegmentChecksumCorrupt (next_offset s)
                                     else ActiveSegmentTornTail (next_offset s)) issues, w3)))))"

section \<open>Scanning the store\<close>

definition empty_report :: "issue_report \<Rightarrow> scan_report" where
  "empty_report issues = \<lparr>report_state = empty_state, manifest_next_offset = 0, segment_reports = [],
     report_issues = issues\<rparr>"

definition find_orphans :: "store_state \<Rightarrow> segment_id list \<Rightarrow> issue_report \<Rightarrow> issue_report" where
  "find_orphans st disk_ids issues =
     (let known = set (ids_of st) \<union> dead st
      in fold (\<lambda>i. push_issue (Segment i) OrphanSegmentFound) (filter (\<lambda>i. i \<notin> known) disk_ids) issues)"

definition find_missing_dead ::
  "'f crates \<Rightarrow> store_state \<Rightarrow> segment_id list \<Rightarrow> issue_report \<Rightarrow> issue_report" where
  "find_missing_dead C st disk_ids issues =
     fold (\<lambda>i. push_issue (Segment i) DeadSegmentNotFound)
       (filter (\<lambda>i. i \<notin> set disk_ids) (hash_order C (dead st))) issues"

fun scan_segments ::
  "'f crates \<Rightarrow> store_state \<Rightarrow> segment_entry list \<Rightarrow> segment_report list scanning" where
  "scan_segments C st [] = (\<lambda>s. ([], s))"
| "scan_segments C st (e # es) = (\<lambda>s.
     let expected_len = map_option (\<lambda>info. unat (final_size info)) (seals st (se_id e))
     in case scan_segment C (se_id e) expected_len s of (r, s1) \<Rightarrow>
          case scan_segments C st es s1 of (rs, s2) \<Rightarrow> (r # rs, s2))"

text \<open>Phase 3: the segment files, for a replayed state that is not empty.\<close>

definition scan_files :: "'f crates \<Rightarrow> issue_report \<Rightarrow> replay_result \<Rightarrow> world \<Rightarrow> scan_report \<times> world" where
  "scan_files C issues r w =
     (let st = replayed r in
      case collect_segment_ids w of
        (Inl e, w1) \<Rightarrow>
          (empty_report (push_issue Directory
             (if e = Err NotFound then DirectoryNotFound else DirectoryNotReadable) issues), w1)
      | (Inr disk_ids, w1) \<Rightarrow>
          (case scan_segments C st (segments st)
                  (find_missing_dead C st disk_ids (find_orphans st disk_ids issues), w1) of
             (reports, issues', w2) \<Rightarrow>
               (\<lparr>report_state = st, manifest_next_offset = replay_next r, segment_reports = reports,
                 report_issues = issues'\<rparr>, w2)))"

text \<open>Phase 2: replay from a fresh handle, at the offset of the first.\<close>

definition scan_replay :: "'f crates \<Rightarrow> nat \<Rightarrow> issue_report \<Rightarrow> world \<Rightarrow> scan_report \<times> world" where
  "scan_replay C offset issues w =
     (case open_manifest_read w of
        (Inl _, w1) \<Rightarrow> (empty_report (push_issue Manifest ManifestNotReadable issues), w1)
      | (Inr (f, _), w1) \<Rightarrow>
          (case replay C f offset w1 of
             (Inl (InvalidOp off _), w2) \<Rightarrow>
               (empty_report (push_issue Manifest (ManifestChecksumCorrupt off) issues), w2)
           | (Inl (ApplyFailed off _), w2) \<Rightarrow>
               (empty_report (push_issue Manifest (ManifestChecksumCorrupt off) issues), w2)
           | (Inl (ReplayIo _), w2) \<Rightarrow>
               (empty_report (push_issue Manifest ManifestNotReadable issues), w2)
           | (Inr r, w2) \<Rightarrow>
               if is_empty (replayed r)
               then (empty_report (push_issue Manifest ManifestEmpty issues), w2)
               else scan_files C issues r w2))"

text \<open>Phases 0 and 1: the directory and the integrity of the manifest.\<close>

definition scan_store :: "'f crates \<Rightarrow> world \<Rightarrow> scan_report \<times> world" where
  "scan_store C w =
     (case dir_exists w of
        (False, w1) \<Rightarrow> (empty_report (push_issue Directory DirectoryNotFound []), w1)
      | (True, w1) \<Rightarrow>
          (case open_manifest_read w1 of
             (Inl e, w2) \<Rightarrow>
               (empty_report (push_issue Manifest
                  (if e = Err NotFound then ManifestNotFound else ManifestNotReadable) []), w2)
           | (Inr (f, offset), w2) \<Rightarrow>
               (case scanner_new f offset w2 of (sc, w3) \<Rightarrow>
                  (case fst (scan_all C 1 sc) of
                     Inl _ \<Rightarrow> (empty_report (push_issue Manifest ManifestNotReadable []), w3)
                   | Inr s \<Rightarrow>
                       (case status s of
                          TornTail \<Rightarrow> scan_replay C offset
                            (push_issue Manifest (ManifestTornTail (next_offset s)) []) w3
                        | ChecksumCorrupt \<Rightarrow>
                            (empty_report (push_issue Manifest
                               (ManifestChecksumCorrupt (next_offset s)) []), w3)
                        | Clean \<Rightarrow> scan_replay C offset [] w3)))))"

end
