(* ===== verification/Recovery.thy ===== *)
theory Recovery
  imports Scan_Report
begin

text \<open>
  \<^verbatim>\<open>src/recovery.rs\<close>: each issue of a scan becomes a fix-up or makes recovery impossible; the fix-ups
  that need approval are refused without it; the rest run phase by phase (a stable sort keeps the
  order of the report within a phase).
\<close>

section \<open>Fix-ups\<close>

datatype recovery_error =
    NotPossible
  | ApprovalRequired
  | RemainingIssues issue_report
  | IoError io_kind

type_synonym 'a recovering = "(world, recovery_error stop, 'a) step"

datatype fix_up_phase = ManifestFileClean | ManifestAppends | SegmentFileClean

fun phase_rank :: "fix_up_phase \<Rightarrow> nat" where
  "phase_rank ManifestFileClean = 0"
| "phase_rank ManifestAppends = 1"
| "phase_rank SegmentFileClean = 2"

instantiation fix_up_phase :: linorder
begin

definition less_eq_fix_up_phase :: "fix_up_phase \<Rightarrow> fix_up_phase \<Rightarrow> bool" where
  "less_eq_fix_up_phase a b \<longleftrightarrow> phase_rank a \<le> phase_rank b"

definition less_fix_up_phase :: "fix_up_phase \<Rightarrow> fix_up_phase \<Rightarrow> bool" where
  "less_fix_up_phase a b \<longleftrightarrow> phase_rank a < phase_rank b"

instance
proof (standard, goal_cases)
  case (4 x y)
  then show ?case by (cases x; cases y) (simp_all add: less_eq_fix_up_phase_def)
qed (auto simp: less_eq_fix_up_phase_def less_fix_up_phase_def)

end

datatype fix_up_action =
    OrphanFound segment_id
  | DeadSegmentMissing segment_id
  | TruncateManifest nat
  | TruncateSegment segment_id nat
  | CreateActiveSegment segment_id

record fix_up =
  phase :: fix_up_phase
  approval_required :: bool
  action :: fix_up_action

definition auto_fix :: "fix_up_phase \<Rightarrow> fix_up_action \<Rightarrow> fix_up option" where
  "auto_fix p a = Some \<lparr>phase = p, approval_required = False, action = a\<rparr>"

definition approval_fix :: "fix_up_phase \<Rightarrow> fix_up_action \<Rightarrow> fix_up option" where
  "approval_fix p a = Some \<lparr>phase = p, approval_required = True, action = a\<rparr>"

definition issue_segment_id :: "file_issue \<Rightarrow> segment_id option" where
  "issue_segment_id fi = (case issue_file fi of Segment i \<Rightarrow> Some i | _ \<Rightarrow> None)"

definition create_fix_up :: "file_issue \<Rightarrow> fix_up option" where
  "create_fix_up fi =
     (case the_issue fi of
        DirectoryNotFound \<Rightarrow> None
      | DirectoryNotReadable \<Rightarrow> None
      | ManifestNotFound \<Rightarrow> None
      | ManifestNotReadable \<Rightarrow> None
      | ManifestChecksumCorrupt _ \<Rightarrow> None
      | ManifestEmpty \<Rightarrow> None
      | SealedSegmentMissing \<Rightarrow> None
      | SealedSegmentSizeMismatch _ _ \<Rightarrow> None
      | ActiveSegmentMissing \<Rightarrow> Option.bind (issue_segment_id fi)
          (\<lambda>i. approval_fix SegmentFileClean (CreateActiveSegment i))
      | SealedSegmentChecksumCorrupt corrupt_at \<Rightarrow> Option.bind (issue_segment_id fi)
          (\<lambda>i. approval_fix SegmentFileClean (TruncateSegment i corrupt_at))
      | DeadSegmentNotFound \<Rightarrow> Option.bind (issue_segment_id fi)
          (\<lambda>i. auto_fix ManifestAppends (DeadSegmentMissing i))
      | OrphanSegmentFound \<Rightarrow> Option.bind (issue_segment_id fi)
          (\<lambda>i. auto_fix ManifestAppends (OrphanFound i))
      | ManifestTornTail truncate_to \<Rightarrow>
          auto_fix ManifestFileClean (TruncateManifest truncate_to)
      | ActiveSegmentTornTail truncate_to \<Rightarrow> Option.bind (issue_segment_id fi)
          (\<lambda>i. auto_fix SegmentFileClean (TruncateSegment i truncate_to)))"

section \<open>Applying them\<close>

fun stop_map :: "('e \<Rightarrow> 'f) \<Rightarrow> 'e stop \<Rightarrow> 'f stop" where
  "stop_map g (Err e) = Err (g e)"
| "stop_map g Panic = Panic"

definition io_error :: "'a io \<Rightarrow> 'a recovering" where
  "io_error = map_err (stop_map IoError)"

definition truncate_manifest :: "nat \<Rightarrow> unit recovering" where
  "truncate_manifest offset = and_then (io_error open_manifest_rw) (\<lambda>(f, _).
     and_then (io_error (set_len f offset)) (\<lambda>_. io_error (sync_all f)))"

definition truncate_segment :: "segment_id \<Rightarrow> nat \<Rightarrow> unit recovering" where
  "truncate_segment i offset = and_then (io_error (open_segment_rw i)) (\<lambda>(f, _).
     and_then (io_error (set_len f offset)) (\<lambda>_. io_error (sync_all f)))"

definition create_active_segment :: "segment_id \<Rightarrow> unit recovering" where
  "create_active_segment i = and_then (io_error (create_segment_file i)) (\<lambda>_. ok ())"

text \<open>A fresh cursor at the end of the manifest file; it is gone when the operation ends.\<close>

definition append_manifest_op :: "'f crates \<Rightarrow> op \<Rightarrow> unit recovering" where
  "append_manifest_op C p = and_then (io_error open_manifest_rw) (\<lambda>(f, _).
     and_then (io_error (metadata_len (path f))) (\<lambda>offset.
     io_error (\<lambda>w. case write_op C f (bare p) (cursor_new offset, w) of (r, _, w') \<Rightarrow> (r, w'))))"

definition dead_segment_missing :: "'f crates \<Rightarrow> segment_id \<Rightarrow> unit recovering" where
  "dead_segment_missing C i = append_manifest_op C (SegmentDeleted i)"

definition orphan_found :: "'f crates \<Rightarrow> segment_id \<Rightarrow> unit recovering" where
  "orphan_found C i = append_manifest_op C (RecordOrphan i)"

fun apply_fix_up :: "'f crates \<Rightarrow> fix_up_action \<Rightarrow> unit recovering" where
  "apply_fix_up C (TruncateManifest offset) = truncate_manifest offset"
| "apply_fix_up C (TruncateSegment i offset) = truncate_segment i offset"
| "apply_fix_up C (CreateActiveSegment i) = create_active_segment i"
| "apply_fix_up C (DeadSegmentMissing i) = dead_segment_missing C i"
| "apply_fix_up C (OrphanFound i) = orphan_found C i"

text \<open>The loop over the issues: the first that cannot be fixed, or not without approval, ends it.\<close>

fun collect_fix_ups :: "bool \<Rightarrow> issue_report \<Rightarrow> recovery_error + fix_up list" where
  "collect_fix_ups approved [] = Inr []"
| "collect_fix_ups approved (fi # fis) =
     (case create_fix_up fi of
        None \<Rightarrow> Inl NotPossible
      | Some fx \<Rightarrow>
          if approval_required fx \<and> \<not> approved then Inl ApprovalRequired
          else (case collect_fix_ups approved fis of
                  Inl e \<Rightarrow> Inl e | Inr fxs \<Rightarrow> Inr (fx # fxs)))"

definition attempt_recovery :: "'f crates \<Rightarrow> scan_report \<Rightarrow> bool \<Rightarrow> unit recovering" where
  "attempt_recovery C report approved =
     (case collect_fix_ups approved (report_issues report) of
        Inl e \<Rightarrow> err (Err e)
      | Inr fxs \<Rightarrow> for_each (\<lambda>fx. apply_fix_up C (action fx)) (sort_key phase fxs))"

end
