(* ===== verification/Store.thy ===== *)
theory Store
  imports Recovery
begin

text \<open>
  \<^verbatim>\<open>src/store.rs\<close> without its readers: opening a store, writing batches with the lazy rollover,
  truncating at both ends, deleting dead segments and writing metadata. Every operation is a step on
  the store and the world; an \<^verbatim>\<open>expect\<close> that fails, and the overflow of a segment id, is a \<open>Panic\<close>.
\<close>

section \<open>The store\<close>

record store =
  rollover_trigger :: nat
  st_state :: store_state
  st_index :: entry_index
  manifest_file :: handle
  manifest_cursor :: frame_cursor
  open_files :: "segment_id \<rightharpoonup> handle"
  active_id :: segment_id
  active_cursor :: frame_cursor
  active_first_entry :: entry_id
  active_entry_count :: nat
  last_entry :: "entry_id option"
  next_seg_id :: segment_id
  rollover_pending :: bool

datatype open_error =
    ApprovedRecoveredRequired issue_report
  | RecoveryNotPossible issue_report
  | RecoveryFailed recovery_error

type_synonym 'a on_store = "(store \<times> world, io_kind stop, 'a) step"

type_synonym 'a open_step = "(world, open_error stop, 'a) step"

definition first_entry_id :: "store \<Rightarrow> u64" where
  "first_entry_id s = eid (head_entry (st_state s))"

definition last_entry_id :: "store \<Rightarrow> u64 option" where
  "last_entry_id s = (case last_entry s of
     None \<Rightarrow> None | Some l \<Rightarrow> if eid l < eid (head_entry (st_state s)) then None else Some (eid l))"

section \<open>Opening\<close>

definition panic :: "('s, 'e stop, 'a) step" where
  "panic = err Panic"

text \<open>\<^verbatim>\<open>SegmentId(id + 1)\<close>, which overflows for the largest id.\<close>

definition next_segment_id :: "segment_id \<Rightarrow> segment_id option" where
  "next_segment_id i = (if sid i = - 1 then None else Some (SegmentId (sid i + 1)))"

definition sealed_last_entry :: "store_state \<Rightarrow> entry_id option" where
  "sealed_last_entry st = (case List.map_filter (\<lambda>e. map_option sealed_last (seals st (se_id e)))
                                  (drop 1 (rev (segments st))) of
     [] \<Rightarrow> None | l # _ \<Rightarrow> Some l)"

definition max_segment_id :: "store_state \<Rightarrow> segment_id" where
  "max_segment_id st =
     (let ids = set (ids_of st) \<union> dead st in if ids = {} then SegmentId 0 else Max ids)"

fun build_index :: "segment_report list \<Rightarrow> entry_index \<Rightarrow> entry_index option" where
  "build_index [] ei = Some ei"
| "build_index (r # rs) ei = Option.bind (add_segment (report_id r) (report_index r) ei) (build_index rs)"

definition from_scan_report :: "nat \<Rightarrow> scan_report \<Rightarrow> store open_step" where
  "from_scan_report trigger report =
     (if report_issues report \<noteq> [] then err (Err (RecoveryNotPossible (report_issues report)))
      else let st = report_state report in
        case active_segment st of
          None \<Rightarrow> panic
        | Some active \<Rightarrow>
            (case find (\<lambda>r. report_id r = se_id active) (segment_reports report) of
               None \<Rightarrow> panic
             | Some ar \<Rightarrow>
                 (case (next_segment_id (max_segment_id st),
                        build_index (segment_reports report) entry_index_new) of
                    (Some next_id, Some ix) \<Rightarrow>
                      and_then (map_err (\<lambda>_. Panic) open_manifest_rw) (\<lambda>(f, _).
                      ok \<lparr>rollover_trigger = trigger, st_state = st, st_index = ix,
                          manifest_file = f,
                          manifest_cursor = cursor_new (manifest_next_offset report),
                          open_files = Map.empty, active_id = se_id active,
                          active_cursor = cursor_new (write_offset ar),
                          active_first_entry = se_first active,
                          active_entry_count = num_entries ar,
                          last_entry = (case report_last ar of
                             Some l \<Rightarrow> Some l | None \<Rightarrow> sealed_last_entry st),
                          next_seg_id = next_id, rollover_pending = False\<rparr>)
                  | _ \<Rightarrow> panic)))"

definition open_store :: "'f crates \<Rightarrow> nat \<Rightarrow> store open_step" where
  "open_store C trigger = (\<lambda>w.
     case scan_store C w of
       (report, w1) \<Rightarrow>
         if report_issues report = [] then from_scan_report trigger report w1
         else (case attempt_recovery C report False w1 of
                 (Inl e, w2) \<Rightarrow>
                   (Inl (case e of
                      Err NotPossible \<Rightarrow> Err (RecoveryNotPossible (report_issues report))
                    | Err ApprovalRequired \<Rightarrow> Err (ApprovedRecoveredRequired (report_issues report))
                    | Err e' \<Rightarrow> Err (RecoveryFailed e')
                    | Panic \<Rightarrow> Panic), w2)
               | (Inr _, w2) \<Rightarrow>
                   (case scan_store C w2 of
                      (report2, w3) \<Rightarrow>
                        (case from_scan_report trigger report2 w3 of
                           (Inl (Err (RecoveryNotPossible issues)), w4) \<Rightarrow>
                             (Inl (Err (RecoveryFailed (RemainingIssues issues))), w4)
                         | res \<Rightarrow> res))))"

text \<open>The closure of \<^verbatim>\<open>open_or_create\<close> that lays out a new store. The first operation is flushed but
  not synchronised.\<close>

definition create_store :: "'f crates \<Rightarrow> unit io" where
  "create_store C =
     and_then create_manifest (\<lambda>(f, offset).
     and_then (create_segment_file (SegmentId 1)) (\<lambda>_.
     (\<lambda>w. case cursor_flush f (cursor_write C (EntryId 0)
                 (encode C (bare (CreateSegment (SegmentId 1) (EntryId 0)))) (cursor_new offset), w) of
        (r, _, w1) \<Rightarrow> (r, w1))))"

definition open_or_create :: "'f crates \<Rightarrow> nat \<Rightarrow> store open_step" where
  "open_or_create C trigger = (\<lambda>w.
     case manifest_exists w of
       (True, w1) \<Rightarrow> open_store C trigger w1
     | (False, w1) \<Rightarrow>
         and_then (map_err (stop_map (\<lambda>e. RecoveryFailed (IoError e))) (create_store C))
           (\<lambda>_. open_store C trigger) w1)"

definition recover :: "'f crates \<Rightarrow> unit recovering" where
  "recover C = (\<lambda>w. case scan_store C w of (report, w1) \<Rightarrow> attempt_recovery C report True w1)"

section \<open>Committing operations to the manifest\<close>

definition on_world :: "'a io \<Rightarrow> 'a on_store" where
  "on_world m = (\<lambda>(s, w). case m w of (r, w') \<Rightarrow> (r, s, w'))"

definition update_store :: "(store \<Rightarrow> store) \<Rightarrow> unit on_store" where
  "update_store g = (\<lambda>(s, w). (Inr (), g s, w))"

text \<open>The four lines every structural operation shares: write the frame, flush it, synchronise the
  manifest, apply the operation to the state in memory and expect that to succeed.\<close>

definition commit_op :: "'f crates \<Rightarrow> manifest_op \<Rightarrow> unit on_store" where
  "commit_op C m = (\<lambda>(s, w).
     case write_op C (manifest_file s) m (manifest_cursor s, w) of
       (Inl e, cur, w1) \<Rightarrow> (Inl e, s\<lparr>manifest_cursor := cur\<rparr>, w1)
     | (Inr _, cur, w1) \<Rightarrow>
         (case apply_manifest_op m (st_state s) of
            (Inl _, _) \<Rightarrow> (Inl Panic, s\<lparr>manifest_cursor := cur\<rparr>, w1)
          | (Inr _, st') \<Rightarrow> (Inr (), s\<lparr>manifest_cursor := cur, st_state := st'\<rparr>, w1)))"

section \<open>Writing\<close>

definition rollover_op :: "store \<Rightarrow> entry_id \<Rightarrow> op" where
  "rollover_op s new_first =
     RollSegment (active_id s) (active_first_entry s)
       (case last_entry s of Some l \<Rightarrow> l | None \<Rightarrow> active_first_entry s)
       (of_nat (active_entry_count s)) (of_nat (cur_position (active_cursor s)))
       (next_seg_id s) new_first"

definition do_rollover :: "'f crates \<Rightarrow> entry_id \<Rightarrow> unit on_store" where
  "do_rollover C new_first = (\<lambda>(s, w).
     and_then (on_world (create_segment_file (next_seg_id s))) (\<lambda>_.
     and_then (commit_op C (bare (rollover_op s new_first))) (\<lambda>_ (s1, w1).
       case next_segment_id (next_seg_id s) of
         None \<Rightarrow> (Inl Panic, s1, w1)
       | Some n \<Rightarrow>
           (Inr (), s1\<lparr>next_seg_id := n, active_id := next_seg_id s,
                       active_cursor := set_position MAGIC_LEN (active_cursor s1),
                       active_first_entry := new_first, active_entry_count := 0\<rparr>, w1))) (s, w))"

record store_writer =
  batch_first :: "entry_id option"
  batch_last :: "entry_id option"
  batch_count :: nat

definition writer_new :: store_writer where
  "writer_new = \<lparr>batch_first = None, batch_last = None, batch_count = 0\<rparr>"

definition push :: "'f crates \<Rightarrow> u64 \<Rightarrow> bytes \<Rightarrow> store_writer \<times> store \<Rightarrow> store_writer \<times> store" where
  "push C i payload = (\<lambda>(wr, s).
     (wr\<lparr>batch_first := (case batch_first wr of None \<Rightarrow> Some (EntryId i) | Some f \<Rightarrow> Some f),
         batch_last := Some (EntryId i), batch_count := batch_count wr + 1\<rparr>,
      s\<lparr>active_cursor := cursor_write C (EntryId i) payload (active_cursor s)\<rparr>))"

text \<open>The file of the active segment, opened when it is not open yet.\<close>

definition active_file :: "handle on_store" where
  "active_file = (\<lambda>(s, w).
     case open_files s (active_id s) of
       Some f \<Rightarrow> (Inr f, s, w)
     | None \<Rightarrow> and_then (on_world (open_segment_rw (active_id s))) (\<lambda>(f, _) (s1, w1).
         (Inr f, s1\<lparr>open_files := (open_files s1)(active_id s1 \<mapsto> f)\<rparr>, w1)) (s, w))"

definition flush_active :: "handle \<Rightarrow> unit on_store" where
  "flush_active f = (\<lambda>(s, w). case cursor_flush f (active_cursor s, w) of
     (r, cur, w1) \<Rightarrow> (r, s\<lparr>active_cursor := cur\<rparr>, w1))"

text \<open>\<^verbatim>\<open>StoreWriter::write\<close>; the result is the file a \<^verbatim>\<open>Commit\<close> synchronises.\<close>

definition write_batch :: "'f crates \<Rightarrow> store_writer \<Rightarrow> handle option on_store" where
  "write_batch C wr =
     (case (batch_count wr, batch_first wr, batch_last wr) of
        (0, _, _) \<Rightarrow> ok None
      | (Suc _, Some first, Some lst) \<Rightarrow>
          and_then (\<lambda>(s, w). if rollover_pending s
            then and_then (do_rollover C first)
                   (\<lambda>_. update_store (\<lambda>s. s\<lparr>rollover_pending := False\<rparr>)) (s, w)
            else (Inr (), s, w)) (\<lambda>_.
          and_then active_file (\<lambda>f.
          and_then (flush_active f) (\<lambda>_.
          and_then (update_store (\<lambda>s. s\<lparr>last_entry := Some lst,
                       active_entry_count := active_entry_count s + batch_count wr,
                       rollover_pending := (rollover_pending s
                         \<or> rollover_trigger s < cur_position (active_cursor s))\<rparr>)) (\<lambda>_.
          ok (Some f)))))
      | _ \<Rightarrow> panic)"

definition commit_sync :: "handle option \<Rightarrow> unit io" where
  "commit_sync c = (case c of None \<Rightarrow> ok () | Some f \<Rightarrow> sync_all f)"

section \<open>Truncation\<close>

definition to_evict :: "store_state \<Rightarrow> entry_id \<Rightarrow> segment_id list" where
  "to_evict st first =
     map se_id (filter (\<lambda>e. case seals st (se_id e) of
                              None \<Rightarrow> False | Some info \<Rightarrow> sealed_last info < first) (segments st))"

definition store_truncate_start :: "'f crates \<Rightarrow> u64 \<Rightarrow> (u8 \<times> bytes) list \<Rightarrow> unit on_store" where
  "store_truncate_start C first kvs = (\<lambda>(s, w).
     let first_entry = EntryId first; evict = to_evict (st_state s) first_entry
     in if first_entry < head_entry (st_state s) then (Inl (Err InvalidInput), s, w)
        else and_then (commit_op C (with_meta (TruncateStart first_entry evict) kvs))
          (\<lambda>_. update_store (\<lambda>s. s\<lparr>open_files := open_files s |` (- set evict),
                 st_index := entry_truncate_start first_entry (st_index s)\<rparr>)) (s, w))"

text \<open>The segment \<^verbatim>\<open>truncate_end\<close> rolls back to, with the segments after it.\<close>

definition rollback_target :: "store_state \<Rightarrow> entry_id \<Rightarrow> (segment_id \<times> segment_id list) option" where
  "rollback_target st last_valid =
     (let segs = segments st;
          p = partition_point (\<lambda>e. eid (se_first e) \<le> eid last_valid) segs
      in if segs = [] then None
         else Some (se_id (if p = 0 then segs ! 0 else segs ! (p - 1)),
                    map se_id (drop (p - 1 + 1) segs)))"

definition start_offset :: "entry_index \<Rightarrow> segment_id \<Rightarrow> entry_id \<Rightarrow> nat" where
  "start_offset ix target last_valid =
     (case entry_find ix last_valid of
        None \<Rightarrow> MAGIC_LEN
      | Some pos \<Rightarrow> if segment pos = target then byte_offset pos else MAGIC_LEN)"

text \<open>Where the segment file is cut, read through a scanner on a fresh handle.\<close>

definition rollback_offset :: "segment_id \<Rightarrow> nat \<Rightarrow> entry_id \<Rightarrow> nat io" where
  "rollback_offset target start last_valid = and_then (open_segment target) (\<lambda>(f, _) w.
     case scanner_new f start w of
       (sc, w1) \<Rightarrow> (case fst (scan_to_after last_valid sc) of
          Inl _ \<Rightarrow> (Inl (Err InvalidData), w1) | Inr offset \<Rightarrow> (Inr offset, w1)))"

definition cut_segment :: "segment_id \<Rightarrow> nat \<Rightarrow> unit io" where
  "cut_segment target offset = and_then (open_segment_rw target) (\<lambda>(f, _).
     and_then (set_len f offset) (\<lambda>_. sync_all f))"

text \<open>\<open>active_first_entry\<close> comes from the seal if the segment still has one, else from the segment
  list.\<close>

definition rolled_back_first :: "store_state \<Rightarrow> segment_id \<Rightarrow> entry_id" where
  "rolled_back_first st target =
     (case seals st target of
        Some info \<Rightarrow> sealed_first info
      | None \<Rightarrow> (case find (\<lambda>e. se_id e = target) (segments st) of
                   Some e \<Rightarrow> se_first e | None \<Rightarrow> EntryId 0))"

definition store_truncate_end :: "'f crates \<Rightarrow> u64 \<Rightarrow> unit on_store" where
  "store_truncate_end C lv = (\<lambda>(s, w).
     let last_valid = EntryId lv in
     if (case last_entry s of None \<Rightarrow> True | Some l \<Rightarrow> l \<le> last_valid) then (Inr (), s, w)
     else case rollback_target (st_state s) last_valid of
       None \<Rightarrow> (Inl Panic, s, w)
     | Some (target, to_drop) \<Rightarrow>
         and_then (on_world (rollback_offset target
                     (start_offset (st_index s) target last_valid) last_valid)) (\<lambda>offset.
         and_then (on_world (cut_segment target offset)) (\<lambda>_.
         and_then (commit_op C (bare (TruncateEnd target (of_nat offset) to_drop))) (\<lambda>_.
         update_store (\<lambda>s. s\<lparr>open_files := open_files s |` (- insert target (set to_drop)),
                             active_id := target, active_cursor := cursor_new offset,
                             last_entry := Some last_valid, rollover_pending := False,
                             st_index := entry_truncate_end last_valid (st_index s),
                             active_first_entry := rolled_back_first (st_state s) target,
                             active_entry_count := 0\<rparr>)))) (s, w))"

section \<open>Cleanup and metadata\<close>

definition delete_dead_segments :: "'f crates \<Rightarrow> nat on_store" where
  "delete_dead_segments C = (\<lambda>(s, w).
     let doomed = hash_order C (dead (st_state s))
     in and_then (for_each (\<lambda>i. and_then (on_world (delete_segment i))
                                 (\<lambda>_. commit_op C (bare (SegmentDeleted i)))) doomed)
          (\<lambda>_. ok (length doomed)) (s, w))"

definition store_metadata :: "store \<Rightarrow> (u8 \<times> bytes) list" where
  "store_metadata s = metadata (st_state s)"

definition write_metadata :: "'f crates \<Rightarrow> (u8 \<times> bytes) list \<Rightarrow> unit on_store" where
  "write_metadata C pairs = commit_op C (with_meta Metadata pairs)"

end
