(* ===== verification/Crash_Image.thy ===== *)
theory Crash_Image
  imports Store
begin

text \<open>
  What a crash can leave behind, and what the scan of \<^verbatim>\<open>src/scan.rs\<close> says of it. A \<open>crash_image\<close> is a
  directory whose manifest holds operations \<open>ms\<close> that lead to state \<open>st\<close>, followed by a piece of a frame
  shorter than a header (\<open>mtail\<close>); whose live segments hold whole frames, the active one followed by a
  piece of a frame (\<open>tail\<close>); and that may hold segment files the manifest does not know of, and lack
  files of dead segments.
\<close>

section \<open>The image\<close>

definition tail_of :: "store_state \<Rightarrow> bytes \<Rightarrow> segment_id \<Rightarrow> bytes" where
  "tail_of st tail i = (if active_segment_id st = Some i then tail else [])"

definition crash_image :: "'f crates \<Rightarrow> manifest_op list \<Rightarrow> store_state \<Rightarrow> (segment_id \<Rightarrow> frame list)
    \<Rightarrow> bytes \<Rightarrow> bytes \<Rightarrow> world \<Rightarrow> bool" where
  "crash_image C ms st fs mtail tail w \<longleftrightarrow>
     healthy w \<and> wf_world w \<and> base_dir_exists w
     \<and> run_ops ms = Some st \<and> (\<forall>m \<in> set ms. op_writable C m) \<and> wf_state st \<and> segments st \<noteq> []
     \<and> content w MANIFEST_FILE_NAME = Some (MANIFEST_MAGIC @ ops_bytes C ms @ mtail)
     \<and> (mtail = [] \<or> torn_piece C mtail \<and> length mtail < HEADER_LEN)
     \<and> (tail = [] \<or> torn_piece C tail)
     \<and> (\<forall>i \<in> set (ids_of st). (\<forall>f \<in> set (fs i). fits f) \<and>
          content w (segment_path i) =
            Some (SEGMENT_MAGIC @ frames_bytes C (fs i) @ tail_of st tail i))
     \<and> (\<forall>i info. seals st i = Some info \<longrightarrow>
          unat (final_size info) = MAGIC_LEN + length (frames_bytes C (fs i)))
     \<and> (\<forall>n c. content w n = Some c \<longrightarrow> n = MANIFEST_FILE_NAME \<or> n \<in> range segment_path)"

lemma image_segment:
  assumes "crash_image C ms st fs mtail tail w" and "i \<in> set (ids_of st)"
  shows "content w (segment_path i) = Some (SEGMENT_MAGIC @ frames_bytes C (fs i) @ tail_of st tail i)"
    and "\<forall>f \<in> set (fs i). fits f"
  using assms unfolding crash_image_def by blast+

lemma image_world:
  assumes "crash_image C ms st fs mtail tail w"
  shows "healthy w" "wf_world w" "base_dir_exists w" "wf_state st" "segments st \<noteq> []"
    "content w MANIFEST_FILE_NAME = Some (MANIFEST_MAGIC @ ops_bytes C ms @ mtail)"
    "run_ops ms = Some st" "\<forall>m \<in> set ms. op_writable C m"
  using assms by (simp_all add: crash_image_def)

definition on_disk :: "world \<Rightarrow> segment_id set" where
  "on_disk w = {i. content w (segment_path i) \<noteq> None}"

text \<open>What has been synchronised does not matter to it.\<close>

lemma image_stored [simp]:
  "crash_image C ms st fs mtail tail (store_file n c w) = crash_image C ms st fs mtail tail (put_content n c w)"
  "on_disk (store_file n c w) = on_disk (put_content n c w)"
  unfolding crash_image_def on_disk_def by (auto simp: store_file_def simp del: store_file_folds)

text \<open>What the scan reports of a segment, and the issues of an image.\<close>

definition image_report :: "'f crates \<Rightarrow> bytes \<Rightarrow> frame list \<Rightarrow> segment_id \<Rightarrow> segment_report" where
  "image_report C tail fs i =
     \<lparr>report_id = i, num_entries = length fs,
      write_offset = (if tail = [] then MAGIC_LEN + length (frames_bytes C fs) else 0),
      report_last = last_frame_id fs,
      report_index = segment_index_new (marks INDEX_STRIDE 0 MAGIC_LEN fs)\<rparr>"

definition torn_issues :: "'f crates \<Rightarrow> bytes \<Rightarrow> frame list \<Rightarrow> segment_id \<Rightarrow> issue_report" where
  "torn_issues C tail fs i = (if tail = [] then [] else
     [\<lparr>issue_file = Segment i,
       the_issue = ActiveSegmentTornTail (MAGIC_LEN + length (frames_bytes C fs))\<rparr>])"

definition orphans :: "store_state \<Rightarrow> world \<Rightarrow> segment_id list" where
  "orphans st w = sorted_list_of_set (on_disk w - tracked st)"

definition missing_dead :: "'f crates \<Rightarrow> store_state \<Rightarrow> world \<Rightarrow> segment_id list" where
  "missing_dead C st w = filter (\<lambda>i. i \<notin> on_disk w) (hash_order C (dead st))"

definition image_issues :: "'f crates \<Rightarrow> manifest_op list \<Rightarrow> store_state \<Rightarrow> (segment_id \<Rightarrow> frame list)
    \<Rightarrow> bytes \<Rightarrow> bytes \<Rightarrow> world \<Rightarrow> issue_report" where
  "image_issues C ms st fs mtail tail w =
     (if mtail = [] then [] else
        [\<lparr>issue_file = Manifest,
          the_issue = ManifestTornTail (MAGIC_LEN + length (ops_bytes C ms))\<rparr>])
     @ map (\<lambda>i. \<lparr>issue_file = Segment i, the_issue = OrphanSegmentFound\<rparr>) (orphans st w)
     @ map (\<lambda>i. \<lparr>issue_file = Segment i, the_issue = DeadSegmentNotFound\<rparr>) (missing_dead C st w)
     @ torn_issues C tail (fs (last (ids_of st))) (last (ids_of st))"

section \<open>Scanning the segments\<close>

lemma fold_push_issue:
  "fold (\<lambda>i. push_issue (Segment i) iss) is r
     = r @ map (\<lambda>i. \<lparr>issue_file = Segment i, the_issue = iss\<rparr>) is"
  by (induction "is" arbitrary: r) (auto simp: push_issue_def)

lemma scan_file:
  assumes "healthy w" and "content w n = Some (magic @ frames_bytes C fs @ tail)"
    and "length magic = MAGIC_LEN" and "\<forall>f \<in> set fs. fits f" and "tail = [] \<or> torn_piece C tail"
  shows "\<exists>sc. scanner_new \<lparr>path = n, cursor_at = MAGIC_LEN\<rparr> MAGIC_LEN w = (sc, w)
    \<and> fst (scan_all C stride sc) = Inr
        \<lparr>count = length fs, checkpoints = marks stride 0 MAGIC_LEN fs, last_id = last_frame_id fs,
         next_offset = MAGIC_LEN + length (frames_bytes C fs),
         status = (if tail = [] then Clean else TornTail)\<rparr>"
proof -
  define sc where "sc = \<lparr>stream = frames_bytes C fs @ tail, stream_end = None, chunk = 8191,
    position = MAGIC_LEN, peeked = None\<rparr>"
  have "scanner_new \<lparr>path = n, cursor_at = MAGIC_LEN\<rparr> MAGIC_LEN w = (sc, w)"
    using assms(1-3) by (simp add: scanner_new_def read_stream_def sc_def)
  moreover have "fst (scan_all C stride sc) = Inr
        \<lparr>count = length fs, checkpoints = marks stride 0 (position sc) fs, last_id = last_frame_id fs,
         next_offset = position sc + length (frames_bytes C fs),
         status = (if tail = [] then Clean else TornTail)\<rparr>"
    by (rule scan_all_frames [OF assms(4)]) (use assms(5) in \<open>simp_all add: sc_def\<close>)
  ultimately show ?thesis by (simp add: sc_def)
qed

lemma scan_segment_image:
  assumes "healthy w" and "content w (segment_path i) = Some (SEGMENT_MAGIC @ frames_bytes C fs @ tail)"
    and "\<forall>f \<in> set fs. fits f" and "tail = [] \<or> torn_piece C tail"
    and "expected \<noteq> None \<Longrightarrow> tail = [] \<and> expected = Some (MAGIC_LEN + length (frames_bytes C fs))"
  shows "scan_segment C i expected (iss, w)
    = (image_report C tail fs i, iss @ torn_issues C tail fs i, w)"
proof -
  obtain sc where sc: "scanner_new \<lparr>path = segment_path i, cursor_at = MAGIC_LEN\<rparr> MAGIC_LEN w = (sc, w)"
    and all: "fst (scan_all C INDEX_STRIDE sc) = Inr
        \<lparr>count = length fs, checkpoints = marks INDEX_STRIDE 0 MAGIC_LEN fs, last_id = last_frame_id fs,
         next_offset = MAGIC_LEN + length (frames_bytes C fs),
         status = (if tail = [] then Clean else TornTail)\<rparr>"
    using scan_file [OF assms(1,2) length_magic(1) assms(3,4)] by blast
  have size: "size_issue i expected w = (None, w)"
    using assms(1,2,5)
    by (auto simp: size_issue_def segment_size_def metadata_len_def split: option.split)
  have opn: "open_segment i w = (Inr (\<lparr>path = segment_path i, cursor_at = MAGIC_LEN\<rparr>, MAGIC_LEN), w)"
    unfolding open_segment_def by (rule open_checked_magic [OF assms(1,2)]) simp
  show ?thesis
    using assms(5)
    by (auto simp: scan_segment_def Let_def size opn sc all image_report_def torn_issues_def
        push_issue_def)
qed

lemma scan_segments_image:
  assumes "healthy w"
    and "\<forall>e \<in> set es. (\<forall>f \<in> set (fs (se_id e)). fits f) \<and>
          content w (segment_path (se_id e)) =
            Some (SEGMENT_MAGIC @ frames_bytes C (fs (se_id e)) @ tails (se_id e))
          \<and> (tails (se_id e) = [] \<or> torn_piece C (tails (se_id e)))
          \<and> (\<forall>info. seals st (se_id e) = Some info \<longrightarrow> tails (se_id e) = [] \<and>
               unat (final_size info) = MAGIC_LEN + length (frames_bytes C (fs (se_id e))))"
  shows "scan_segments C st es (iss, w) =
    (map (\<lambda>e. image_report C (tails (se_id e)) (fs (se_id e)) (se_id e)) es,
     iss @ concat (map (\<lambda>e. torn_issues C (tails (se_id e)) (fs (se_id e)) (se_id e)) es), w)"
  using assms(2)
proof (induction es arbitrary: iss)
  case (Cons e es)
  have "scan_segment C (se_id e) (map_option (\<lambda>info. unat (final_size info)) (seals st (se_id e))) (iss, w)
      = (image_report C (tails (se_id e)) (fs (se_id e)) (se_id e),
         iss @ torn_issues C (tails (se_id e)) (fs (se_id e)) (se_id e), w)"
    by (rule scan_segment_image [OF assms(1)]) (use Cons.prems in auto)
  with Cons show ?case by simp
qed simp

lemma image_segments:
  assumes "crash_image C ms st fs mtail tail w"
  shows "scan_segments C st (segments st) (iss, w) =
    (map (\<lambda>i. image_report C (tail_of st tail i) (fs i) i) (ids_of st),
     iss @ torn_issues C tail (fs (last (ids_of st))) (last (ids_of st)), w)"
proof -
  have wf: "wf_state st" and ne: "segments st \<noteq> []" and w: "healthy w"
    using assms by (simp_all add: crash_image_def)
  have act: "active_segment_id st = Some (last (ids_of st))"
    using wf ne by (simp add: wf_state_def)
  have unsealed: "seals st (last (ids_of st)) = None"
    using wf_state_single [OF wf ne] by auto
  have all: "\<forall>e \<in> set (segments st). (\<forall>f \<in> set (fs (se_id e)). fits f) \<and>
          content w (segment_path (se_id e)) =
            Some (SEGMENT_MAGIC @ frames_bytes C (fs (se_id e)) @ tail_of st tail (se_id e))
          \<and> (tail_of st tail (se_id e) = [] \<or> torn_piece C (tail_of st tail (se_id e)))
          \<and> (\<forall>info. seals st (se_id e) = Some info \<longrightarrow> tail_of st tail (se_id e) = [] \<and>
               unat (final_size info) = MAGIC_LEN + length (frames_bytes C (fs (se_id e))))"
    using assms unsealed act by (auto simp: crash_image_def tail_of_def)
  have torn: "concat (map (\<lambda>i. torn_issues C (tail_of st tail i) (fs i) i) (ids_of st))
      = torn_issues C tail (fs (last (ids_of st))) (last (ids_of st))"
  proof -
    obtain pre l where ids: "ids_of st = pre @ [l]"
      using ne by (cases "ids_of st" rule: rev_cases) auto
    have "distinct (pre @ [l])" using wf ids by (simp add: wf_state_def)
    moreover have "active_segment_id st = Some l" using act ids by simp
    ultimately have "\<forall>i \<in> set pre. torn_issues C (tail_of st tail i) (fs i) i = []"
      and "tail_of st tail l = tail"
      by (auto simp: tail_of_def torn_issues_def)
    then show ?thesis by (simp add: ids)
  qed
  show ?thesis
    using scan_segments_image [OF w all, of iss] torn by (simp add: o_def)
qed

section \<open>Scanning the store\<close>

lemma filter_sorted_list_of_set:
  "finite A \<Longrightarrow> filter (\<lambda>x. x \<notin> B) (sorted_list_of_set A) = sorted_list_of_set (A - B)"
  by (rule sorted_distinct_set_unique) (auto intro: sorted_wrt_filter)

lemma collect_on_disk:
  assumes "healthy w" and "wf_world w" and "base_dir_exists w"
    and "\<forall>n c. content w n = Some c \<longrightarrow> n = MANIFEST_FILE_NAME \<or> n \<in> range segment_path"
  shows "collect_segment_ids w = (Inr (sorted_list_of_set (on_disk w)), w)"
proof -
  obtain ids where ids: "collect_segment_ids w = (Inr ids, w)" "sorted ids" "distinct ids"
    "set ids = on_disk w"
    using collect_listing [OF assms] by (auto simp: on_disk_def)
  then have "ids = sorted_list_of_set (on_disk w)"
    by (intro sorted_distinct_set_unique) simp_all
  with ids show ?thesis by simp
qed

lemma run_ops_Some: "run_ops ms = Some st \<longleftrightarrow> for_each apply_manifest_op ms empty_state = (Inr (), st)"
  by (auto simp: run_ops_def split: prod.splits sum.splits)

lemma image_manifest_open:
  assumes "crash_image C ms st fs mtail tail w"
  shows "open_manifest_read w = (Inr (manifest_handle, MAGIC_LEN), w)"
    and "open_manifest_rw w = (Inr (manifest_handle, MAGIC_LEN), w)"
proof -
  have "healthy w" "content w MANIFEST_FILE_NAME = Some (MANIFEST_MAGIC @ ops_bytes C ms @ mtail)"
    using assms by (simp_all add: crash_image_def)
  from open_checked_magic [OF this length_magic(2)]
  show "open_manifest_read w = (Inr (manifest_handle, MAGIC_LEN), w)"
    and "open_manifest_rw w = (Inr (manifest_handle, MAGIC_LEN), w)"
    by (simp_all add: open_manifest_read_def open_manifest_rw_def manifest_handle_def)
qed

text \<open>Replaying stops before a torn header.\<close>

lemma replay_whole:
  assumes w: "healthy w" and c: "content w MANIFEST_FILE_NAME = Some (MANIFEST_MAGIC @ ops_bytes C ms @ mtail)"
    and ms: "run_ops ms = Some st" "\<forall>m \<in> set ms. op_writable C m"
    and mtail: "mtail = [] \<or> torn_piece C mtail \<and> length mtail < HEADER_LEN"
  shows "open_manifest_read w = (Inr (manifest_handle, MAGIC_LEN), w)"
    and "replay C manifest_handle MAGIC_LEN w
      = (Inr \<lparr>replayed = st, replay_next = MAGIC_LEN + length (ops_bytes C ms)\<rparr>, w)"
proof -
  have run: "for_each apply_manifest_op ms empty_state = (Inr (), st)" using ms(1) by (simp add: run_ops_Some)
  obtain sc where opn: "open_manifest_read w = (Inr (manifest_handle, MAGIC_LEN), w)"
    and rp: "replay C manifest_handle MAGIC_LEN w = (replay_loop C st (position sc) sc, w)"
    and sc: "stream sc = mtail" "peeked sc = None" "stream_end sc = None"
      "position sc = MAGIC_LEN + length (ops_bytes C ms)"
    by (rule replay_written [OF w c ms(2) run]) blast
  show "open_manifest_read w = (Inr (manifest_handle, MAGIC_LEN), w)" by (rule opn)
  have "length mtail < HEADER_LEN" using mtail by (auto simp: HEADER_LEN_def)
  then show "replay C manifest_handle MAGIC_LEN w
      = (Inr \<lparr>replayed = st, replay_next = MAGIC_LEN + length (ops_bytes C ms)\<rparr>, w)"
    using rp sc by (simp add: replay_loop_end)
qed

text \<open>The manifest's part of a scan, which asks nothing of the segment files.\<close>

lemma scan_store_files:
  assumes w: "healthy w" "base_dir_exists w"
    and c: "content w MANIFEST_FILE_NAME = Some (MANIFEST_MAGIC @ ops_bytes C ms @ mtail)"
    and ms: "run_ops ms = Some st" "\<forall>m \<in> set ms. op_writable C m" "segments st \<noteq> []"
    and mtail: "mtail = [] \<or> torn_piece C mtail \<and> length mtail < HEADER_LEN"
  shows "scan_store C w = scan_files C
      (if mtail = [] then [] else
        [\<lparr>issue_file = Manifest, the_issue = ManifestTornTail (MAGIC_LEN + length (ops_bytes C ms))\<rparr>])
      \<lparr>replayed = st, replay_next = MAGIC_LEN + length (ops_bytes C ms)\<rparr> w"
proof -
  let ?r = "\<lparr>replayed = st, replay_next = MAGIC_LEN + length (ops_bytes C ms)\<rparr>"
  have fits: "\<forall>f \<in> set (map (op_frame C) ms). fits f" using ms(2) by (auto simp: op_writable_def)
  have torn: "mtail = [] \<or> torn_piece C mtail" using mtail by blast
  obtain sc where sc: "scanner_new manifest_handle MAGIC_LEN w = (sc, w)"
    and all: "fst (scan_all C 1 sc) = Inr
        \<lparr>count = length (map (op_frame C) ms), checkpoints = marks 1 0 MAGIC_LEN (map (op_frame C) ms),
         last_id = last_frame_id (map (op_frame C) ms),
         next_offset = MAGIC_LEN + length (ops_bytes C ms),
         status = (if mtail = [] then Clean else TornTail)\<rparr>"
    using scan_file [OF w(1) c length_magic(2) fits torn] by (auto simp: manifest_handle_def)
  note rp = replay_whole [OF w(1) c ms(1,2) mtail]
  have rep: "scan_replay C MAGIC_LEN iss w = scan_files C iss ?r w" for iss
    using ms(3) rp by (simp add: scan_replay_def is_empty_def)
  show ?thesis using w by (simp add: scan_store_def rp(1) sc all rep push_issue_def del: One_nat_def)
qed

lemma image_files:
  assumes "crash_image C ms st fs mtail tail w"
  shows "scan_files C iss \<lparr>replayed = st, replay_next = nxt\<rparr> w =
    (\<lparr>report_state = st, manifest_next_offset = nxt,
      segment_reports = map (\<lambda>i. image_report C (tail_of st tail i) (fs i) i) (ids_of st),
      report_issues = iss
        @ map (\<lambda>i. \<lparr>issue_file = Segment i, the_issue = OrphanSegmentFound\<rparr>) (orphans st w)
        @ map (\<lambda>i. \<lparr>issue_file = Segment i, the_issue = DeadSegmentNotFound\<rparr>) (missing_dead C st w)
        @ torn_issues C tail (fs (last (ids_of st))) (last (ids_of st))\<rparr>, w)"
proof -
  have "collect_segment_ids w = (Inr (sorted_list_of_set (on_disk w)), w)"
    using assms by (intro collect_on_disk) (simp_all add: crash_image_def)
  moreover have "find_orphans st (sorted_list_of_set (on_disk w)) iss
      = iss @ map (\<lambda>i. \<lparr>issue_file = Segment i, the_issue = OrphanSegmentFound\<rparr>) (orphans st w)"
    using filter_sorted_list_of_set [of "on_disk w" "tracked st"]
    by (simp add: find_orphans_def fold_push_issue orphans_def tracked_def)
  moreover have "find_missing_dead C st (sorted_list_of_set (on_disk w)) r
      = r @ map (\<lambda>i. \<lparr>issue_file = Segment i, the_issue = DeadSegmentNotFound\<rparr>) (missing_dead C st w)" for r
    by (simp add: find_missing_dead_def fold_push_issue missing_dead_def)
  ultimately show ?thesis
    by (simp add: scan_files_def image_segments [OF assms])
qed

lemma scan_image:
  assumes "crash_image C ms st fs mtail tail w"
  shows "scan_store C w =
    (\<lparr>report_state = st, manifest_next_offset = MAGIC_LEN + length (ops_bytes C ms),
      segment_reports = map (\<lambda>i. image_report C (tail_of st tail i) (fs i) i) (ids_of st),
      report_issues = image_issues C ms st fs mtail tail w\<rparr>, w)"
proof -
  have "mtail = [] \<or> torn_piece C mtail \<and> length mtail < HEADER_LEN"
    using assms by (simp add: crash_image_def)
  with image_world [OF assms] show ?thesis
    by (simp add: scan_store_files image_files [OF assms] image_issues_def)
qed

end
