(* ===== verification/Crash_Recovery.thy ===== *)
theory Crash_Recovery
  imports Crash_Image
begin

text \<open>
  Recovery of a crash image by \<^verbatim>\<open>src/recovery.rs\<close>: the fix-ups its issues give are run phase by phase,
  each step leads to another crash image, and the last is clean, with every whole frame kept.
\<close>

section \<open>The fix-ups of an image\<close>

lemma sort_key_sorted: "sorted (map f xs) \<Longrightarrow> sort_key f xs = xs"
  by (induction xs) (auto simp: insort_is_Cons)

definition image_fixes :: "'f crates \<Rightarrow> manifest_op list \<Rightarrow> store_state \<Rightarrow> (segment_id \<Rightarrow> frame list)
    \<Rightarrow> bytes \<Rightarrow> bytes \<Rightarrow> world \<Rightarrow> fix_up list" where
  "image_fixes C ms st fs mtail tail w =
     (if mtail = [] then [] else
        [\<lparr>phase = ManifestFileClean, approval_required = False,
          action = TruncateManifest (MAGIC_LEN + length (ops_bytes C ms))\<rparr>])
     @ map (\<lambda>i. \<lparr>phase = ManifestAppends, approval_required = False, action = OrphanFound i\<rparr>)
         (orphans st w)
     @ map (\<lambda>i. \<lparr>phase = ManifestAppends, approval_required = False, action = DeadSegmentMissing i\<rparr>)
         (missing_dead C st w)
     @ (if tail = [] then [] else
          [\<lparr>phase = SegmentFileClean, approval_required = False,
            action = TruncateSegment (last (ids_of st))
              (MAGIC_LEN + length (frames_bytes C (fs (last (ids_of st)))))\<rparr>])"

lemma collect_fix_ups_append:
  "collect_fix_ups b xs = Inr fxs \<Longrightarrow> collect_fix_ups b ys = Inr gxs \<Longrightarrow>
     collect_fix_ups b (xs @ ys) = Inr (fxs @ gxs)"
  by (induction xs arbitrary: fxs) (auto split: option.splits if_splits sum.splits)

lemma collect_fix_ups_map:
  "(\<And>i. create_fix_up (g i) = Some (h i)) \<Longrightarrow> (\<And>i. \<not> approval_required (h i)) \<Longrightarrow>
     collect_fix_ups b (map g is) = Inr (map h is)"
  by (induction "is") simp_all

lemma collect_image_fixes:
  "collect_fix_ups b (image_issues C ms st fs mtail tail w) = Inr (image_fixes C ms st fs mtail tail w)"
  unfolding image_issues_def image_fixes_def
  by (intro collect_fix_ups_append collect_fix_ups_map)
     (simp_all add: create_fix_up_def issue_segment_id_def auto_fix_def torn_issues_def)

lemma sorted_map_const: "sorted (map (\<lambda>x. c) xs)"
  by (induction xs) auto

lemma image_fixes_sorted: "sort_key phase (image_fixes C ms st fs mtail tail w) = image_fixes C ms st fs mtail tail w"
  by (rule sort_key_sorted)
     (auto simp: image_fixes_def sorted_append less_eq_fix_up_phase_def o_def sorted_map_const)

section \<open>Each fix-up leads to another image\<close>

lemma for_each_append: "for_each f (xs @ ys) = and_then (for_each f xs) (\<lambda>_. for_each f ys)"
  by (induction xs) (simp_all add: and_then_assoc, simp add: and_then_def)

lemma for_each_Inr: "f x s = (Inr u, t) \<Longrightarrow> for_each f (x # xs) s = for_each f xs t"
  by (simp add: and_then_def)

lemma io_error_Inr: "m w = (Inr a, w') \<Longrightarrow> io_error m w = (Inr a, w')"
  by (simp add: io_error_def map_err_def)

lemma run_ops_snoc:
  "run_ops ms = Some st \<Longrightarrow> op_error st (the_op m) = None \<Longrightarrow>
     run_ops (ms @ [m]) = Some (snd (apply_manifest_op m st))"
  by (simp add: run_ops_Some for_each_append and_then_def apply_manifest_op_result ok_def)

lemma image_cut_manifest:
  assumes img: "crash_image C ms st fs mtail tail w"
  obtains w' where "truncate_manifest (MAGIC_LEN + length (ops_bytes C ms)) w = (Inr (), w')"
    and "crash_image C ms st fs [] tail w'" and "on_disk w' = on_disk w"
proof -
  let ?w = "store_file MANIFEST_FILE_NAME (MANIFEST_MAGIC @ ops_bytes C ms) w"
  have h: "healthy w"
    and c: "content w MANIFEST_FILE_NAME = Some (MANIFEST_MAGIC @ ops_bytes C ms @ mtail)"
    using img by (simp_all add: crash_image_def)
  have "truncate_manifest (MAGIC_LEN + length (ops_bytes C ms)) w = (Inr (), ?w)"
    using h c image_manifest_open(2) [OF img]
    by (simp add: truncate_manifest_def and_then_def io_error_def map_err_def set_len_def
        manifest_handle_def)
  moreover have "crash_image C ms st fs [] tail ?w"
    using img by (auto simp: crash_image_def)
  moreover have "on_disk ?w = on_disk w" by (simp add: on_disk_def)
  ultimately show thesis by (rule that)
qed

lemma image_cut_segment:
  assumes img: "crash_image C ms st fs mtail tail w" and i: "i = last (ids_of st)"
  obtains w' where "truncate_segment i (MAGIC_LEN + length (frames_bytes C (fs i))) w = (Inr (), w')"
    and "crash_image C ms st fs mtail [] w'" and "on_disk w' = on_disk w"
proof -
  let ?n = "segment_path i"
  let ?w = "store_file ?n (SEGMENT_MAGIC @ frames_bytes C (fs i)) w"
  have h: "healthy w" and ne: "segments st \<noteq> []" and wf: "wf_state st"
    using img by (simp_all add: crash_image_def)
  have act: "active_segment_id st = Some i" and mem: "i \<in> set (ids_of st)"
    using wf ne i last_in_set [of "ids_of st"] by (simp_all add: wf_state_def)
  then have c: "content w ?n = Some (SEGMENT_MAGIC @ frames_bytes C (fs i) @ tail)"
    using image_segment(1) [OF img mem] by (simp add: tail_of_def)
  have "open_segment_rw i w = (Inr (\<lparr>path = ?n, cursor_at = MAGIC_LEN\<rparr>, MAGIC_LEN), w)"
    unfolding open_segment_rw_def by (rule open_checked_magic [OF h c]) simp
  then have "truncate_segment i (MAGIC_LEN + length (frames_bytes C (fs i))) w = (Inr (), ?w)"
    using h c by (simp add: truncate_segment_def and_then_def io_error_def map_err_def set_len_def)
  moreover have "crash_image C ms st fs mtail [] ?w"
    using img act mem by (auto simp: crash_image_def tail_of_def)
  moreover have "on_disk ?w = on_disk w" using c by (auto simp: on_disk_def)
  ultimately show thesis by (rule that)
qed

lemma image_append:
  assumes img: "crash_image C ms st fs [] tail w" and wr: "op_writable C (bare p)"
    and err: "op_error st p = None" and wf: "wf_state (snd (apply_op p st))"
    and same: "segments (snd (apply_op p st)) = segments st" "seals (snd (apply_op p st)) = seals st"
      "active_segment_id (snd (apply_op p st)) = active_segment_id st"
  obtains w' where "append_manifest_op C p w = (Inr (), w')"
    and "crash_image C (ms @ [bare p]) (snd (apply_op p st)) fs [] tail w'" and "on_disk w' = on_disk w"
proof -
  let ?c = "MANIFEST_MAGIC @ ops_bytes C ms"
  let ?w = "store_file MANIFEST_FILE_NAME (?c @ frame_bytes C (op_frame C (bare p))) w"
  have h: "healthy w" and c: "content w (path manifest_handle) = Some ?c"
    using img by (simp_all add: crash_image_def manifest_handle_def)
  have "append_manifest_op C p w = (Inr (), ?w)"
    using h c image_manifest_open(2) [OF img] write_op_healthy [OF h c refl, of C "bare p"]
    by (simp add: append_manifest_op_def and_then_def io_error_def map_err_def metadata_len_def
        manifest_handle_def)
  moreover have "run_ops (ms @ [bare p]) = Some (snd (apply_op p st))"
    using run_ops_snoc [of ms st "bare p"] img err
    by (simp add: crash_image_def bare_def apply_manifest_op_result)
  then have "crash_image C (ms @ [bare p]) (snd (apply_op p st)) fs [] tail ?w"
    using img wr wf same by (auto simp: crash_image_def tail_of_def)
  moreover have "on_disk ?w = on_disk w" by (simp add: on_disk_def)
  ultimately show thesis by (rule that)
qed

section \<open>The whole recovery\<close>

definition recovery_ops :: "'f crates \<Rightarrow> store_state \<Rightarrow> world \<Rightarrow> manifest_op list" where
  "recovery_ops C st w = map (\<lambda>i. bare (RecordOrphan i)) (orphans st w)
     @ map (\<lambda>i. bare (SegmentDeleted i)) (missing_dead C st w)"

abbreviation with_dead :: "segment_id set \<Rightarrow> store_state \<Rightarrow> store_state" where
  "with_dead D st \<equiv> st\<lparr>dead := D\<rparr>"

definition recovery_writable :: "'f crates \<Rightarrow> bool" where
  "recovery_writable C \<longleftrightarrow>
     (\<forall>i. op_writable C (bare (RecordOrphan i)) \<and> op_writable C (bare (SegmentDeleted i)))"

lemma wf_with_dead: "wf_state st \<Longrightarrow> set (ids_of st) \<inter> D = {} \<Longrightarrow> wf_state (with_dead D st)"
  by (simp add: wf_state_def)

lemma image_orphans:
  assumes "crash_image C ms st fs [] tail w" and "recovery_writable C"
    and "set is \<inter> set (ids_of st) = {}"
  shows "\<exists>w'. for_each (\<lambda>i. apply_fix_up C (OrphanFound i)) is w = (Inr (), w')
    \<and> crash_image C (ms @ map (\<lambda>i. bare (RecordOrphan i)) is) (with_dead (dead st \<union> set is) st)
        fs [] tail w' \<and> on_disk w' = on_disk w"
  using assms
proof (induction "is" arbitrary: ms st w)
  case Nil
  then show ?case by (simp add: ok_def)
next
  case (Cons i js)
  let ?p = "RecordOrphan i"
  have st: "snd (apply_op ?p st) = with_dead (insert i (dead st)) st" by simp
  have wr: "op_writable C (bare ?p)" using Cons.prems(2) by (simp add: recovery_writable_def)
  have wf: "wf_state (snd (apply_op ?p st))"
    unfolding st using image_world(4) [OF Cons.prems(1)] Cons.prems(3)
    by (intro wf_with_dead) (auto simp: wf_state_def)
  obtain w1 where w1: "append_manifest_op C ?p w = (Inr (), w1)"
    "crash_image C (ms @ [bare ?p]) (with_dead (insert i (dead st)) st) fs [] tail w1"
    "on_disk w1 = on_disk w"
    by (rule image_append [OF Cons.prems(1) wr _ wf]) (simp_all add: st)
  have "set js \<inter> set (ids_of (with_dead (insert i (dead st)) st)) = {}" using Cons.prems(3) by auto
  from Cons.IH [OF w1(2) Cons.prems(2) this]
  obtain w' where "for_each (\<lambda>i. apply_fix_up C (OrphanFound i)) js w1 = (Inr (), w')"
    "crash_image C ((ms @ [bare ?p]) @ map (\<lambda>i. bare (RecordOrphan i)) js)
       (with_dead (insert i (dead st) \<union> set js) st) fs [] tail w'" "on_disk w' = on_disk w1"
    by auto
  with w1 show ?case
    by (intro exI [of _ w']) (simp add: and_then_def orphan_found_def)
qed

lemma image_missing:
  assumes "crash_image C ms st fs [] tail w" and "recovery_writable C"
    and "set is \<subseteq> dead st" and "distinct is"
  shows "\<exists>w'. for_each (\<lambda>i. apply_fix_up C (DeadSegmentMissing i)) is w = (Inr (), w')
    \<and> crash_image C (ms @ map (\<lambda>i. bare (SegmentDeleted i)) is) (with_dead (dead st - set is) st)
        fs [] tail w' \<and> on_disk w' = on_disk w"
  using assms
proof (induction "is" arbitrary: ms st w)
  case Nil
  then show ?case by (simp add: ok_def)
next
  case (Cons i js)
  let ?p = "SegmentDeleted i"
  have st: "snd (apply_op ?p st) = with_dead (dead st - {i}) st" and e: "op_error st ?p = None"
    using Cons.prems(3) by (simp_all add: segment_deleted_def)
  have wr: "op_writable C (bare ?p)" using Cons.prems(2) by (simp add: recovery_writable_def)
  have wf: "wf_state (snd (apply_op ?p st))"
    unfolding st using image_world(4) [OF Cons.prems(1)] Cons.prems(3)
    by (intro wf_with_dead) (auto simp: wf_state_def)
  obtain w1 where w1: "append_manifest_op C ?p w = (Inr (), w1)"
    "crash_image C (ms @ [bare ?p]) (with_dead (dead st - {i}) st) fs [] tail w1"
    "on_disk w1 = on_disk w"
    by (rule image_append [OF Cons.prems(1) wr e wf]) (simp_all add: st del: apply_op.simps)
  have sub: "set js \<subseteq> dead (with_dead (dead st - {i}) st)" "distinct js" using Cons.prems(3,4) by auto
  from Cons.IH [OF w1(2) Cons.prems(2) sub]
  obtain w' where "for_each (\<lambda>i. apply_fix_up C (DeadSegmentMissing i)) js w1 = (Inr (), w')"
    "crash_image C ((ms @ [bare ?p]) @ map (\<lambda>i. bare (SegmentDeleted i)) js)
       (with_dead (dead st - {i} - set js) st) fs [] tail w'" "on_disk w' = on_disk w1"
    by auto
  moreover have "dead st - {i} - set js = dead st - set (i # js)" by auto
  ultimately show ?case
    using w1(1,3) by (intro exI [of _ w']) (simp add: and_then_def dead_segment_missing_def)
qed

lemma for_each_map: "for_each f (map g xs) = for_each (\<lambda>x. f (g x)) xs"
  by (induction xs) simp_all

lemma recovery_image:
  assumes img: "crash_image C ms st fs mtail tail w" and wr: "recovery_writable C" and ord: "order_ok C"
    and iss: "report_issues report = image_issues C ms st fs mtail tail w"
  shows "\<exists>w'. attempt_recovery C report b w = (Inr (), w')
    \<and> crash_image C (ms @ recovery_ops C st w) (with_dead (on_disk w - set (ids_of st)) st) fs [] [] w'
    \<and> on_disk w' = on_disk w"
proof -
  let ?f = "\<lambda>fx. apply_fix_up C (action fx)"
  let ?l = "last (ids_of st)"
  let ?st1 = "with_dead (dead st \<union> set (orphans st w)) st"
  let ?D = "on_disk w - set (ids_of st)"
  have orph: "set (orphans st w) = on_disk w - tracked st" by (simp add: orphans_def)
  have miss: "set (missing_dead C st w) = dead st - on_disk w" "distinct (missing_dead C st w)"
    using ord by (auto simp: missing_dead_def)
  obtain w1 where w1: "for_each ?f (if mtail = [] then [] else
        [\<lparr>phase = ManifestFileClean, approval_required = False,
          action = TruncateManifest (MAGIC_LEN + length (ops_bytes C ms))\<rparr>]) w = (Inr (), w1)"
    "crash_image C ms st fs [] tail w1" "on_disk w1 = on_disk w"
  proof (cases "mtail = []")
    case True
    with img show thesis by (intro that [of w]) (simp_all add: ok_def)
  next
    case False
    obtain w1 where "truncate_manifest (MAGIC_LEN + length (ops_bytes C ms)) w = (Inr (), w1)"
      "crash_image C ms st fs [] tail w1" "on_disk w1 = on_disk w"
      by (rule image_cut_manifest [OF img])
    with False show thesis by (intro that [of w1]) (simp_all add: and_then_def ok_def)
  qed
  have dis: "set (orphans st w) \<inter> set (ids_of st) = {}" by (auto simp: orph tracked_def)
  obtain w2 where w2: "for_each (\<lambda>i. apply_fix_up C (OrphanFound i)) (orphans st w) w1 = (Inr (), w2)"
    "crash_image C (ms @ map (\<lambda>i. bare (RecordOrphan i)) (orphans st w)) ?st1 fs [] tail w2"
    "on_disk w2 = on_disk w1"
    using image_orphans [OF w1(2) wr dis] by blast
  have sub: "set (missing_dead C st w) \<subseteq> dead ?st1" by (auto simp: miss)
  obtain w3 where w3:
    "for_each (\<lambda>i. apply_fix_up C (DeadSegmentMissing i)) (missing_dead C st w) w2 = (Inr (), w3)"
    "crash_image C ((ms @ map (\<lambda>i. bare (RecordOrphan i)) (orphans st w))
        @ map (\<lambda>i. bare (SegmentDeleted i)) (missing_dead C st w))
      (with_dead (dead ?st1 - set (missing_dead C st w)) ?st1) fs [] tail w3" "on_disk w3 = on_disk w2"
    using image_missing [OF w2(2) wr sub miss(2)] by blast
  have "set (ids_of st) \<inter> dead st = {}" using image_world(4) [OF img] by (simp add: wf_state_def)
  then have D: "dead ?st1 - set (missing_dead C st w) = ?D"
    by (auto simp: orph miss tracked_def)
  have img3: "crash_image C (ms @ recovery_ops C st w) (with_dead ?D st) fs [] tail w3"
    using w3(2) unfolding D by (simp add: recovery_ops_def)
  obtain w4 where w4: "for_each ?f (if tail = [] then [] else
          [\<lparr>phase = SegmentFileClean, approval_required = False,
            action = TruncateSegment ?l (MAGIC_LEN + length (frames_bytes C (fs ?l)))\<rparr>]) w3 = (Inr (), w4)"
    "crash_image C (ms @ recovery_ops C st w) (with_dead ?D st) fs [] [] w4" "on_disk w4 = on_disk w3"
  proof (cases "tail = []")
    case True
    with img3 show thesis by (intro that [of w3]) (simp_all add: ok_def)
  next
    case False
    obtain w4 where "truncate_segment ?l (MAGIC_LEN + length (frames_bytes C (fs ?l))) w3 = (Inr (), w4)"
      "crash_image C (ms @ recovery_ops C st w) (with_dead ?D st) fs [] [] w4" "on_disk w4 = on_disk w3"
      by (rule image_cut_segment [OF img3, of ?l]) simp_all
    with False show thesis by (intro that [of w4]) (simp_all add: and_then_def ok_def)
  qed
  have "for_each ?f (image_fixes C ms st fs mtail tail w) w = (Inr (), w4)"
    unfolding image_fixes_def
    using w1(1) w2(1) w3(1) w4(1) by (simp only: for_each_append for_each_map and_then_def prod.case
        sum.case fix_up.select_convs)
  then have "attempt_recovery C report b w = (Inr (), w4)"
    by (simp add: attempt_recovery_def iss collect_image_fixes image_fixes_sorted)
  with w1(3) w2(3) w3(3) w4(2,3) show ?thesis by auto
qed

text \<open>A clean image, with no file missing or unknown, has no issues.\<close>

lemma clean_image_issues:
  assumes "order_ok C" and "on_disk w = tracked st"
  shows "image_issues C ms st fs [] [] w = []"
  using assms by (simp add: image_issues_def orphans_def missing_dead_def torn_issues_def tracked_def
      filter_empty_conv)

lemma tracked_with_dead: "set (ids_of st) \<subseteq> X \<Longrightarrow> tracked (with_dead (X - set (ids_of st)) st) = X"
  by (auto simp: tracked_def)

lemma ids_on_disk: "crash_image C ms st fs mtail tail w \<Longrightarrow> set (ids_of st) \<subseteq> on_disk w"
  using image_segment(1) by (fastforce simp: on_disk_def)

end
