(* ===== verification/Store_Opens.thy ===== *)
theory Store_Opens
  imports Crash_Recovery
begin

text \<open>
  Opening a store of \<^verbatim>\<open>src/store.rs\<close> on a clean image and on a crash image. The relation \<open>store_ok\<close>
  between a store, its directory and the frames it holds is what opening establishes and the operations
  keep.
\<close>

section \<open>The index of an image\<close>

lemma marks_ids: "m \<in> set (marks stride k off fs) \<Longrightarrow> fst m \<in> fst ` set fs"
  by (induction fs arbitrary: k off) (auto split: if_splits)

lemma marks_sorted: "sorted_wrt (<) (map fst fs) \<Longrightarrow> sorted_wrt (<) (map fst (marks stride k off fs))"
proof (induction fs arbitrary: k off)
  case (Cons f fs)
  have "fst f < fst m" if "m \<in> set (marks stride (Suc k) (off + frame_len f) fs)" for m
    using marks_ids [OF that] Cons.prems by auto
  with Cons show ?case by auto
qed simp

lemma marks_ne: "marks stride 0 off fs = [] \<longleftrightarrow> fs = []"
  by (cases fs) simp_all

definition segment_marks :: "frame list \<Rightarrow> segment_index" where
  "segment_marks fs = segment_index_new (marks INDEX_STRIDE 0 MAGIC_LEN fs)"

lemma wf_segment_marks: "sorted_wrt (<) (map fst fs) \<Longrightarrow> wf_segment_index (segment_marks fs)"
  by (simp add: wf_segment_index_def segment_marks_def segment_index_new_def marks_sorted)

text \<open>The entries of a store ascend, only the last segment may be empty, and every entry lies in the
  range the manifest has for its segment.\<close>

definition entries_sorted :: "(segment_id \<Rightarrow> frame list) \<Rightarrow> segment_id list \<Rightarrow> bool" where
  "entries_sorted fs is \<longleftrightarrow> sorted_wrt (<) (map fst (concat (map fs is)))
     \<and> (\<forall>i \<in> set (butlast is). fs i \<noteq> [])"

definition entries_ok :: "(segment_id \<Rightarrow> frame list) \<Rightarrow> store_state \<Rightarrow> bool" where
  "entries_ok fs st \<longleftrightarrow> entries_sorted fs (ids_of st)
     \<and> (\<forall>e \<in> set (segments st). \<forall>f \<in> set (fs (se_id e)). se_first e \<le> fst f)
     \<and> (\<forall>i info. seals st i = Some info \<longrightarrow> (\<forall>f \<in> set (fs i). fst f \<le> sealed_last info))"

lemma entries_sorted_Cons:
  "entries_sorted fs (i # is) \<longleftrightarrow> sorted_wrt (<) (map fst (fs i)) \<and> entries_sorted fs is
     \<and> (is \<noteq> [] \<longrightarrow> fs i \<noteq> [])
     \<and> (\<forall>f \<in> set (fs i). \<forall>j \<in> set is. \<forall>g \<in> set (fs j). fst f < fst g)"
  by (auto simp: entries_sorted_def sorted_wrt_append)

lemma build_index_image:
  assumes "entries_sorted fs is" and "wf_entry_index ei"
    and "\<forall>m \<in> set (entry_marks ei). \<forall>i \<in> set is. \<forall>f \<in> set (fs i). checkpoint m < fst f"
    and "is = [] \<or> indexed ei = [] \<or> positions (last (indexed ei)) \<noteq> []"
  shows "\<exists>ix. build_index (map (\<lambda>i. image_report C (tails i) (fs i) i) is) ei = Some ix
    \<and> wf_entry_index ix
    \<and> entry_marks ix = entry_marks ei @ concat (map (\<lambda>i. positions (i, segment_marks (fs i))) is)"
  using assms
proof (induction "is" arbitrary: ei)
  case (Cons i js)
  note es = Cons.prems(1) [unfolded entries_sorted_Cons]
  have cps: "index_checkpoints (segment_marks (fs i)) = marks INDEX_STRIDE 0 MAGIC_LEN (fs i)"
    by (simp add: segment_marks_def segment_index_new_def)
  have wfi: "wf_segment_index (segment_marks (fs i))" using es by (intro wf_segment_marks) simp
  have above: "\<forall>m \<in> set (entry_marks ei). \<forall>c \<in> set (index_checkpoints (segment_marks (fs i))).
      checkpoint m < fst c"
    using Cons.prems(3) marks_ids unfolding cps by fastforce
  have last: "length (indexed ei) \<le> 1 \<or> positions (last (indexed ei)) \<noteq> []"
    using Cons.prems(4) by auto
  obtain ei1 where ei1: "add_segment i (segment_marks (fs i)) ei = Some ei1" "wf_entry_index ei1"
    "entry_marks ei1 = entry_marks ei @ positions (i, segment_marks (fs i))"
    using add_segment_keeps [OF Cons.prems(2) wfi above last] by blast
  have idx: "indexed ei1 = indexed ei @ [(i, segment_marks (fs i))]"
    using ei1(1) by (auto simp: add_segment_def split: if_splits)
  have "checkpoint m \<in> fst ` set (fs i)" if m: "m \<in> set (positions (i, segment_marks (fs i)))" for m
  proof -
    obtain c where "c \<in> set (marks INDEX_STRIDE 0 MAGIC_LEN (fs i))" "checkpoint m = fst c"
      using m by (auto simp: positions_def cps)
    then show ?thesis using marks_ids by metis
  qed
  then have "\<forall>m \<in> set (entry_marks ei1). \<forall>j \<in> set js. \<forall>f \<in> set (fs j). checkpoint m < fst f"
    using Cons.prems(3) es unfolding ei1(3) by fastforce
  moreover have "js = [] \<or> indexed ei1 = [] \<or> positions (last (indexed ei1)) \<noteq> []"
    using es by (auto simp: idx cps marks_ne)
  ultimately show ?case
    using Cons.IH [of ei1] es ei1 by (simp add: image_report_def segment_marks_def)
qed simp

section \<open>The active segment of a well-formed state\<close>

lemma active_segment_last:
  assumes "wf_state st" and "segments st \<noteq> []"
  shows "active_segment st = Some (last (segments st))"
proof -
  obtain es e where es: "segments st = es @ [e]" using assms(2) by (cases "segments st" rule: rev_cases) auto
  have "find (\<lambda>f. se_id f = se_id e) es = None"
    using assms(1) es by (auto simp: wf_state_def find_None_iff image_iff)
  then have "find (\<lambda>f. se_id f = se_id e) (es @ [e]) = Some e" by (simp add: find_append)
  with assms es show ?thesis by (simp add: active_segment_def wf_state_def last_map)
qed

lemma find_map_id:
  "(\<And>i. report_id (g i) = i) \<Longrightarrow> j \<in> set is \<Longrightarrow> find (\<lambda>r. report_id r = j) (map g is) = Some (g j)"
  by (induction "is") auto

section \<open>The relation between a store and its directory\<close>

text \<open>Every mark of the index stands at an entry of a live segment, with the offset of its frame; no
  entry lies behind the last one the store knows.\<close>

definition mark_ok :: "'f crates \<Rightarrow> (segment_id \<Rightarrow> frame list) \<Rightarrow> index_position \<Rightarrow> bool" where
  "mark_ok C fs m \<longleftrightarrow> (\<exists>k < length (fs (segment m)). checkpoint m = fst (fs (segment m) ! k)
     \<and> byte_offset m = MAGIC_LEN + length (frames_bytes C (take k (fs (segment m)))))"

definition index_ok :: "'f crates \<Rightarrow> (segment_id \<Rightarrow> frame list) \<Rightarrow> store_state \<Rightarrow> entry_index \<Rightarrow> bool" where
  "index_ok C fs st ix \<longleftrightarrow> wf_entry_index ix
     \<and> (\<forall>m \<in> set (entry_marks ix). segment m \<in> set (ids_of st) \<and> mark_ok C fs m)"

definition last_ok :: "(segment_id \<Rightarrow> frame list) \<Rightarrow> store_state \<Rightarrow> entry_id option \<Rightarrow> bool" where
  "last_ok fs st l \<longleftrightarrow>
     (\<forall>f \<in> set (concat (map fs (ids_of st))). \<exists>j. l = Some j \<and> fst f \<le> j)"

lemma marks_offsets:
  "m \<in> set (marks stride n off fs) \<Longrightarrow>
     \<exists>k < length fs. fst m = fst (fs ! k) \<and> snd m = off + length (frames_bytes C (take k fs))"
proof (induction fs arbitrary: n off)
  case (Cons f fs)
  show ?case
  proof (cases "m = (fst f, off)")
    case True
    then show ?thesis by (intro exI [of _ 0]) simp
  next
    case False
    then have "m \<in> set (marks stride (Suc n) (off + frame_len f) fs)"
      using Cons.prems by (auto split: if_splits)
    with Cons.IH obtain k where "k < length fs" "fst m = fst (fs ! k)"
      "snd m = off + frame_len f + length (frames_bytes C (take k fs))" by blast
    then show ?thesis by (intro exI [of _ "Suc k"]) simp
  qed
qed simp

lemma segment_marks_ok: "m \<in> set (positions (i, segment_marks (fs i))) \<Longrightarrow> segment m = i \<and> mark_ok C fs m"
  using marks_offsets [of _ INDEX_STRIDE 0 MAGIC_LEN "fs i" C]
  by (force simp: positions_def segment_marks_def segment_index_new_def mark_ok_def)

text \<open>After opening, the index holds the marks of every segment, among them its first entry.\<close>

definition index_full :: "(segment_id \<Rightarrow> frame list) \<Rightarrow> store_state \<Rightarrow> entry_index \<Rightarrow> bool" where
  "index_full fs st ix \<longleftrightarrow> entry_marks ix = concat (map (\<lambda>i. positions (i, segment_marks (fs i))) (ids_of st))"

lemma index_full_first:
  assumes "index_full fs st ix" and "i \<in> set (ids_of st)" and "fs i \<noteq> []"
  obtains m where "m \<in> set (entry_marks ix)" and "segment m = i" and "checkpoint m = fst (hd (fs i))"
proof -
  have "\<exists>m \<in> set (positions (i, segment_marks (fs i))). segment m = i \<and> checkpoint m = fst (hd (fs i))"
    using assms(3) by (cases "fs i") (auto simp: positions_def segment_marks_def segment_index_new_def)
  then obtain m where m: "m \<in> set (positions (i, segment_marks (fs i)))" "segment m = i"
    "checkpoint m = fst (hd (fs i))" by blast
  then have "m \<in> set (entry_marks ix)" using assms(1,2) unfolding index_full_def by auto
  then show thesis using m(2,3) by (rule that)
qed

lemma built_index:
  assumes "wf_entry_index ix" and "index_full fs st ix"
  shows "index_ok C fs st ix"
  using assms segment_marks_ok [of _ _ fs C] unfolding index_ok_def index_full_def by fastforce

definition store_ok :: "'f crates \<Rightarrow> manifest_op list \<Rightarrow> (segment_id \<Rightarrow> frame list) \<Rightarrow> frame list
    \<Rightarrow> store \<times> world \<Rightarrow> bool" where
  "store_ok C ms fs pend sw \<longleftrightarrow> (case sw of (s, w) \<Rightarrow>
     crash_image C ms (st_state s) fs [] [] w \<and> on_disk w = tracked (st_state s)
     \<and> entries_ok fs (st_state s)
     \<and> manifest_file s = manifest_handle
     \<and> manifest_cursor s = cursor_new (MAGIC_LEN + length (ops_bytes C ms))
     \<and> active_segment_id (st_state s) = Some (active_id s)
     \<and> active_cursor s = \<lparr>buffered = frames_bytes C pend,
          cur_position = MAGIC_LEN + length (frames_bytes C (fs (active_id s)))\<rparr>
     \<and> active_first_entry s = se_first (last (segments (st_state s)))
     \<and> (\<forall>i f. open_files s i = Some f \<longrightarrow> path f = segment_path i)
     \<and> (\<forall>i \<in> tracked (st_state s). i < next_seg_id s)
     \<and> (fs (active_id s) \<noteq> [] \<longrightarrow> last_entry s = last_frame_id (fs (active_id s)))
     \<and> index_ok C fs (st_state s) (st_index s)
     \<and> last_ok fs (st_state s) (last_entry s))"

lemma next_segment_id_greater:
  assumes "next_segment_id i = Some n"
  shows "j \<le> i \<Longrightarrow> j < n"
proof -
  assume "j \<le> i"
  have "sid i \<noteq> - 1" and n: "n = SegmentId (sid i + 1)"
    using assms by (auto simp: next_segment_id_def split: if_splits)
  then have "1 + sid i \<noteq> 0" by (metis add.commute eq_neg_iff_add_eq_0)
  then have "sid i < sid i + 1" by (simp add: word_less_nat_alt unatSuc add.commute)
  with \<open>j \<le> i\<close> n show "j < n" by (simp add: less_segment_id_def less_eq_segment_id_def)
qed

lemma max_segment_id_ge: "i \<in> tracked st \<Longrightarrow> i \<le> max_segment_id st"
  by (auto simp: max_segment_id_def Let_def tracked_def intro: Max_ge)

lemma opened_last:
  assumes wf: "wf_state st" and ne: "segments st \<noteq> []" and eok: "entries_ok fs st"
  shows "last_ok fs st (case last_frame_id (fs (last (ids_of st))) of
    Some l \<Rightarrow> Some l | None \<Rightarrow> sealed_last_entry st)"
proof -
  obtain es e where es: "segments st = es @ [e]" using ne by (cases "segments st" rule: rev_cases) auto
  let ?all = "concat (map fs (ids_of st))"
  have srt: "sorted_wrt (<) (map fst ?all)" using eok by (simp add: entries_ok_def entries_sorted_def)
  have le: "fst f \<le> fst (last ?all)" if "f \<in> set ?all" for f
    using sorted_key_last [of fst ?all f] srt that by (simp add: sorted_wrt_map)
  show ?thesis
  proof (cases "fs (se_id e) = []")
    case False
    then have "last ?all = last (fs (se_id e))" by (simp add: es)
    with le False show ?thesis by (simp add: last_ok_def last_frame_id_def es)
  next
    case empty: True
    show ?thesis
    proof (cases es rule: rev_cases)
      case Nil
      with empty show ?thesis by (simp add: last_ok_def es)
    next
      case (snoc ds d)
      have full: "fs (se_id d) \<noteq> []" using eok es snoc by (simp add: entries_ok_def entries_sorted_def butlast_append)
      have "se_id d \<in> dom (seals st)" using wf es snoc by (simp add: wf_state_def butlast_append)
      then obtain info where info: "seals st (se_id d) = Some info" by blast
      have "last ?all = last (fs (se_id d))" using full empty by (simp add: es snoc)
      moreover have "fst (last (fs (se_id d))) \<le> sealed_last info"
        using eok info last_in_set [OF full] by (auto simp: entries_ok_def)
      moreover have "sealed_last_entry st = Some (sealed_last info)"
        by (simp add: sealed_last_entry_def es snoc info List.map_filter_simps)
      ultimately show ?thesis using le empty order_trans
        by (auto simp: last_ok_def last_frame_id_def es simp del: set_concat) fastforce
    qed
  qed
qed

lemma opens_clean:
  assumes img: "crash_image C ms st fs [] [] w" and eok: "entries_ok fs st"
    and disk: "on_disk w = tracked st" and nxt: "next_segment_id (max_segment_id st) \<noteq> None"
    and ord: "order_ok C"
  shows "\<exists>s. from_scan_report trigger (fst (scan_store C w)) w = (Inr s, w)
    \<and> st_state s = st \<and> store_ok C ms fs [] (s, w)
    \<and> active_entry_count s = length (fs (active_id s))
    \<and> last_entry s = (case last_frame_id (fs (active_id s)) of
        Some l \<Rightarrow> Some l | None \<Rightarrow> sealed_last_entry st)
    \<and> rollover_pending s = False \<and> rollover_trigger s = trigger
    \<and> next_segment_id (max_segment_id st) = Some (next_seg_id s) \<and> index_full fs st (st_index s)"
proof -
  note wd = image_world [OF img]
  have es: "entries_sorted fs (ids_of st)" using eok by (simp add: entries_ok_def)
  define reports where "reports = map (\<lambda>i. image_report C (tail_of st [] i) (fs i) i) (ids_of st)"
  let ?l = "last (ids_of st)"
  have rep: "fst (scan_store C w) = \<lparr>report_state = st,
      manifest_next_offset = MAGIC_LEN + length (ops_bytes C ms), segment_reports = reports,
      report_issues = []\<rparr>"
    using scan_image [OF img] clean_image_issues [OF ord disk] by (simp add: reports_def)
  have act: "active_segment st = Some (last (segments st))" and aid: "active_segment_id st = Some ?l"
    using active_segment_last [OF wd(4,5)] wd(4,5) by (simp_all add: wf_state_def)
  have mem: "?l \<in> set (ids_of st)" using wd(5) last_in_set [of "ids_of st"] by simp
  have fnd: "find (\<lambda>r. report_id r = ?l) reports = Some (image_report C (tail_of st [] ?l) (fs ?l) ?l)"
    unfolding reports_def by (rule find_map_id [OF _ mem]) (simp add: image_report_def)
  obtain n where n: "next_segment_id (max_segment_id st) = Some n" using nxt by auto
  have e0: "wf_entry_index entry_index_new" "entry_marks entry_index_new = []"
    "indexed entry_index_new = []"
    by (simp_all add: wf_entry_index_def entry_index_new_def entry_marks_def)
  obtain ix where ix: "build_index reports entry_index_new = Some ix" "wf_entry_index ix"
    "entry_marks ix = concat (map (\<lambda>i. positions (i, segment_marks (fs i))) (ids_of st))"
    unfolding reports_def using build_index_image [OF es e0(1), of C "tail_of st []"] e0(2,3) by auto
  have full: "index_full fs st ix" using ix(3) by (simp add: index_full_def)
  define s where "s = \<lparr>rollover_trigger = trigger, st_state = st, st_index = ix,
      manifest_file = manifest_handle,
      manifest_cursor = cursor_new (MAGIC_LEN + length (ops_bytes C ms)),
      open_files = Map.empty, active_id = ?l,
      active_cursor = cursor_new (MAGIC_LEN + length (frames_bytes C (fs ?l))),
      active_first_entry = se_first (last (segments st)), active_entry_count = length (fs ?l),
      last_entry = (case last_frame_id (fs ?l) of Some l \<Rightarrow> Some l | None \<Rightarrow> sealed_last_entry st),
      next_seg_id = n, rollover_pending = False\<rparr>"
  have lid: "se_id (last (segments st)) = ?l" using wd(5) by (simp add: last_map)
  have "from_scan_report trigger (fst (scan_store C w)) w = (Inr s, w)"
    using wd(1) image_manifest_open(2) [OF img] fnd lid
    by (simp add: rep from_scan_report_def act n ix and_then_def map_err_def s_def image_report_def
        tail_of_def)
  moreover have "store_ok C ms fs [] (s, w)"
    using img disk eok aid n built_index [OF ix(2) full, of C] opened_last [OF wd(4,5) eok]
    by (auto simp: store_ok_def s_def cursor_new_def last_frame_id_def
        intro: next_segment_id_greater max_segment_id_ge)
  moreover have "index_full fs st (st_index s)" using full by (simp add: s_def)
  ultimately show ?thesis using n by (intro exI [of _ s]) (simp add: s_def)
qed

section \<open>Opening a crash image\<close>

lemma image_issues_Nil:
  assumes "order_ok C" and "image_issues C ms st fs mtail tail w = []"
  shows "mtail = []" "tail = []" "on_disk w - tracked st = {}" "dead st \<subseteq> on_disk w"
    "recovery_ops C st w = []"
  using assms
  by (auto simp: image_issues_def torn_issues_def orphans_def missing_dead_def recovery_ops_def
      filter_empty_conv split: if_splits)

text \<open>Opening a clean directory changes nothing in it.\<close>

lemma open_clean:
  assumes img: "crash_image C ms st fs [] [] w" and eok: "entries_ok fs st"
    and disk: "on_disk w = tracked st" and nxt: "next_segment_id (max_segment_id st) \<noteq> None"
    and ord: "order_ok C"
  shows "\<exists>s. open_store C trigger w = (Inr s, w)
    \<and> st_state s = st \<and> store_ok C ms fs [] (s, w)
    \<and> active_entry_count s = length (fs (active_id s))
    \<and> last_entry s = (case last_frame_id (fs (active_id s)) of
        Some l \<Rightarrow> Some l | None \<Rightarrow> sealed_last_entry st)
    \<and> rollover_pending s = False \<and> rollover_trigger s = trigger
    \<and> next_segment_id (max_segment_id st) = Some (next_seg_id s) \<and> index_full fs st (st_index s)"
proof -
  obtain report where scan: "scan_store C w = (report, w)"
    and iss: "report_issues report = image_issues C ms st fs [] [] w"
    using scan_image [OF img] by simp
  have "open_store C trigger w = from_scan_report trigger (fst (scan_store C w)) w"
    using iss clean_image_issues [OF ord disk] by (simp add: open_store_def scan)
  with opens_clean [OF assms, of trigger] show ?thesis by simp
qed

lemma open_image:
  assumes img: "crash_image C ms st fs mtail tail w" and es: "entries_ok fs st"
    and ord: "order_ok C" and wr: "recovery_writable C"
    and nxt: "next_segment_id (max_segment_id (with_dead (on_disk w - set (ids_of st)) st)) \<noteq> None"
  shows "\<exists>s w'. open_store C trigger w = (Inr s, w')
    \<and> store_ok C (ms @ recovery_ops C st w) fs [] (s, w')
    \<and> st_state s = with_dead (on_disk w - set (ids_of st)) st
    \<and> on_disk w' = on_disk w
    \<and> active_entry_count s = length (fs (active_id s))
    \<and> last_entry s = (case last_frame_id (fs (active_id s)) of
        Some l \<Rightarrow> Some l | None \<Rightarrow> sealed_last_entry (st_state s))
    \<and> rollover_pending s = False \<and> rollover_trigger s = trigger
    \<and> next_segment_id (max_segment_id (st_state s)) = Some (next_seg_id s)
    \<and> index_full fs (st_state s) (st_index s)"
proof -
  let ?st = "with_dead (on_disk w - set (ids_of st)) st"
  let ?ms = "ms @ recovery_ops C st w"
  have sub: "set (ids_of st) \<subseteq> on_disk w" by (rule ids_on_disk [OF img])
  obtain report where scan: "scan_store C w = (report, w)"
    and iss: "report_issues report = image_issues C ms st fs mtail tail w"
    using scan_image [OF img] by simp
  have disk: "tracked ?st = on_disk w" using sub by (rule tracked_with_dead)
  have esr: "entries_ok fs ?st" using es by (simp add: entries_ok_def)
  show ?thesis
  proof (cases "image_issues C ms st fs mtail tail w = []")
    case True
    note nil = image_issues_Nil [OF ord True]
    have "on_disk w - set (ids_of st) = dead st"
      using nil(3,4) image_world(4) [OF img] by (auto simp: tracked_def wf_state_def)
    then have st: "?st = st" by simp
    have "open_store C trigger w = from_scan_report trigger (fst (scan_store C w)) w"
      using iss True by (simp add: open_store_def scan)
    with opens_clean [of C ms st fs w trigger] img es disk nxt ord nil st show ?thesis
      by (metis append_Nil2)
  next
    case False
    obtain w' where rec: "attempt_recovery C report False w = (Inr (), w')"
      and img': "crash_image C ?ms ?st fs [] [] w'" and disk': "on_disk w' = on_disk w"
      using recovery_image [OF img wr ord iss] by blast
    obtain s where s: "from_scan_report trigger (fst (scan_store C w')) w' = (Inr s, w')"
      "st_state s = ?st" "store_ok C ?ms fs [] (s, w')"
      "active_entry_count s = length (fs (active_id s))"
      "last_entry s = (case last_frame_id (fs (active_id s)) of
        Some l \<Rightarrow> Some l | None \<Rightarrow> sealed_last_entry ?st)" "rollover_pending s = False"
      "rollover_trigger s = trigger" "next_segment_id (max_segment_id ?st) = Some (next_seg_id s)" "index_full fs ?st (st_index s)"
      using opens_clean [OF img' esr _ nxt ord] disk disk' by metis
    obtain report2 where "scan_store C w' = (report2, w')" using scan_image [OF img'] by simp
    then have "open_store C trigger w = (Inr s, w')"
      using iss False s(1) rec by (simp add: open_store_def scan)
    with s disk' show ?thesis by (intro exI [of _ s] exI [of _ w'] conjI) (simp_all only: s(2))
  qed
qed

end
