(* ===== verification/Store_Laws.thy ===== *)
theory Store_Laws
  imports Store_Opens
begin

text \<open>
  The relation \<open>store_ok\<close> taken apart, and the operations of \<^verbatim>\<open>src/store.rs\<close> that keep it: committing an
  operation to the manifest, writing metadata, pushing entries and writing a batch. A write that is cut
  short leaves a crash image.
\<close>

section \<open>Parts of the relation\<close>

lemma store_okD:
  assumes "store_ok C ms fs pend (s, w)"
  shows "crash_image C ms (st_state s) fs [] [] w" "on_disk w = tracked (st_state s)"
    "entries_ok fs (st_state s)" "manifest_file s = manifest_handle"
    "manifest_cursor s = cursor_new (MAGIC_LEN + length (ops_bytes C ms))"
    "active_segment_id (st_state s) = Some (active_id s)"
    "active_cursor s = \<lparr>buffered = frames_bytes C pend,
       cur_position = MAGIC_LEN + length (frames_bytes C (fs (active_id s)))\<rparr>"
    "active_first_entry s = se_first (last (segments (st_state s)))"
    "\<forall>i f. open_files s i = Some f \<longrightarrow> path f = segment_path i"
    "\<forall>i \<in> tracked (st_state s). i < next_seg_id s"
    "fs (active_id s) \<noteq> [] \<Longrightarrow> last_entry s = last_frame_id (fs (active_id s))"
    "index_ok C fs (st_state s) (st_index s)" "last_ok fs (st_state s) (last_entry s)"
  using assms by (simp_all add: store_ok_def)

lemma store_ok_active:
  assumes "store_ok C ms fs pend (s, w)"
  shows "active_id s = last (ids_of (st_state s))" "active_id s \<in> set (ids_of (st_state s))"
    "content w (segment_path (active_id s)) = Some (SEGMENT_MAGIC @ frames_bytes C (fs (active_id s)))"
    "seals (st_state s) (active_id s) = None"
proof -
  note img = store_okD(1) [OF assms]
  note wd = image_world(4,5) [OF img]
  show l: "active_id s = last (ids_of (st_state s))"
    using wd store_okD(6) [OF assms] by (simp add: wf_state_def)
  then show m: "active_id s \<in> set (ids_of (st_state s))"
    using wd(2) last_in_set [of "ids_of (st_state s)"] by simp
  show "content w (segment_path (active_id s)) = Some (SEGMENT_MAGIC @ frames_bytes C (fs (active_id s)))"
    using image_segment(1) [OF img m] by (simp add: tail_of_def)
  show "seals (st_state s) (active_id s) = None"
    using wf_state_single [OF wd] by (auto simp: l)
qed

text \<open>The index and the last entry, when frames are added, segments added, or segments dropped.\<close>

lemma mark_ok_append: "mark_ok C fs m \<Longrightarrow> mark_ok C (fs(i := fs i @ new)) m"
  by (auto simp: mark_ok_def nth_append)

lemma index_ok_append: "index_ok C fs st ix \<Longrightarrow> index_ok C (fs(i := fs i @ new)) st ix"
  by (simp add: index_ok_def mark_ok_append)

lemma index_ok_new:
  assumes "index_ok C fs st ix" and "i \<notin> set (ids_of st)" and "set (ids_of st) \<subseteq> set (ids_of st')"
  shows "index_ok C (fs(i := new)) st' ix"
  unfolding index_ok_def
proof (intro conjI ballI)
  fix m assume m: "m \<in> set (entry_marks ix)"
  then have ids: "segment m \<in> set (ids_of st)" and ok: "mark_ok C fs m"
    using assms(1) unfolding index_ok_def by blast+
  show "segment m \<in> set (ids_of st')" using ids assms(3) by blast
  have "segment m \<noteq> i" using ids assms(2) by metis
  then show "mark_ok C (fs(i := new)) m" using ok by (simp add: mark_ok_def)
qed (use assms(1) in \<open>simp add: index_ok_def\<close>)

lemma last_ok_append:
  assumes "sorted_wrt (<) (map fst (concat (map fs (ids_of st)) @ new))" and "new \<noteq> []"
    and "concat (map fs' (ids_of st')) = concat (map fs (ids_of st)) @ new"
  shows "last_ok fs' st' (last_frame_id new)"
  unfolding last_ok_def assms(3)
proof
  fix f assume f: "f \<in> set (concat (map fs (ids_of st)) @ new)"
  have "sorted_wrt (\<lambda>a b. fst a < fst b) (concat (map fs (ids_of st)) @ new)"
    using assms(1) by (simp only: sorted_wrt_map)
  from sorted_key_last [OF this f] have "fst f \<le> fst (last new)" using assms(2) by simp
  then show "\<exists>j. last_frame_id new = Some j \<and> fst f \<le> j" using assms(2) by (simp add: last_frame_id_def)
qed

section \<open>Committing an operation\<close>

definition committed :: "'f crates \<Rightarrow> manifest_op list \<Rightarrow> manifest_op \<Rightarrow> store \<times> world \<Rightarrow> store \<times> world" where
  "committed C ms m sw = (case sw of (s, w) \<Rightarrow>
     (s\<lparr>manifest_cursor := cursor_new (MAGIC_LEN + length (ops_bytes C (ms @ [m]))),
        st_state := snd (apply_manifest_op m (st_state s))\<rparr>,
      store_file MANIFEST_FILE_NAME (MANIFEST_MAGIC @ ops_bytes C (ms @ [m])) w))"

lemma commit_op_runs:
  assumes w: "healthy w" and c: "content w MANIFEST_FILE_NAME = Some (MANIFEST_MAGIC @ ops_bytes C ms)"
    and f: "manifest_file s = manifest_handle"
    and cur: "manifest_cursor s = cursor_new (MAGIC_LEN + length (ops_bytes C ms))"
    and v: "op_error (st_state s) (the_op m) = None"
  shows "commit_op C m (s, w) = (Inr (), committed C ms m (s, w))"
proof -
  let ?c = "MANIFEST_MAGIC @ ops_bytes C ms"
  have c': "content w (path manifest_handle) = Some ?c" using c by (simp add: manifest_handle_def)
  have "manifest_cursor s = cursor_new (length ?c)" using cur by simp
  from write_op_healthy [OF w c' this, of C m] show ?thesis
    using v by (simp add: commit_op_def f committed_def apply_manifest_op_result manifest_handle_def
        add.assoc)
qed

lemma commit_op_run:
  assumes img: "crash_image C ms (st_state s) fs [] tail w" and f: "manifest_file s = manifest_handle"
    and cur: "manifest_cursor s = cursor_new (MAGIC_LEN + length (ops_bytes C ms))"
    and v: "op_error (st_state s) (the_op m) = None"
  shows "commit_op C m (s, w) = (Inr (), committed C ms m (s, w))"
  using image_world(1,6) [OF img] f cur v by (intro commit_op_runs) simp_all

lemma committed_image:
  assumes img: "crash_image C ms st fs [] tail w" and wr: "op_writable C m" and v: "op_valid st (the_op m)"
    and st': "st' = snd (apply_manifest_op m st)"
    and ids: "segments st' \<noteq> []"
    and same: "\<forall>i \<in> set (ids_of st').
      (\<forall>f \<in> set (fs' i). fits f) \<and> content w (segment_path i)
        = Some (SEGMENT_MAGIC @ frames_bytes C (fs' i) @ tail_of st' tail i)"
    and seals: "\<forall>i info. seals st' i = Some info \<longrightarrow>
      unat (final_size info) = MAGIC_LEN + length (frames_bytes C (fs' i))"
  shows "crash_image C (ms @ [m]) st' fs' [] tail
    (store_file MANIFEST_FILE_NAME (MANIFEST_MAGIC @ ops_bytes C (ms @ [m])) w)"
proof -
  note wd = image_world [OF img]
  have run: "run_ops (ms @ [m]) = Some st'"
    unfolding st' by (rule run_ops_snoc [OF wd(7) op_valid_no_error [OF v]])
  have wf: "wf_state st'" unfolding st' by (rule wf_apply_manifest_op [OF wd(4) v])
  show ?thesis
    using img wr run wf ids same seals unfolding crash_image_def by auto
qed

text \<open>Writing metadata.\<close>

lemma write_metadata_ok:
  assumes ok: "store_ok C ms fs pend (s, w)" and wr: "op_writable C (with_meta Metadata kvs)"
  shows "write_metadata C kvs (s, w) = (Inr (), committed C ms (with_meta Metadata kvs) (s, w))
    \<and> store_ok C (ms @ [with_meta Metadata kvs]) fs pend (committed C ms (with_meta Metadata kvs) (s, w))
    \<and> metadata (st_state (fst (committed C ms (with_meta Metadata kvs) (s, w))))
        = fold set_pair kvs (metadata (st_state s))"
proof -
  let ?m = "with_meta Metadata kvs"
  let ?st = "(st_state s)\<lparr>metadata := fold set_pair kvs (metadata (st_state s))\<rparr>"
  note D = store_okD [OF ok]
  have st: "snd (apply_manifest_op ?m (st_state s)) = ?st"
    by (simp add: apply_manifest_op_result with_meta_def)
  have "crash_image C (ms @ [?m]) ?st fs [] []
    (store_file MANIFEST_FILE_NAME (MANIFEST_MAGIC @ ops_bytes C (ms @ [?m])) w)"
    by (rule committed_image [OF D(1) wr _ st [symmetric]])
       (use D(1) in \<open>auto simp: with_meta_def crash_image_def tail_of_def\<close>)
  moreover have "commit_op C ?m (s, w) = (Inr (), committed C ms ?m (s, w))"
    by (rule commit_op_run [OF D(1,4,5)]) (simp add: with_meta_def)
  ultimately show ?thesis
    using D ok by (simp add: write_metadata_def store_ok_def committed_def st on_disk_def tracked_def
        entries_ok_def index_ok_def last_ok_def)
qed

section \<open>Writing a batch\<close>

text \<open>A writer that holds exactly the frames pending in the active cursor.\<close>

definition batch_of :: "frame list \<Rightarrow> store_writer" where
  "batch_of pend = \<lparr>batch_first = (if pend = [] then None else Some (fst (hd pend))),
     batch_last = last_frame_id pend, batch_count = length pend\<rparr>"

lemma push_ok:
  assumes "store_ok C ms fs pend (s, w)"
  shows "push C i p (batch_of pend, s)
      = (batch_of (pend @ [(EntryId i, p)]), snd (push C i p (batch_of pend, s)))
    \<and> store_ok C ms fs (pend @ [(EntryId i, p)]) (snd (push C i p (batch_of pend, s)), w)
    \<and> st_state (snd (push C i p (batch_of pend, s))) = st_state s
    \<and> rollover_pending (snd (push C i p (batch_of pend, s))) = rollover_pending s
    \<and> last_entry (snd (push C i p (batch_of pend, s))) = last_entry s
    \<and> active_id (snd (push C i p (batch_of pend, s))) = active_id s
    \<and> open_files (snd (push C i p (batch_of pend, s))) = open_files s
    \<and> next_seg_id (snd (push C i p (batch_of pend, s))) = next_seg_id s
    \<and> st_index (snd (push C i p (batch_of pend, s))) = st_index s
    \<and> rollover_trigger (snd (push C i p (batch_of pend, s))) = rollover_trigger s
    \<and> active_first_entry (snd (push C i p (batch_of pend, s))) = active_first_entry s"
  using assms
  by (simp add: push_def batch_of_def store_ok_def cursor_write_def buffer_write_frame hd_append)

definition flushed_world :: "'f crates \<Rightarrow> segment_id \<Rightarrow> frame list \<Rightarrow> world \<Rightarrow> world" where
  "flushed_world C i fs w = put_content (segment_path i) (SEGMENT_MAGIC @ frames_bytes C fs) w"

lemma active_file_ok:
  assumes ok: "store_ok C ms fs pend (s, w)"
  obtains f s' where "active_file (s, w) = (Inr f, s', w)" and "path f = segment_path (active_id s)"
    and "store_ok C ms fs pend (s', w)" and "s' = s\<lparr>open_files := open_files s'\<rparr>"
    and "open_files s' (active_id s) = Some f"
proof (cases "open_files s (active_id s)")
  case (Some f)
  show thesis
  proof (rule that [of f s])
    show "active_file (s, w) = (Inr f, s, w)" using Some by (simp add: active_file_def)
    show "path f = segment_path (active_id s)" using Some store_okD(9) [OF ok] by blast
  qed (use ok Some in simp_all)
next
  case None
  let ?f = "\<lparr>path = segment_path (active_id s), cursor_at = MAGIC_LEN\<rparr>"
  let ?s = "s\<lparr>open_files := (open_files s)(active_id s \<mapsto> ?f)\<rparr>"
  have "open_segment_rw (active_id s) w = (Inr (?f, MAGIC_LEN), w)"
    unfolding open_segment_rw_def
    by (rule open_checked_magic [OF image_world(1) [OF store_okD(1) [OF ok]] store_ok_active(3) [OF ok]])
       simp
  then have "active_file (s, w) = (Inr ?f, ?s, w)"
    using None by (simp add: active_file_def and_then_def on_world_def)
  moreover have "store_ok C ms fs pend (?s, w)" using ok by (auto simp: store_ok_def)
  ultimately show thesis by (intro that [of ?f ?s]) simp_all
qed

lemma frames_append:
  assumes "wf_state st" and "segments st \<noteq> []" and "a = last (ids_of st)"
  shows "concat (map (fs(a := fs a @ new)) (ids_of st)) = concat (map fs (ids_of st)) @ new"
proof -
  obtain es e where es: "segments st = es @ [e]" using assms(2) by (cases "segments st" rule: rev_cases) auto
  have a: "a = se_id e" using assms(3) es by simp
  have "se_id f \<noteq> a" if "f \<in> set es" for f
    using assms(1) es that a by (auto simp: wf_state_def image_iff)
  then show ?thesis using es a by (simp add: o_def cong: map_cong)
qed

lemma entries_ok_append:
  assumes "entries_ok fs st" and "wf_state st" and "segments st \<noteq> []" and "a = last (ids_of st)"
    and "seals st a = None" and "sorted_wrt (<) (map fst (concat (map fs (ids_of st)) @ new))"
    and "\<forall>f \<in> set new. se_first (last (segments st)) \<le> fst f"
  shows "entries_ok (fs(a := fs a @ new)) st"
proof -
  let ?fs = "fs(a := fs a @ new)"
  obtain es e where es: "segments st = es @ [e]" using assms(3) by (cases "segments st" rule: rev_cases) auto
  have a: "a = se_id e" using assms(4) es by simp
  have ne: "se_id f \<noteq> a" if "f \<in> set es" for f
    using assms(2) es that a by (auto simp: wf_state_def image_iff)
  have "concat (map ?fs (ids_of st)) = concat (map fs (ids_of st)) @ new"
    by (rule frames_append [OF assms(2-4)])
  moreover have "\<forall>i \<in> set (butlast (ids_of st)). ?fs i \<noteq> []"
    using assms(1) es ne by (auto simp: entries_ok_def entries_sorted_def)
  ultimately have "entries_sorted ?fs (ids_of st)"
    using assms(6) by (simp add: entries_sorted_def)
  moreover have "\<forall>e \<in> set (segments st). \<forall>f \<in> set (?fs (se_id e)). se_first e \<le> fst f"
    using assms(1,7) es ne a by (auto simp: entries_ok_def)
  moreover have "\<forall>i info. seals st i = Some info \<longrightarrow> (\<forall>f \<in> set (?fs i). fst f \<le> sealed_last info)"
    using assms(1,5) by (auto simp: entries_ok_def)
  ultimately show ?thesis by (simp add: entries_ok_def)
qed

lemma image_active_content:
  assumes img: "crash_image C ms st fs mtail [] w" and a: "active_segment_id st = Some a"
    and fits: "\<forall>f \<in> set new. fits f" and tail: "tail = [] \<or> torn_piece C tail"
    and unsealed: "seals st a = None"
  shows "crash_image C ms st (fs(a := fs a @ new)) mtail tail
    (put_content (segment_path a) (SEGMENT_MAGIC @ frames_bytes C (fs a @ new) @ tail) w)"
  using assms unfolding crash_image_def tail_of_def by auto

lemma on_disk_put: "i \<in> on_disk w \<Longrightarrow> on_disk (put_content (segment_path i) c w) = on_disk w"
  by (auto simp: on_disk_def)

text \<open>The pending frames continue the entries of the store.\<close>

definition continues :: "(segment_id \<Rightarrow> frame list) \<Rightarrow> store_state \<Rightarrow> frame list \<Rightarrow> bool" where
  "continues fs st pend \<longleftrightarrow> pend \<noteq> [] \<and> (\<forall>f \<in> set pend. fits f)
     \<and> sorted_wrt (<) (map fst (concat (map fs (ids_of st)) @ pend))
     \<and> (\<forall>f \<in> set pend. se_first (last (segments st)) \<le> fst f)"

lemma write_batch_run:
  assumes ok: "store_ok C ms fs pend (s, w)" and roll: "rollover_pending s = False"
    and cont: "continues fs (st_state s) pend"
  shows "\<exists>f s'. write_batch C (batch_of pend) (s, w)
        = (Inr (Some f), s', flushed_world C (active_id s) (fs (active_id s) @ pend) w)
    \<and> store_ok C ms (fs(active_id s := fs (active_id s) @ pend)) []
        (s', flushed_world C (active_id s) (fs (active_id s) @ pend) w)
    \<and> path f = segment_path (active_id s) \<and> active_id s' = active_id s
    \<and> open_files s' (active_id s) = Some f
    \<and> st_state s' = st_state s \<and> last_entry s' = last_frame_id pend
    \<and> next_seg_id s' = next_seg_id s \<and> st_index s' = st_index s
    \<and> rollover_trigger s' = rollover_trigger s
    \<and> active_entry_count s' = active_entry_count s + length pend
    \<and> rollover_pending s' = (rollover_trigger s
        < MAGIC_LEN + length (frames_bytes C (fs (active_id s) @ pend)))"
proof -
  let ?a = "active_id s" and ?fs = "fs(active_id s := fs (active_id s) @ pend)"
  let ?w = "flushed_world C (active_id s) (fs (active_id s) @ pend) w"
  obtain f s1 where s1: "active_file (s, w) = (Inr f, s1, w)" "path f = segment_path ?a"
    "store_ok C ms fs pend (s1, w)" and eq: "s1 = s\<lparr>open_files := open_files s1\<rparr>"
    and opn: "open_files s1 ?a = Some f"
    by (rule active_file_ok [OF ok])
  have same: "st_state s1 = st_state s" "active_id s1 = ?a" "rollover_trigger s1 = rollover_trigger s"
    "active_entry_count s1 = active_entry_count s" "rollover_pending s1 = False"
    "next_seg_id s1 = next_seg_id s" "st_index s1 = st_index s"
    using roll by (subst eq, simp)+
  note D = store_okD [OF s1(3)] and A = store_ok_active [OF s1(3)]
  let ?cur = "\<lparr>buffered = [], cur_position = MAGIC_LEN + length (frames_bytes C (fs ?a @ pend))\<rparr>"
  have "cursor_flush f (active_cursor s1, w) = (Inr (), ?cur, ?w)"
    using image_world(1) [OF D(1)] A(3) D(7) s1(2) same
      overwrite_at_end [of "SEGMENT_MAGIC @ frames_bytes C (fs ?a)" "frames_bytes C pend"]
    by (simp add: cursor_flush_def and_then_def write_bytes_def flushed_world_def add.assoc
        del: overwrite_at_end)
  then have fl: "flush_active f (s1, w) = (Inr (), s1\<lparr>active_cursor := ?cur\<rparr>, ?w)"
    by (simp add: flush_active_def)
  define s' where "s' = s1\<lparr>active_cursor := ?cur, last_entry := last_frame_id pend,
    active_entry_count := active_entry_count s1 + length pend,
    rollover_pending := (rollover_trigger s1 < MAGIC_LEN + length (frames_bytes C (fs ?a @ pend)))\<rparr>"
  obtain m where m: "length pend = Suc m" using cont by (cases pend) (auto simp: continues_def)
  have lastp: "last_frame_id pend = Some (fst (last pend))"
    using cont by (simp add: last_frame_id_def continues_def)
  have run: "write_batch C (batch_of pend) (s, w) = (Inr (Some f), s', ?w)"
    using cont roll s1(1) fl m lastp same
    by (simp add: write_batch_def batch_of_def continues_def and_then_def update_store_def s'_def)
  have img: "crash_image C ms (st_state s) ?fs [] [] ?w"
    using image_active_content [of C ms "st_state s" fs "[]" w ?a pend "[]"] D(1,6) A(4) same cont
    by (simp add: flushed_world_def continues_def)
  have eok: "entries_ok ?fs (st_state s)"
    using D(3) image_world(4,5) [OF D(1)] A(1,4) cont same
    by (intro entries_ok_append) (auto simp: continues_def)
  have disk: "on_disk ?w = tracked (st_state s)"
    using D(2) A(2) same by (simp add: flushed_world_def on_disk_put tracked_def)
  have "last_ok ?fs (st_state s) (last_frame_id pend)"
    using cont frames_append [of "st_state s" ?a fs pend] image_world(4,5) [OF D(1)] A(1) same
    by (intro last_ok_append [of fs "st_state s" pend]) (simp_all add: continues_def)
  moreover have "index_ok C ?fs (st_state s) (st_index s1)"
    using index_ok_append [OF D(12)] same by simp
  ultimately have "store_ok C ms ?fs [] (s', ?w)"
    using D img eok disk same lastp cont
    by (simp add: store_ok_def s'_def continues_def last_frame_id_def)
  with run s1(2) same opn show ?thesis
    by (intro exI [of _ f] exI [of _ s']) (simp add: s'_def)
qed

text \<open>Some of the pending frames continue the entries too.\<close>

lemma entries_ok_take:
  assumes ok: "store_ok C ms fs pend (s, w)" and cont: "continues fs (st_state s) pend"
  shows "entries_ok (fs(active_id s := fs (active_id s) @ take n pend)) (st_state s)"
proof -
  note D = store_okD [OF ok] and A = store_ok_active [OF ok]
  define all where "all = concat (map fs (ids_of (st_state s)))"
  have "sorted_wrt (<) (map fst (all @ take n pend) @ map fst (drop n pend))"
    using cont by (simp add: continues_def all_def flip: map_append)
  then have "sorted_wrt (<) (map fst (all @ take n pend))" by (simp only: sorted_wrt_append)
  then have "sorted_wrt (<) (map fst (concat (map fs (ids_of (st_state s))) @ take n pend))"
    by (simp only: all_def)
  then show ?thesis
    using D(3) image_world(4,5) [OF D(1)] A(1,4) cont
    by (intro entries_ok_append) (auto simp: continues_def dest: in_set_takeD)
qed

text \<open>A write cut short: the device takes \<open>k\<close> bytes of the batch and the process ends. The directory it
  leaves is a crash image with a number of whole frames of the batch.\<close>

lemma write_batch_cut:
  assumes ok: "store_ok C ms fs pend (s, w)" and roll: "rollover_pending s = False"
    and cont: "continues fs (st_state s) pend" and opn: "open_files s (active_id s) = Some f"
    and k: "k \<le> length (frames_bytes C pend)"
    and crash: "write_batch C (batch_of pend) (s, w\<lparr>faults := [Some k]\<rparr>) = (r, s', w')"
  shows "r = Inl (Err DeviceFault) \<and> (\<exists>n tail. n \<le> length pend
    \<and> (n < length pend \<longrightarrow> k < length (frames_bytes C (take (Suc n) pend)))
    \<and> length (frames_bytes C (take n pend)) \<le> k
    \<and> crash_image C ms (st_state s) (fs(active_id s := fs (active_id s) @ take n pend)) [] tail w'
    \<and> entries_ok (fs(active_id s := fs (active_id s) @ take n pend)) (st_state s)
    \<and> on_disk w' = on_disk w)"
proof -
  let ?a = "active_id s"
  note D = store_okD [OF ok] and A = store_ok_active [OF ok]
  have pf: "path f = segment_path ?a" using D(9) opn by blast
  have fits: "\<forall>f \<in> set pend. fits f" using cont by (simp add: continues_def)
  obtain n tail where n: "n \<le> length pend"
    "take k (frames_bytes C pend) = frames_bytes C (take n pend) @ tail"
    "tail = [] \<or> torn_piece C tail"
    "n < length pend \<Longrightarrow> k < length (frames_bytes C (take (Suc n) pend))"
    using take_frames_bytes [OF fits k] by metis
  let ?w0 = "w\<lparr>faults := [Some k]\<rparr>"
  let ?c = "SEGMENT_MAGIC @ frames_bytes C (fs ?a @ take n pend) @ tail"
  have w: "w = w\<lparr>faults := []\<rparr>" using image_world(1) [OF D(1)] by (simp add: healthy_def)
  have sp: "spend ?w0 = w" by (subst (2) w) (simp add: spend_def)
  have "overwrite (SEGMENT_MAGIC @ frames_bytes C (fs ?a)) (MAGIC_LEN + length (frames_bytes C (fs ?a)))
      (take k (frames_bytes C pend)) = ?c"
    using overwrite_at_end [of "SEGMENT_MAGIC @ frames_bytes C (fs ?a)" "take k (frames_bytes C pend)"] n(2)
    by (simp del: overwrite_at_end)
  then have fl: "cursor_flush f (active_cursor s, ?w0)
      = (Inl (Err DeviceFault), active_cursor s, put_content (segment_path ?a) ?c w)"
    using D(7) A(3) pf sp
    by (simp add: cursor_flush_def and_then_def write_all_at_def next_outcome_def write_bytes_def)
  obtain m where m: "length pend = Suc m" using cont by (cases pend) (auto simp: continues_def)
  have run: "write_batch C (batch_of pend) (s, ?w0)
      = (Inl (Err DeviceFault), s, put_content (segment_path ?a) ?c w)"
    using cont roll fl m opn
    by (simp add: write_batch_def batch_of_def continues_def and_then_def active_file_def
        flush_active_def last_frame_id_def)
  have fitn: "\<forall>f \<in> set (take n pend). fits f" using fits by (auto dest: in_set_takeD)
  have img: "crash_image C ms (st_state s) (fs(?a := fs ?a @ take n pend)) [] tail
      (put_content (segment_path ?a) ?c w)"
    by (rule image_active_content [OF D(1,6) fitn n(3) A(4)])
  have eok: "entries_ok (fs(?a := fs ?a @ take n pend)) (st_state s)" by (rule entries_ok_take [OF ok cont])
  have len: "length (frames_bytes C (take n pend)) \<le> k"
    using arg_cong [OF n(2), of length] k by simp
  show ?thesis
    using crash run img eok n len D(2) A(2)
    by (auto simp: on_disk_put tracked_def intro!: exI [of _ n] exI [of _ tail])
qed

end
