(* ===== verification/Store_Rollover.thy ===== *)
theory Store_Rollover
  imports Store_Laws
begin

text \<open>
  The lazy rollover of \<^verbatim>\<open>src/store.rs\<close>: the next batch seals the active segment, opens a new one and
  goes there. The relation \<open>store_ok\<close> is kept, and the entries on disk are those before with the batch
  behind them.
\<close>

section \<open>The rollover\<close>

lemma image_add_file:
  "crash_image C ms st fs mtail tail w \<Longrightarrow> i \<notin> set (ids_of st) \<Longrightarrow>
     crash_image C ms st fs mtail tail (put_content (segment_path i) c w)"
  by (auto simp: crash_image_def)

lemma entries_ok_last:
  assumes "entries_ok fs st" and "segments st \<noteq> []" and "a = last (ids_of st)" and "fs a \<noteq> []"
    and "f \<in> set (fs a)"
  shows "se_first (last (segments st)) \<le> fst (last (fs a))" "fst f \<le> fst (last (fs a))"
proof -
  obtain es e where es: "segments st = es @ [e]" using assms(2) by (cases "segments st" rule: rev_cases) auto
  have a: "a = se_id e" using assms(3) es by simp
  then show "se_first (last (segments st)) \<le> fst (last (fs a))"
    using assms(1,4) es last_in_set [of "fs a"] by (auto simp: entries_ok_def)
  have "sorted_wrt (<) (map fst (fs a))"
    using assms(1) es a by (auto simp: entries_ok_def entries_sorted_def sorted_wrt_append)
  then show "fst f \<le> fst (last (fs a))"
    using sorted_key_last [of fst "fs a" f] assms(5) by (simp add: sorted_wrt_map)
qed

definition rolled :: "store_state \<Rightarrow> op \<Rightarrow> store_state" where
  "rolled st p = snd (apply_manifest_op (bare p) st)"

text \<open>The state after a rollover: the active segment sealed with what the store tracked, and a new one.\<close>

lemma rollover_state:
  assumes ok: "store_ok C ms fs pend (s, w)" and ne: "fs (active_id s) \<noteq> []"
    and new: "\<forall>f \<in> set (fs (active_id s)). fst f < new_first"
  defines "st' \<equiv> rolled (st_state s) (rollover_op s new_first)"
  shows "op_valid (st_state s) (rollover_op s new_first)"
    and "segments st' = segments (st_state s) @ [\<lparr>se_id = next_seg_id s, se_first = new_first\<rparr>]"
    and "seals st' = (seals (st_state s))(active_id s \<mapsto> \<lparr>sealed_first = active_first_entry s,
      sealed_last = fst (last (fs (active_id s))), entry_count = of_nat (active_entry_count s),
      final_size = of_nat (MAGIC_LEN + length (frames_bytes C (fs (active_id s))))\<rparr>)"
    and "active_segment_id st' = Some (next_seg_id s)" and "dead st' = dead (st_state s)"
    and "head_entry st' = head_entry (st_state s)" and "metadata st' = metadata (st_state s)"
proof -
  note D = store_okD [OF ok] and A = store_ok_active [OF ok]
  note wd = image_world [OF D(1)]
  have fresh: "next_seg_id s \<notin> tracked (st_state s)" using D(10) by auto
  have last: "last_entry s = Some (fst (last (fs (active_id s))))" using D(11) ne by (simp add: last_frame_id_def)
  have lt: "fst (last (fs (active_id s))) < new_first" using new ne by simp
  have le: "active_first_entry s \<le> fst (last (fs (active_id s)))"
    using entries_ok_last(1) [OF D(3) wd(5) A(1) ne] last_in_set [OF ne] D(8) by simp
  have opx: "rollover_op s new_first = RollSegment (active_id s) (active_first_entry s) (fst (last (fs (active_id s))))
      (of_nat (active_entry_count s)) (of_nat (MAGIC_LEN + length (frames_bytes C (fs (active_id s)))))
      (next_seg_id s) new_first"
    using last D(7) by (simp add: rollover_op_def)
  show v: "op_valid (st_state s) (rollover_op s new_first)"
    using D(6,8) wd(5) le lt fresh by (simp add: opx tracked_def)
  note eqn = st'_def rolled_def bare_def apply_manifest_op_result op_valid_no_error [OF v]
  show "segments st' = segments (st_state s) @ [\<lparr>se_id = next_seg_id s, se_first = new_first\<rparr>]"
    "seals st' = (seals (st_state s))(active_id s \<mapsto> \<lparr>sealed_first = active_first_entry s,
      sealed_last = fst (last (fs (active_id s))), entry_count = of_nat (active_entry_count s),
      final_size = of_nat (MAGIC_LEN + length (frames_bytes C (fs (active_id s))))\<rparr>)"
    "active_segment_id st' = Some (next_seg_id s)" "dead st' = dead (st_state s)"
    "head_entry st' = head_entry (st_state s)" "metadata st' = metadata (st_state s)"
    using D(6) by (simp_all add: eqn) (simp_all add: opx roll_segment_def)
qed

lemma rollover_image:
  assumes ok: "store_ok C ms fs pend (s, w)" and ne: "fs (active_id s) \<noteq> []"
    and new: "\<forall>f \<in> set (fs (active_id s)). fst f < new_first"
    and wr: "op_writable C (bare (rollover_op s new_first))"
    and size: "MAGIC_LEN + length (frames_bytes C (fs (active_id s))) < 2 ^ 64"
    and w1: "w1 = store_file (segment_path (next_seg_id s)) SEGMENT_MAGIC w"
  shows "crash_image C (ms @ [bare (rollover_op s new_first)]) (rolled (st_state s) (rollover_op s new_first))
      (fs(next_seg_id s := [])) [] []
      (store_file MANIFEST_FILE_NAME (MANIFEST_MAGIC @ ops_bytes C (ms @ [bare (rollover_op s new_first)])) w1)"
proof -
  let ?a = "active_id s" and ?i = "next_seg_id s" and ?st = "st_state s"
  let ?st' = "rolled ?st (rollover_op s new_first)" and ?fs = "fs(next_seg_id s := [])"
  note D = store_okD [OF ok] and A = store_ok_active [OF ok]
  note wd = image_world [OF D(1)] and st' = rollover_state [OF ok ne new]
  have fresh: "?i \<notin> tracked ?st" using D(10) by auto
  have img1: "crash_image C ms ?st fs [] [] w1"
    using fresh image_add_file [OF D(1)] by (simp add: tracked_def w1)
  have v: "op_valid ?st (the_op (bare (rollover_op s new_first)))" using st'(1) by (simp add: bare_def)
  show ?thesis
  proof (rule committed_image [OF img1 wr v])
    show "?st' = snd (apply_manifest_op (bare (rollover_op s new_first)) ?st)" by (simp add: rolled_def)
    show "segments ?st' \<noteq> []" by (simp add: st')
    show "\<forall>i \<in> set (ids_of ?st'). (\<forall>f \<in> set (?fs i). fits f) \<and> content w1 (segment_path i)
        = Some (SEGMENT_MAGIC @ frames_bytes C (?fs i) @ tail_of ?st' [] i)"
    proof
      fix i assume i: "i \<in> set (ids_of ?st')"
      show "(\<forall>f \<in> set (?fs i). fits f) \<and> content w1 (segment_path i)
        = Some (SEGMENT_MAGIC @ frames_bytes C (?fs i) @ tail_of ?st' [] i)"
      proof (cases "i = ?i")
        case False
        then have "i \<in> set (ids_of ?st)" using i by (simp add: st')
        from image_segment [OF D(1) this] False show ?thesis by (simp add: tail_of_def w1)
      qed (simp add: tail_of_def w1)
    qed
    show "\<forall>i info. seals ?st' i = Some info \<longrightarrow> unat (final_size info) = MAGIC_LEN + length (frames_bytes C (?fs i))"
    proof (intro allI impI)
      fix i info assume info: "seals ?st' i = Some info"
      show "unat (final_size info) = MAGIC_LEN + length (frames_bytes C (?fs i))"
      proof (cases "i = ?a")
        case True
        have "unat (of_nat (MAGIC_LEN + length (frames_bytes C (fs ?a))) :: u64)
            = MAGIC_LEN + length (frames_bytes C (fs ?a))"
          using size by (subst unat_of_nat) simp
        moreover have "?a \<noteq> ?i" using A(2) fresh by (auto simp: tracked_def)
        ultimately show ?thesis using True info by (auto simp: st' simp del: of_nat_add)
      next
        case False
        then have "seals ?st i = Some info" using info by (simp add: st')
        moreover have "i \<noteq> ?i"
          using calculation dom_seals_ids [OF wd(4)] fresh by (auto simp: tracked_def)
        ultimately show ?thesis using D(1) by (simp add: crash_image_def)
      qed
    qed
  qed
qed

lemma rollover_entries:
  assumes ok: "store_ok C ms fs pend (s, w)" and ne: "fs (active_id s) \<noteq> []"
    and new: "\<forall>f \<in> set (fs (active_id s)). fst f < new_first"
  defines "st' \<equiv> rolled (st_state s) (rollover_op s new_first)"
  shows "concat (map (fs(next_seg_id s := [])) (ids_of st')) = concat (map fs (ids_of (st_state s)))"
    and "entries_ok (fs(next_seg_id s := [])) st'"
proof -
  let ?a = "active_id s" and ?i = "next_seg_id s" and ?st = "st_state s" and ?fs = "fs(next_seg_id s := [])"
  note D = store_okD [OF ok] and A = store_ok_active [OF ok]
  note wd = image_world [OF D(1)] and st' = rollover_state [OF ok ne new, folded st'_def]
  have nin: "?i \<notin> set (ids_of ?st)" using D(10) by (auto simp: tracked_def)
  have ai: "?a \<noteq> ?i" using A(2) nin by auto
  have ids: "ids_of st' = ids_of ?st @ [?i]" by (simp add: st')
  have "map ?fs (ids_of ?st) = map fs (ids_of ?st)" using nin by (auto simp: image_iff)
  then show all: "concat (map ?fs (ids_of st')) = concat (map fs (ids_of ?st))" by (simp only: ids map_append) simp
  have "ids_of ?st = butlast (ids_of ?st) @ [?a]"
    using A(1) wd(5) append_butlast_last_id [of "ids_of ?st"] by simp
  then have "set (ids_of ?st) = insert ?a (set (butlast (ids_of ?st)))"
    by (metis Un_insert_right list.simps(15) set_append set_empty2 sup_bot_right)
  then have full: "\<forall>i \<in> set (ids_of ?st). fs i \<noteq> []" using D(3) ne by (auto simp: entries_ok_def entries_sorted_def)
  have "\<forall>i \<in> set (butlast (ids_of st')). ?fs i \<noteq> []"
    using full nin by (simp only: ids butlast_snoc) (auto simp: image_iff)
  then have "entries_sorted ?fs (ids_of st')"
    using D(3) all by (simp only: entries_sorted_def entries_ok_def)
  moreover have "\<forall>e \<in> set (segments st'). \<forall>f \<in> set (?fs (se_id e)). se_first e \<le> fst f"
    using D(3) nin by (auto simp: entries_ok_def st')
  moreover have "fst f \<le> sealed_last info" if "seals st' i = Some info" "f \<in> set (?fs i)" for i info f
  proof (cases "i = ?a")
    case True
    then have "f \<in> set (fs ?a)" using that(2) ai by simp
    from entries_ok_last(2) [OF D(3) wd(5) A(1) ne this] True that(1) show ?thesis
      by (auto simp: st')
  next
    case False
    with that D(3) show ?thesis by (auto simp: st' entries_ok_def split: if_splits)
  qed
  ultimately show "entries_ok ?fs st'" by (auto simp: entries_ok_def)
qed

lemma do_rollover_run:
  assumes ok: "store_ok C ms fs pend (s, w)" and ne: "fs (active_id s) \<noteq> []"
    and new: "\<forall>f \<in> set (fs (active_id s)). fst f < new_first"
    and nxt: "next_segment_id (next_seg_id s) = Some n"
    and wr: "op_writable C (bare (rollover_op s new_first))"
    and size: "MAGIC_LEN + length (frames_bytes C (fs (active_id s))) < 2 ^ 64"
  defines "m \<equiv> bare (rollover_op s new_first)"
  shows "\<exists>s' w'. do_rollover C new_first (s, w) = (Inr (), s', w')
    \<and> store_ok C (ms @ [m]) (fs(next_seg_id s := [])) pend (s', w')
    \<and> active_id s' = next_seg_id s \<and> st_state s' = rolled (st_state s) (rollover_op s new_first)
    \<and> ids_of (st_state s') = ids_of (st_state s) @ [next_seg_id s]
    \<and> se_first (last (segments (st_state s'))) = new_first
    \<and> dead (st_state s') = dead (st_state s)
    \<and> head_entry (st_state s') = head_entry (st_state s)
    \<and> segments (st_state s') = segments (st_state s) @ [\<lparr>se_id = next_seg_id s, se_first = new_first\<rparr>]
    \<and> rollover_trigger s' = rollover_trigger s \<and> st_index s' = st_index s
    \<and> metadata (st_state s') = metadata (st_state s)
    \<and> listed w' = listed w \<and> (\<forall>n. n \<noteq> MANIFEST_FILE_NAME \<and> n \<noteq> segment_path (next_seg_id s)
        \<longrightarrow> content w' n = content w n \<and> saved w' n = saved w n)"
proof -
  let ?i = "next_seg_id s" and ?st = "st_state s" and ?fs = "fs(next_seg_id s := [])"
  note D = store_okD [OF ok]
  note wd = image_world [OF D(1)] and eok = rollover_entries [OF ok ne new]
  define st' where "st' = rolled ?st (rollover_op s new_first)"
  note st' = rollover_state [OF ok ne new, folded st'_def]
  have fresh: "?i \<notin> tracked ?st" using D(10) by auto
  let ?w1 = "store_file (segment_path ?i) SEGMENT_MAGIC w"
  have "content w (segment_path ?i) = None" using D(2) fresh by (auto simp: on_disk_def)
  then have create: "create_segment_file ?i w = (Inr (\<lparr>path = segment_path ?i, cursor_at = MAGIC_LEN\<rparr>, MAGIC_LEN), ?w1)"
    using wd(1,3) by (simp add: create_segment_file_healthy)
  define w' where "w' = store_file MANIFEST_FILE_NAME (MANIFEST_MAGIC @ ops_bytes C (ms @ [m])) ?w1"
  have img: "crash_image C (ms @ [m]) st' ?fs [] [] w'"
    unfolding w'_def m_def st'_def by (rule rollover_image [OF ok ne new wr size refl])
  define s' where "s' = s\<lparr>manifest_cursor := cursor_new (MAGIC_LEN + length (ops_bytes C (ms @ [m]))),
    st_state := st', next_seg_id := n, active_id := ?i,
    active_cursor := set_position MAGIC_LEN (active_cursor s), active_first_entry := new_first,
    active_entry_count := 0\<rparr>"
  have img1: "crash_image C ms ?st fs [] [] ?w1"
    using fresh image_add_file [OF D(1)] by (simp add: tracked_def)
  have "op_error ?st (the_op m) = None" using op_valid_no_error [OF st'(1)] by (simp add: m_def bare_def)
  then have "commit_op C m (s, ?w1) = (Inr (), committed C ms m (s, ?w1))"
    by (rule commit_op_run [OF img1 D(4,5)])
  then have run: "do_rollover C new_first (s, w) = (Inr (), s', w')"
    using nxt by (simp add: do_rollover_def and_then_def on_world_def create committed_def s'_def w'_def
        st'_def rolled_def m_def)
  have "\<forall>i \<in> tracked st'. i < n"
    using D(10) next_segment_id_greater [OF nxt] by (auto simp: tracked_def st' intro: less_imp_le)
  moreover have "last_ok ?fs st' (last_entry s)"
    using D(13) unfolding last_ok_def st'_def eok(1) .
  moreover have "index_ok C ?fs st' (st_index s)"
    by (rule index_ok_new [OF D(12)]) (use fresh in \<open>auto simp: tracked_def st'\<close>)
  moreover have "on_disk w' = tracked st'" using D(2) by (auto simp: w'_def on_disk_def tracked_def st')
  ultimately have "store_ok C (ms @ [m]) ?fs pend (s', w')"
    using D img eok(2) by (simp add: store_ok_def s'_def st' set_position_def flip: st'_def)
  moreover have "active_id s' = ?i" "st_state s' = st'" "rollover_trigger s' = rollover_trigger s"
    "st_index s' = st_index s" by (simp_all add: s'_def)
  moreover have "listed w' = listed w" "\<forall>n. n \<noteq> MANIFEST_FILE_NAME \<and> n \<noteq> segment_path ?i
      \<longrightarrow> content w' n = content w n \<and> saved w' n = saved w n"
    by (simp_all add: w'_def)
  ultimately show ?thesis
    using run st' by (intro exI [of _ s'] exI [of _ w'] conjI) (simp_all add: st'_def)
qed

section \<open>A batch that rolls over\<close>

lemma write_batch_after_rollover:
  assumes "rollover_pending s" and "pend \<noteq> []"
    and "do_rollover C (fst (hd pend)) (s, w) = (Inr (), s1, w1)"
  shows "write_batch C (batch_of pend) (s, w)
    = write_batch C (batch_of pend) (s1\<lparr>rollover_pending := False\<rparr>, w1)"
proof -
  obtain m where "length pend = Suc m" using assms(2) by (cases pend) auto
  then show ?thesis
    using assms by (simp add: write_batch_def batch_of_def last_frame_id_def and_then_def update_store_def)
qed

text \<open>After the rollover the batch goes to the new segment as if there had been none.\<close>

lemma rollover_ready:
  assumes ok: "store_ok C ms fs pend (s, w)" and roll: "rollover_pending s"
    and ne: "fs (active_id s) \<noteq> []" and cont: "continues fs (st_state s) pend"
    and nxt: "next_segment_id (next_seg_id s) \<noteq> None"
    and wr: "op_writable C (bare (rollover_op s (fst (hd pend))))"
    and size: "MAGIC_LEN + length (frames_bytes C (fs (active_id s))) < 2 ^ 64"
  obtains s1 w1 where "do_rollover C (fst (hd pend)) (s, w) = (Inr (), s1\<lparr>rollover_pending := True\<rparr>, w1)"
    and "write_batch C (batch_of pend) (s, w) = write_batch C (batch_of pend) (s1, w1)"
    and "store_ok C (ms @ [bare (rollover_op s (fst (hd pend)))]) (fs(next_seg_id s := [])) pend (s1, w1)"
    and "continues (fs(next_seg_id s := [])) (st_state s1) pend" and "rollover_pending s1 = False"
    and "active_id s1 = next_seg_id s"
    and "segments (st_state s1) = segments (st_state s) @ [\<lparr>se_id = next_seg_id s, se_first = fst (hd pend)\<rparr>]"
    and "head_entry (st_state s1) = head_entry (st_state s)" and "dead (st_state s1) = dead (st_state s)"
    and "metadata (st_state s1) = metadata (st_state s)"
    and "st_index s1 = st_index s" and "rollover_trigger s1 = rollover_trigger s"
    and "st_state s1 = rolled (st_state s) (rollover_op s (fst (hd pend)))" and "listed w1 = listed w"
    and "\<forall>n. n \<noteq> MANIFEST_FILE_NAME \<and> n \<noteq> segment_path (next_seg_id s)
      \<longrightarrow> content w1 n = content w n \<and> saved w1 n = saved w n"
proof -
  let ?a = "active_id s" and ?i = "next_seg_id s" and ?first = "fst (hd pend)"
  note D = store_okD [OF ok] and A = store_ok_active [OF ok]
  have wd: "wf_state (st_state s)" "segments (st_state s) \<noteq> []" using image_world(4,5) [OF D(1)] .
  have pne: "pend \<noteq> []" using cont by (simp add: continues_def)
  have srt: "sorted_wrt (<) (map fst (concat (map fs (ids_of (st_state s))) @ pend))"
    using cont by (simp add: continues_def)
  have "fst f < ?first" if f: "f \<in> set (fs ?a)" for f
  proof -
    have "f \<in> set (concat (map fs (ids_of (st_state s))))" using f A(2) by auto
    then show ?thesis using srt hd_in_set [OF pne] by (auto simp: sorted_wrt_append)
  qed
  then have new: "\<forall>f \<in> set (fs ?a). fst f < ?first" by blast
  obtain n where n: "next_segment_id ?i = Some n" using nxt by auto
  obtain s1 w1 where s1: "do_rollover C ?first (s, w) = (Inr (), s1, w1)"
    "store_ok C (ms @ [bare (rollover_op s ?first)]) (fs(?i := [])) pend (s1, w1)"
    "active_id s1 = ?i" "ids_of (st_state s1) = ids_of (st_state s) @ [?i]"
    "se_first (last (segments (st_state s1))) = ?first"
    "segments (st_state s1) = segments (st_state s) @ [\<lparr>se_id = ?i, se_first = ?first\<rparr>]"
    "head_entry (st_state s1) = head_entry (st_state s)" "dead (st_state s1) = dead (st_state s)"
    "st_index s1 = st_index s" "rollover_trigger s1 = rollover_trigger s"
    "metadata (st_state s1) = metadata (st_state s)"
    "st_state s1 = rolled (st_state s) (rollover_op s ?first)" "listed w1 = listed w"
    "\<forall>n. n \<noteq> MANIFEST_FILE_NAME \<and> n \<noteq> segment_path ?i
      \<longrightarrow> content w1 n = content w n \<and> saved w1 n = saved w n"
    using do_rollover_run [OF ok ne new n wr size] by blast
  let ?s2 = "s1\<lparr>rollover_pending := False\<rparr>"
  have ok2: "store_ok C (ms @ [bare (rollover_op s ?first)]) (fs(?i := [])) pend (?s2, w1)"
    using s1(2) by (simp add: store_ok_def)
  have nin: "?i \<notin> set (ids_of (st_state s))" using D(10) by (auto simp: tracked_def)
  have fsm: "map (fs(?i := [])) (ids_of (st_state s)) = map fs (ids_of (st_state s))"
    using nin by (auto simp: image_iff)
  have all: "concat (map (fs(?i := [])) (ids_of (st_state ?s2))) = concat (map fs (ids_of (st_state s)))"
  proof -
    have "st_state ?s2 = st_state s1" by simp
    then show ?thesis by (simp only: s1(4) map_append fsm) simp
  qed
  have "?first \<le> fst f" if "f \<in> set pend" for f
    using srt that pne by (cases pend) (auto simp: sorted_wrt_append)
  then have cont2: "continues (fs(?i := [])) (st_state ?s2) pend"
    using cont s1(5) srt unfolding continues_def all by simp
  have run: "write_batch C (batch_of pend) (s, w) = write_batch C (batch_of pend) (?s2, w1)"
    by (rule write_batch_after_rollover [OF roll pne s1(1)])
  have "rollover_pending s1 = True"
    using s1(1) roll by (auto simp: do_rollover_def and_then_eq_Inr on_world_def commit_op_def
        split: prod.splits sum.splits option.splits)
  then have "do_rollover C ?first (s, w) = (Inr (), ?s2\<lparr>rollover_pending := True\<rparr>, w1)"
    using s1(1) by (cases s1) simp
  from that [OF this run ok2 cont2] s1 show thesis by simp
qed

lemma write_batch_rolls:
  assumes ok: "store_ok C ms fs pend (s, w)" and roll: "rollover_pending s"
    and ne: "fs (active_id s) \<noteq> []" and cont: "continues fs (st_state s) pend"
    and nxt: "next_segment_id (next_seg_id s) \<noteq> None"
    and wr: "op_writable C (bare (rollover_op s (fst (hd pend))))"
    and size: "MAGIC_LEN + length (frames_bytes C (fs (active_id s))) < 2 ^ 64"
  shows "\<exists>f s' w'. write_batch C (batch_of pend) (s, w) = (Inr (Some f), s', w')
    \<and> store_ok C (ms @ [bare (rollover_op s (fst (hd pend)))]) (fs(next_seg_id s := pend)) [] (s', w')
    \<and> active_id s' = next_seg_id s \<and> path f = segment_path (next_seg_id s)
    \<and> segments (st_state s') = segments (st_state s) @ [\<lparr>se_id = next_seg_id s, se_first = fst (hd pend)\<rparr>]
    \<and> last_entry s' = last_frame_id pend
    \<and> head_entry (st_state s') = head_entry (st_state s)
    \<and> dead (st_state s') = dead (st_state s) \<and> st_index s' = st_index s
    \<and> rollover_trigger s' = rollover_trigger s
    \<and> metadata (st_state s') = metadata (st_state s)"
proof -
  let ?i = "next_seg_id s"
  obtain s1 w1 where s1: "write_batch C (batch_of pend) (s, w) = write_batch C (batch_of pend) (s1, w1)"
    "store_ok C (ms @ [bare (rollover_op s (fst (hd pend)))]) (fs(?i := [])) pend (s1, w1)"
    "continues (fs(?i := [])) (st_state s1) pend" "rollover_pending s1 = False" "active_id s1 = ?i"
    "segments (st_state s1) = segments (st_state s) @ [\<lparr>se_id = ?i, se_first = fst (hd pend)\<rparr>]"
    "head_entry (st_state s1) = head_entry (st_state s)" "dead (st_state s1) = dead (st_state s)"
    "metadata (st_state s1) = metadata (st_state s)" "st_index s1 = st_index s"
    "rollover_trigger s1 = rollover_trigger s"
    by (rule rollover_ready [OF assms])
  obtain f s' w' where r: "write_batch C (batch_of pend) (s1, w1) = (Inr (Some f), s', w')"
    "store_ok C (ms @ [bare (rollover_op s (fst (hd pend)))]) (fs(?i := pend)) [] (s', w')"
    "path f = segment_path ?i" "active_id s' = ?i" "st_state s' = st_state s1"
    "last_entry s' = last_frame_id pend" "st_index s' = st_index s1" "rollover_trigger s' = rollover_trigger s1"
    using write_batch_run [OF s1(2,4,3)] s1(5) by auto
  then show ?thesis
    using s1 by (intro exI [of _ f] exI [of _ s'] exI [of _ w']) simp
qed

end
