(* ===== verification/Store_Claims.thy ===== *)
theory Store_Claims
  imports Store_Rollover
begin

text \<open>
  Creating a store in an empty directory and opening what a crash left (\<^verbatim>\<open>src/store.rs\<close>,
  \<^verbatim>\<open>src/scan.rs\<close> and \<^verbatim>\<open>src/recovery.rs\<close> together).
\<close>

section \<open>A fresh store\<close>

abbreviation first_op :: manifest_op where
  "first_op \<equiv> bare (CreateSegment (SegmentId 1) (EntryId 0))"

definition fresh_state :: store_state where
  "fresh_state = \<lparr>segments = [\<lparr>se_id = SegmentId 1, se_first = EntryId 0\<rparr>], seals = Map.empty,
     active_segment_id = Some (SegmentId 1), dead = {}, head_entry = EntryId 0, metadata = []\<rparr>"

text \<open>An empty directory in a world without faults.\<close>

definition empty_dir :: "world \<Rightarrow> bool" where
  "empty_dir w \<longleftrightarrow> healthy w \<and> base_dir_exists w \<and> entries w = []"

lemma fresh_image:
  assumes "empty_dir w" and "op_writable C first_op"
  obtains w' where "create_store C w = (Inr (), w')"
    and "crash_image C [first_op] fresh_state (\<lambda>_. []) [] [] w'" and "on_disk w' = {SegmentId 1}"
    and "saved w' MANIFEST_FILE_NAME = MANIFEST_MAGIC"
    and "\<forall>n c. n \<noteq> MANIFEST_FILE_NAME \<and> content w' n = Some c \<longrightarrow> saved w' n = c"
proof -
  have w: "healthy w" "base_dir_exists w" "entries w = []" using assms(1) by (auto simp: empty_dir_def)
  let ?w1 = "save_names (store_file MANIFEST_FILE_NAME MANIFEST_MAGIC w)"
  let ?w2 = "store_file (segment_path (SegmentId 1)) SEGMENT_MAGIC ?w1"
  let ?c = "MANIFEST_MAGIC @ ops_bytes C [first_op]"
  let ?w3 = "put_content MANIFEST_FILE_NAME ?c ?w2"
  have m: "create_manifest w = (Inr (manifest_handle, MAGIC_LEN), ?w1)"
    using w by (simp add: create_manifest_healthy manifest_handle_def)
  have s: "create_segment_file (SegmentId 1) ?w1
      = (Inr (\<lparr>path = segment_path (SegmentId 1), cursor_at = MAGIC_LEN\<rparr>, MAGIC_LEN), ?w2)"
    using w by (simp add: create_segment_file_healthy)
  have "write_bytes MANIFEST_FILE_NAME MAGIC_LEN (frame_bytes C (op_frame C first_op)) ?w2 = ?w3"
    using overwrite_at_end [of MANIFEST_MAGIC "frame_bytes C (op_frame C first_op)"]
    by (simp add: write_bytes_def del: overwrite_at_end)
  then have "create_store C w = (Inr (), ?w3)"
    using w by (simp add: create_store_def and_then_def m s cursor_flush_def cursor_write_def cursor_new_def
        buffer_write_frame op_frame_def manifest_handle_def)
  moreover have "crash_image C [first_op] fresh_state (\<lambda>_. []) [] [] ?w3"
  proof -
    have "run_ops [first_op] = Some fresh_state"
      by (simp add: run_ops_def and_then_def apply_manifest_op_result bare_def empty_state_def
          create_segment_def is_empty_def fresh_state_def)
    moreover have "wf_state fresh_state" by (simp add: wf_state_def fresh_state_def)
    moreover have "wf_world ?w3" using w wf_world_Nil by simp
    ultimately show ?thesis
      using w assms(2) by (auto simp: crash_image_def fresh_state_def tail_of_def)
  qed
  moreover have "on_disk ?w3 = {SegmentId 1}" using w by (auto simp: on_disk_def)
  moreover have "saved ?w3 MANIFEST_FILE_NAME = MANIFEST_MAGIC" by simp
  moreover have "\<forall>n c. n \<noteq> MANIFEST_FILE_NAME \<and> content ?w3 n = Some c \<longrightarrow> saved ?w3 n = c"
    using w(3) by auto
  ultimately show thesis by (rule that)
qed

lemma fresh_entries: "entries_ok (\<lambda>_. []) fresh_state"
  by (simp add: entries_ok_def entries_sorted_def fresh_state_def)

lemma max_id_fresh: "max_segment_id fresh_state = SegmentId 1"
  by (simp add: max_segment_id_def fresh_state_def)

text \<open>Everything of a new store is synchronised apart from the first operation in the manifest.\<close>

lemma fresh_opens:
  assumes "empty_dir w" and "op_writable C first_op" and "order_ok C" and "recovery_writable C"
  shows "\<exists>s w'. open_or_create C trigger w = (Inr s, w')
    \<and> store_ok C [first_op] (\<lambda>_. []) [] (s, w') \<and> st_state s = fresh_state
    \<and> active_id s = SegmentId 1 \<and> last_entry s = None \<and> rollover_pending s = False
    \<and> rollover_trigger s = trigger \<and> next_seg_id s = SegmentId 2
    \<and> saved w' MANIFEST_FILE_NAME = MANIFEST_MAGIC
    \<and> (\<forall>n c. n \<noteq> MANIFEST_FILE_NAME \<and> content w' n = Some c \<longrightarrow> saved w' n = c)"
proof -
  obtain w1 where w1: "create_store C w = (Inr (), w1)"
    "crash_image C [first_op] fresh_state (\<lambda>_. []) [] [] w1" "on_disk w1 = {SegmentId 1}"
    "saved w1 MANIFEST_FILE_NAME = MANIFEST_MAGIC"
    "\<forall>n c. n \<noteq> MANIFEST_FILE_NAME \<and> content w1 n = Some c \<longrightarrow> saved w1 n = c"
    by (rule fresh_image [OF assms(1,2)])
  have disk: "on_disk w1 = tracked fresh_state" using w1(3) by (auto simp: tracked_def fresh_state_def)
  have nxt: "next_segment_id (max_segment_id fresh_state) \<noteq> None"
    unfolding max_id_fresh by (simp add: next_segment_id_def)
  obtain s where s: "open_store C trigger w1 = (Inr s, w1)"
    "store_ok C [first_op] (\<lambda>_. []) [] (s, w1)" "st_state s = fresh_state"
    "last_entry s = (case last_frame_id ([] :: frame list) of
        Some l \<Rightarrow> Some l | None \<Rightarrow> sealed_last_entry fresh_state)" "rollover_pending s = False"
    "rollover_trigger s = trigger" "next_segment_id (max_segment_id fresh_state) = Some (next_seg_id s)"
    using open_clean [OF w1(2) fresh_entries disk nxt assms(3), of trigger] by blast
  have "content w MANIFEST_FILE_NAME = None" "healthy w" using assms(1) by (auto simp: empty_dir_def)
  then have "open_or_create C trigger w = (Inr s, w1)"
    using w1(1) s(1) by (simp add: open_or_create_def manifest_exists_def and_then_def map_err_def)
  moreover have "active_id s = SegmentId 1" using store_okD(6) [OF s(2)] s(3) by (simp add: fresh_state_def)
  moreover have "last_entry s = None"
    using s(4) by (simp add: sealed_last_entry_def fresh_state_def List.map_filter_simps last_frame_id_def)
  moreover have "next_seg_id s = SegmentId 2"
    using s(7) max_id_fresh by (simp add: next_segment_id_def)
  ultimately show ?thesis using s w1(4,5) by blast
qed

lemma sample_recovery_writable: "recovery_writable sample"
  unfolding recovery_writable_def
  by (intro allI conjI sample_writable; simp add: bare_def encode_sample_simps)

lemma sample_first_writable: "op_writable sample first_op"
  by (rule sample_writable) (simp add: bare_def encode_sample_simps)

definition empty_world :: world where
  "empty_world = \<lparr>base_dir_exists = True, entries = [], faults = [], saved = \<lambda>_. [], listed = []\<rparr>"

lemma empty_world_dir: "empty_dir empty_world"
  by (simp add: empty_dir_def empty_world_def healthy_def)

text \<open>Opening an empty directory creates a store that is open for writing: no entries, one active
  segment, and a directory that agrees with the state in memory.\<close>

theorem open_or_create_fresh:
  assumes "empty_dir w" and "op_writable C first_op" and "order_ok C" and "recovery_writable C"
  shows "\<exists>s w'. open_or_create C trigger w = (Inr s, w')
    \<and> store_ok C [first_op] (\<lambda>_. []) [] (s, w') \<and> last_entry_id s = None \<and> first_entry_id s = 0"
proof -
  obtain s w' where s: "open_or_create C trigger w = (Inr s, w')"
    "store_ok C [first_op] (\<lambda>_. []) [] (s, w')" "st_state s = fresh_state" "last_entry s = None"
    using fresh_opens [OF assms] by blast
  then have "last_entry_id s = None" "first_entry_id s = 0"
    by (simp_all add: last_entry_id_def first_entry_id_def fresh_state_def)
  with s(1,2) show ?thesis by blast
qed

theorem open_or_create_fresh_witness:
  "\<exists>s w'. open_or_create sample 1000 empty_world = (Inr s, w')
    \<and> store_ok sample [first_op] (\<lambda>_. []) [] (s, w') \<and> last_entry_id s = None \<and> first_entry_id s = 0"
  by (rule open_or_create_fresh [OF empty_world_dir sample_first_writable sample_order
        sample_recovery_writable])

section \<open>Opening after a crash\<close>


text \<open>The directory of a fresh store with an unknown segment file and a piece of a frame.\<close>

definition crashed_world :: world where
  "crashed_world = \<lparr>base_dir_exists = True,
     entries = [(MANIFEST_FILE_NAME, MANIFEST_MAGIC @ ops_bytes sample [first_op]),
       (segment_path (SegmentId 1), SEGMENT_MAGIC @ frames_bytes sample [(EntryId 3, [7])]
          @ take 5 (frame_bytes sample (EntryId 4, [8]))),
       (segment_path (SegmentId 2), [])], faults = [], saved = \<lambda>_. [], listed = []\<rparr>"

definition crashed_frames :: "segment_id \<Rightarrow> frame list" where
  "crashed_frames i = (if i = SegmentId 1 then [(EntryId 3, [7])] else [])"

lemma crashed_world_image:
  "crash_image sample [first_op] fresh_state crashed_frames []
     (take 5 (frame_bytes sample (EntryId 4, [8]))) crashed_world"
proof -
  have "run_ops [first_op] = Some fresh_state"
    by (simp add: run_ops_def and_then_def apply_manifest_op_result bare_def empty_state_def
        create_segment_def is_empty_def fresh_state_def)
  moreover have "wf_state fresh_state" by (simp add: wf_state_def fresh_state_def)
  moreover have "torn_piece sample (take 5 (frame_bytes sample (EntryId 4, [8])))"
    unfolding torn_piece_def
    by (intro exI [of _ "(EntryId 4, [8])"] exI [of _ 5]) (simp add: fits_def frame_len_def HEADER_LEN_def)
  ultimately show ?thesis
    using sample_first_writable
    by (auto simp: crash_image_def crashed_world_def crashed_frames_def fresh_state_def tail_of_def
        fits_def healthy_def wf_world_def)
qed


end
