(* ===== verification/Store_Batches.thy ===== *)
theory Store_Batches
  imports Store_Claims
begin

text \<open>
  What \<^verbatim>\<open>StoreWriter\<close> of \<^verbatim>\<open>src/store.rs\<close> promises, end to end: a batch that was written, cut short by a
  crash, or written behind a rollover, and what opening the store again then finds.
\<close>

section \<open>Opening again\<close>

text \<open>The directory of a store that is closed, or whose process ends, opens again without recovery to
  the same state.\<close>

lemma with_dead_same: "wf_state st \<Longrightarrow> with_dead (tracked st - set (ids_of st)) st = st"
proof -
  assume "wf_state st"
  then have "tracked st - set (ids_of st) = dead st" by (auto simp: wf_state_def tracked_def)
  then show ?thesis by simp
qed

lemma recovery_ops_Nil: "order_ok C \<Longrightarrow> on_disk w = tracked st \<Longrightarrow> recovery_ops C st w = []"
  by (simp add: recovery_ops_def orphans_def missing_dead_def filter_empty_conv tracked_def)

lemma reopens:
  assumes img: "crash_image C ms st fs mtail tail w" and disk: "on_disk w = tracked st"
    and eok: "entries_ok fs st" and ord: "order_ok C" and wr: "recovery_writable C"
    and nxt: "next_segment_id (max_segment_id st) \<noteq> None"
  shows "\<exists>s w'. open_store C trigger w = (Inr s, w') \<and> store_ok C ms fs [] (s, w') \<and> st_state s = st
    \<and> active_entry_count s = length (fs (active_id s))
    \<and> last_entry s = (case last_frame_id (fs (active_id s)) of
        Some l \<Rightarrow> Some l | None \<Rightarrow> sealed_last_entry st)
    \<and> index_full fs st (st_index s) \<and> rollover_pending s = False \<and> rollover_trigger s = trigger"
proof -
  have st: "with_dead (on_disk w - set (ids_of st)) st = st"
    using with_dead_same [OF image_world(4) [OF img]] disk by simp
  show ?thesis
    using open_image [OF img eok ord wr, of trigger] nxt
    unfolding st recovery_ops_Nil [OF ord disk] by fastforce
qed

text \<open>A scan with an issue that has no fix, approved or not, leaves the store closed.\<close>

lemma stuck_not_possible:
  assumes "scan_store C w = (report, w)" and "report_issues report = iss" and "iss \<noteq> []"
    and "\<And>b. collect_fix_ups b iss = Inl NotPossible"
  shows "open_store C trigger w = (Inl (Err (RecoveryNotPossible iss)), w)
    \<and> recover C w = (Inl (Err NotPossible), w)"
  using assms by (simp add: open_store_def recover_def attempt_recovery_def err_def)

section \<open>A store with one batch\<close>

definition first_batch :: "frame list" where
  "first_batch = [(EntryId 0, [7])]"

definition next_batch :: "frame list" where
  "next_batch = [(EntryId 1, [8]), (EntryId 2, [9, 9])]"

definition batch_frames :: "segment_id \<Rightarrow> frame list" where
  "batch_frames = (\<lambda>_. [])(SegmentId 1 := first_batch)"

lemma continues_first: "continues (\<lambda>_. []) fresh_state first_batch"
  by (simp add: continues_def first_batch_def fresh_state_def fits_def less_eq_entry_id_def)

lemma continues_next: "continues batch_frames fresh_state next_batch"
  by (simp add: continues_def next_batch_def batch_frames_def first_batch_def fresh_state_def fits_def
      less_eq_entry_id_def less_entry_id_def)

text \<open>The second batch is pushed, the first one was written.\<close>

lemma sample_store:
  fixes trigger :: nat
  obtains s w f where "store_ok sample [first_op] batch_frames next_batch (s, w)"
    and "st_state s = fresh_state" and "active_id s = SegmentId 1" and "next_seg_id s = SegmentId 2"
    and "open_files s (SegmentId 1) = Some f" and "rollover_pending s = (trigger < 29)"
    and "entry_marks (st_index s) = []" and "rollover_trigger s = trigger"
proof -
  obtain s w where s: "store_ok sample [first_op] (\<lambda>_. []) [] (s, w)" "st_state s = fresh_state"
    "active_id s = SegmentId 1" "rollover_pending s = False" "rollover_trigger s = trigger"
    "next_seg_id s = SegmentId 2"
    using fresh_opens [OF empty_world_dir sample_first_writable sample_order sample_recovery_writable,
        of trigger] by blast
  have e: "entry_marks (st_index s) = []"
    using store_okD(12) [OF s(1)] by (auto simp: index_ok_def mark_ok_def)
  define s1 where "s1 = snd (push sample 0 [7] (batch_of [], s))"
  have s1: "store_ok sample [first_op] (\<lambda>_. []) first_batch (s1, w)" "st_state s1 = fresh_state"
    "active_id s1 = SegmentId 1" "rollover_pending s1 = False" "next_seg_id s1 = SegmentId 2"
    "rollover_trigger s1 = trigger" "st_index s1 = st_index s"
    using push_ok [OF s(1), of 0 "[7]"] s by (simp_all add: s1_def first_batch_def push_def)
  obtain f s2 w2 where s2: "store_ok sample [first_op] batch_frames [] (s2, w2)"
    "active_id s2 = SegmentId 1" "open_files s2 (SegmentId 1) = Some f" "st_state s2 = fresh_state"
    "next_seg_id s2 = SegmentId 2" "rollover_pending s2 = (trigger < 29)" "st_index s2 = st_index s"
    "rollover_trigger s2 = trigger"
    using write_batch_run [OF s1(1,4)] continues_first s1
    by (auto simp: batch_frames_def first_batch_def frame_len_def HEADER_LEN_def MAGIC_LEN_def)
  define s3 where "s3 = snd (push sample 1 [8] (batch_of [], s2))"
  have s3: "store_ok sample [first_op] batch_frames [(EntryId 1, [8])] (s3, w2)"
    "active_id s3 = SegmentId 1" "open_files s3 (SegmentId 1) = Some f" "st_state s3 = fresh_state"
    "next_seg_id s3 = SegmentId 2" "rollover_pending s3 = (trigger < 29)" "st_index s3 = st_index s"
    "rollover_trigger s3 = trigger"
    using push_ok [OF s2(1), of 1 "[8]"] s2 by (simp_all add: s3_def)
  define s4 where "s4 = snd (push sample 2 [9, 9] (batch_of [(EntryId 1, [8])], s3))"
  have "store_ok sample [first_op] batch_frames next_batch (s4, w2)"
    "active_id s4 = SegmentId 1" "open_files s4 (SegmentId 1) = Some f" "st_state s4 = fresh_state"
    "next_seg_id s4 = SegmentId 2" "rollover_pending s4 = (trigger < 29)" "entry_marks (st_index s4) = []"
    "rollover_trigger s4 = trigger"
    using push_ok [OF s3(1), of 2 "[9, 9]"] s3 e by (simp_all add: s4_def next_batch_def)
  then show thesis by (intro that) auto
qed

lemma writing_store:
  obtains s w f where "store_ok sample [first_op] batch_frames next_batch (s, w)"
    and "st_state s = fresh_state" and "active_id s = SegmentId 1" and "rollover_pending s = False"
    and "open_files s (SegmentId 1) = Some f"
  by (rule sample_store [where trigger = 1000]) (rule that; simp)

lemma rolling_store:
  obtains s w where "store_ok sample [first_op] batch_frames next_batch (s, w)"
    and "st_state s = fresh_state" and "active_id s = SegmentId 1" and "rollover_pending s"
    and "next_seg_id s = SegmentId 2" and "entry_marks (st_index s) = []"
  by (rule sample_store [where trigger = 10]) (rule that; simp)

lemma next_after_tracked:
  assumes "store_ok C ms fs pend (s, w)"
  shows "next_segment_id (max_segment_id (st_state s)) \<noteq> None"
proof -
  note D = store_okD [OF assms]
  have "tracked (st_state s) \<noteq> {}" using image_world(5) [OF D(1)] by (simp add: tracked_def)
  then have "max_segment_id (st_state s) \<in> tracked (st_state s)"
    using Max_in [of "tracked (st_state s)"] by (simp add: max_segment_id_def Let_def tracked_def)
  then have "max_segment_id (st_state s) < next_seg_id s" using D(10) by blast
  then have "sid (max_segment_id (st_state s)) < sid (next_seg_id s)" by (simp add: less_segment_id_def)
  then have "sid (max_segment_id (st_state s)) \<noteq> - 1"
    by (metis word_order.extremum_strict)
  then show ?thesis by (simp add: next_segment_id_def)
qed

section \<open>Written batches\<close>

text \<open>C12: A batch that was written is there when the store is opened again: the frames of the active
  segment are those before with the batch behind them, the last entry is the batch's last, and the
  count of active entries agrees in memory and after reopening.\<close>

theorem written_batch_reopens:
  assumes ok: "store_ok C ms fs pend (s, w)" and roll: "rollover_pending s = False"
    and cont: "continues fs (st_state s) pend" and ord: "order_ok C" and wr: "recovery_writable C"
  shows "\<exists>f s' w' s2 w2. write_batch C (batch_of pend) (s, w) = (Inr (Some f), s', w')
    \<and> path f = segment_path (active_id s)
    \<and> store_ok C ms (fs(active_id s := fs (active_id s) @ pend)) [] (s', w')
    \<and> open_store C trigger w' = (Inr s2, w2)
    \<and> store_ok C ms (fs(active_id s := fs (active_id s) @ pend)) [] (s2, w2)
    \<and> st_state s2 = st_state s \<and> last_entry s2 = Some (fst (last pend)) \<and> last_entry s' = last_entry s2
    \<and> active_entry_count s2 = length (fs (active_id s) @ pend)"
proof -
  let ?fs = "fs(active_id s := fs (active_id s) @ pend)"
  obtain f s' w' where r: "write_batch C (batch_of pend) (s, w) = (Inr (Some f), s', w')"
    "store_ok C ms ?fs [] (s', w')" "path f = segment_path (active_id s)" "st_state s' = st_state s"
    "last_entry s' = last_frame_id pend"
    using write_batch_run [OF ok roll cont] by blast
  have ne: "pend \<noteq> []" using cont by (simp add: continues_def)
  note D = store_okD [OF r(2)]
  obtain s2 w2 where o: "open_store C trigger w' = (Inr s2, w2)" "store_ok C ms ?fs [] (s2, w2)"
    "st_state s2 = st_state s'" "active_entry_count s2 = length (?fs (active_id s2))"
    "last_entry s2 = (case last_frame_id (?fs (active_id s2)) of
        Some l \<Rightarrow> Some l | None \<Rightarrow> sealed_last_entry (st_state s'))"
    using reopens [OF D(1-3) ord wr next_after_tracked [OF r(2)], of trigger] by blast
  have "active_id s2 = active_id s"
    using store_okD(6) [OF o(2)] store_okD(6) [OF ok] o(3) r(4) by simp
  with r o ne show ?thesis
    by (intro exI [of _ f] exI [of _ s'] exI [of _ w'] exI [of _ s2] exI [of _ w2])
      (simp add: last_frame_id_def)
qed

theorem written_batch_reopens_witness:
  "\<exists>s w f s' w' s2 w2. write_batch sample (batch_of next_batch) (s, w) = (Inr (Some f), s', w')
    \<and> open_store sample 1000 w' = (Inr s2, w2) \<and> last_entry s2 = Some (EntryId 2)
    \<and> active_entry_count s2 = 3"
proof -
  obtain s w f where s: "store_ok sample [first_op] batch_frames next_batch (s, w)"
    "st_state s = fresh_state" "active_id s = SegmentId 1" "rollover_pending s = False"
    "open_files s (SegmentId 1) = Some f"
    by (rule writing_store)
  have "continues batch_frames (st_state s) next_batch" using continues_next s(2) by simp
  from written_batch_reopens [OF s(1,4) this sample_order sample_recovery_writable, of 1000]
  obtain f s' w' s2 w2 where r: "write_batch sample (batch_of next_batch) (s, w) = (Inr (Some f), s', w')"
    "open_store sample 1000 w' = (Inr s2, w2)" "last_entry s2 = Some (fst (last next_batch))"
    "active_entry_count s2 = length (batch_frames (active_id s) @ next_batch)"
    by blast
  have "last_entry s2 = Some (EntryId 2)" "active_entry_count s2 = 3"
    using r(3,4) s(3) by (simp_all add: next_batch_def batch_frames_def first_batch_def)
  with r(1,2) show ?thesis by blast
qed

text \<open>A batch that is cut short and the process restarted.\<close>

lemma cut_batch_run:
  assumes ok: "store_ok C ms fs pend (s, w)" and roll: "rollover_pending s = False"
    and cont: "continues fs (st_state s) pend" and opn: "open_files s (active_id s) = Some f"
    and k: "k \<le> length (frames_bytes C pend)" and ord: "order_ok C" and wr: "recovery_writable C"
  shows "\<exists>s' w' n s2 w2. write_batch C (batch_of pend) (s, w\<lparr>faults := [Some k]\<rparr>)
        = (Inl (Err DeviceFault), s', w')
    \<and> n \<le> length pend \<and> length (frames_bytes C (take n pend)) \<le> k
    \<and> (n < length pend \<longrightarrow> k < length (frames_bytes C (take (Suc n) pend)))
    \<and> open_store C trigger w' = (Inr s2, w2)
    \<and> store_ok C ms (fs(active_id s := fs (active_id s) @ take n pend)) [] (s2, w2)
    \<and> st_state s2 = st_state s
    \<and> active_entry_count s2 = length (fs (active_id s) @ take n pend) \<and> rollover_pending s2 = False"
proof -
  obtain r s' w' where run: "write_batch C (batch_of pend) (s, w\<lparr>faults := [Some k]\<rparr>) = (r, s', w')"
    by (metis prod_cases3)
  obtain n tail where c: "r = Inl (Err DeviceFault)" "n \<le> length pend"
    "n < length pend \<longrightarrow> k < length (frames_bytes C (take (Suc n) pend))"
    "length (frames_bytes C (take n pend)) \<le> k"
    "crash_image C ms (st_state s) (fs(active_id s := fs (active_id s) @ take n pend)) [] tail w'"
    "entries_ok (fs(active_id s := fs (active_id s) @ take n pend)) (st_state s)" "on_disk w' = on_disk w"
    using write_batch_cut [OF ok roll cont opn k run] by blast
  have disk: "on_disk w' = tracked (st_state s)" using c(7) store_okD(2) [OF ok] by simp
  obtain s2 w2 where o: "open_store C trigger w' = (Inr s2, w2)"
    "store_ok C ms (fs(active_id s := fs (active_id s) @ take n pend)) [] (s2, w2)"
    "st_state s2 = st_state s"
    "active_entry_count s2 = length ((fs(active_id s := fs (active_id s) @ take n pend)) (active_id s2))"
    "rollover_pending s2 = False"
    using reopens [OF c(5) disk c(6) ord wr next_after_tracked [OF ok], of trigger] by blast
  have "active_id s2 = active_id s" using store_okD(6) [OF o(2)] store_okD(6) [OF ok] o(3) by simp
  then have "active_entry_count s2 = length (fs (active_id s) @ take n pend)" using o(4) by simp
  then show ?thesis using run [unfolded c(1)] c(2-4) o(1-3,5) by blast
qed

text \<open>C3: A batch whose write is cut short is a prefix of whole entries after the next open: when the
  device takes \<open>k\<close> bytes of the batch and the process ends, \<^verbatim>\<open>write\<close> returns the device's error, and
  opening finds all earlier entries and exactly the entries of the batch whose frames fit in \<open>k\<close>
  bytes, with the manifest's state unchanged.\<close>

theorem cut_batch_reopens:
  assumes ok: "store_ok C ms fs pend (s, w)" and roll: "rollover_pending s = False"
    and cont: "continues fs (st_state s) pend" and opn: "open_files s (active_id s) = Some f"
    and k: "k \<le> length (frames_bytes C pend)" and ord: "order_ok C" and wr: "recovery_writable C"
  shows "\<exists>s' w' n s2 w2. write_batch C (batch_of pend) (s, w\<lparr>faults := [Some k]\<rparr>)
        = (Inl (Err DeviceFault), s', w')
    \<and> n \<le> length pend \<and> length (frames_bytes C (take n pend)) \<le> k
    \<and> (n < length pend \<longrightarrow> k < length (frames_bytes C (take (Suc n) pend)))
    \<and> open_store C trigger w' = (Inr s2, w2)
    \<and> store_ok C ms (fs(active_id s := fs (active_id s) @ take n pend)) [] (s2, w2)
    \<and> st_state s2 = st_state s
    \<and> active_entry_count s2 = length (fs (active_id s) @ take n pend)"
  using cut_batch_run [OF assms] by blast

theorem cut_batch_reopens_witness:
  "\<exists>s w s' w' s2 w2. write_batch sample (batch_of next_batch) (s, w\<lparr>faults := [Some 30]\<rparr>)
        = (Inl (Err DeviceFault), s', w')
    \<and> open_store sample 1000 w' = (Inr s2, w2) \<and> active_entry_count s2 = 2"
proof -
  obtain s w f where s: "store_ok sample [first_op] batch_frames next_batch (s, w)"
    "st_state s = fresh_state" "active_id s = SegmentId 1" "rollover_pending s = False"
    "open_files s (SegmentId 1) = Some f"
    by (rule writing_store)
  have cont: "continues batch_frames (st_state s) next_batch" using continues_next s(2) by simp
  have opn: "open_files s (active_id s) = Some f" using s(3,5) by simp
  have k: "30 \<le> length (frames_bytes sample next_batch)"
    by (simp add: next_batch_def frame_len_def HEADER_LEN_def)
  from cut_batch_reopens [OF s(1,4) cont opn k sample_order sample_recovery_writable, of 1000]
  obtain s' w' n s2 w2 where r: "write_batch sample (batch_of next_batch) (s, w\<lparr>faults := [Some 30]\<rparr>)
        = (Inl (Err DeviceFault), s', w')"
    "n \<le> length next_batch" "length (frames_bytes sample (take n next_batch)) \<le> 30"
    "n < length next_batch \<longrightarrow> 30 < length (frames_bytes sample (take (Suc n) next_batch))"
    "open_store sample 1000 w' = (Inr s2, w2)"
    "active_entry_count s2 = length (batch_frames (active_id s) @ take n next_batch)"
    by blast
  have "n = 0 \<or> n = 1 \<or> n = 2" using r(2) by (auto simp: next_batch_def)
  then have "n = 1"
    using r(3,4) by (auto simp: next_batch_def frame_len_def HEADER_LEN_def)
  then have "active_entry_count s2 = 2"
    using r(6) s(3) by (simp add: next_batch_def batch_frames_def first_batch_def)
  with r(1,5) show ?thesis by blast
qed

end
