(* ===== verification/Fault_Free.thy ===== *)
theory Fault_Free
  imports Store
begin

text \<open>
  An operation of \<^verbatim>\<open>src/store.rs\<close> that succeeds on a faulty device has done what it does on a working
  one: no call of it stopped short, and a fault it did not notice is one in bytes it did not read. So
  what is proved of successful operations with a working device holds for all successful operations.
\<close>

section \<open>Steps that a fault can only stop\<close>

definition steady :: "('s \<Rightarrow> 's) \<Rightarrow> ('s, 'e, 'a) step \<Rightarrow> bool" where
  "steady heal m \<longleftrightarrow> (\<forall>s a t. m s = (Inr a, t) \<longrightarrow> m (heal s) = (Inr a, heal t))"

named_theorems steady_rules \<open>steps that a fault can only stop\<close>

lemma steadyI: "(\<And>s a t. m s = (Inr a, t) \<Longrightarrow> m (heal s) = (Inr a, heal t)) \<Longrightarrow> steady heal m"
  by (simp add: steady_def)

lemma steadyD: "steady heal m \<Longrightarrow> m s = (Inr a, t) \<Longrightarrow> m (heal s) = (Inr a, heal t)"
  by (simp add: steady_def)

lemma steady_trivial [steady_rules]: "steady heal (ok a)" "steady heal (err e)"
  by (simp_all add: steady_def)

lemma steady_and_then [steady_rules]:
  "steady heal m \<Longrightarrow> (\<And>a. steady heal (f a)) \<Longrightarrow> steady heal (and_then m f)"
  by (rule steadyI) (auto simp: and_then_eq_Inr dest!: steadyD)

lemma steady_map_err [steady_rules]: "steady heal m \<Longrightarrow> steady heal (map_err g m)"
  by (auto simp: steady_def map_err_def split: prod.splits sum.splits)

lemma steady_if [steady_rules]: "steady heal m \<Longrightarrow> steady heal n \<Longrightarrow> steady heal (if b then m else n)"
  by simp

lemma steady_for_each [steady_rules]: "(\<And>x. steady heal (f x)) \<Longrightarrow> steady heal (for_each f xs)"
  by (induction xs) (simp_all add: steady_rules)

section \<open>The calls\<close>

text \<open>The world in a new process, where the device works again.\<close>

abbreviation restarted :: "world \<Rightarrow> world" where
  "restarted w \<equiv> w\<lparr>faults := []\<rparr>"

abbreviation steady_io :: "'a io \<Rightarrow> bool" where
  "steady_io \<equiv> steady restarted"

lemma restarted_simps [simp]:
  "healthy (restarted w)" "wf_world (w\<lparr>faults := fl\<rparr>) = wf_world w"
  "restarted (spend w) = restarted w" "next_outcome (restarted w) = None" "spend (restarted w) = restarted w"
  "save_file n (w\<lparr>faults := fl\<rparr>) = (save_file n w)\<lparr>faults := fl\<rparr>"
  "save_names (w\<lparr>faults := fl\<rparr>) = (save_names w)\<lparr>faults := fl\<rparr>"
  "give_up n k (w\<lparr>faults := fl\<rparr>) = (give_up n k w)\<lparr>faults := fl\<rparr>"
  "put_content n c (w\<lparr>faults := fl\<rparr>) = (put_content n c w)\<lparr>faults := fl\<rparr>"
  "write_bytes n k d (w\<lparr>faults := fl\<rparr>) = (write_bytes n k d w)\<lparr>faults := fl\<rparr>"
  by (simp_all add: healthy_def wf_world_def spend_def next_outcome_def save_file_def save_names_def
      give_up_def put_content_def write_bytes_def split: option.split)

lemma steady_call:
  assumes "\<And>w a t. act w = (Inr a, t) \<Longrightarrow> act (restarted w) = (Inr a, restarted t)"
  shows "steady_io (call act)"
  by (rule steadyI) (auto simp: call_def split: option.splits dest: assms)

lemma steady_calls [steady_rules]:
  "steady_io (fs_create_new n)" "steady_io (fs_open n)" "steady_io (set_len f k)" "steady_io (sync_all f)"
  "steady_io sync_dir" "steady_io (metadata_len n)" "steady_io (remove_file n)" "steady_io read_dir"
  unfolding fs_create_new_def fs_open_def set_len_def sync_all_def sync_dir_def metadata_len_def
    remove_file_def read_dir_def
  by (rule steady_call; auto split: if_splits option.splits)+

lemma steady_write_all_at [steady_rules]: "steady_io (write_all_at f d off)"
  by (rule steadyI) (auto simp: write_all_at_def spend_def split: option.splits)

lemma read_stream_restarted:
  "read_stream f (restarted w) = ((drop (cursor_at f) (case content w (path f) of None \<Rightarrow> [] | Some c \<Rightarrow> c), None),
    restarted w)"
  by (simp add: read_stream_def)

lemma steady_read_exact [steady_rules]: "steady_io (read_exact f n)"
  by (rule steadyI)
     (auto simp: read_exact_def read_stream_restarted read_stream_def Let_def
        split: option.splits if_splits)

lemma steady_files [steady_rules]:
  "steady_io (write_all f d)" "steady_io (check_magic f m)" "steady_io (open_checked n m)"
  "steady_io open_manifest_rw" "steady_io open_manifest_read" "steady_io (open_segment i)"
  "steady_io (open_segment_rw i)" "steady_io (create_segment_file i)"
  unfolding write_all_def check_magic_def open_checked_def open_manifest_rw_def open_manifest_read_def
    open_segment_def open_segment_rw_def create_segment_file_def
  by (auto intro!: steady_rules split: prod.split)

lemma steady_delete_segment [steady_rules]: "steady_io (delete_segment i)"
proof (rule steadyI)
  fix w a t
  assume r: "delete_segment i w = (Inr a, t)"
  show "delete_segment i (restarted w) = (Inr a, restarted t)"
    using r by (auto simp: delete_segment_def remove_file_def call_def split: option.splits if_splits)
qed

section \<open>The operations of the store\<close>

abbreviation steady_store :: "'a on_store \<Rightarrow> bool" where
  "steady_store \<equiv> steady (apsnd restarted)"

lemma steady_storeI:
  "(\<And>s w a s' w'. m (s, w) = (Inr a, s', w') \<Longrightarrow> m (s, restarted w) = (Inr a, s', restarted w')) \<Longrightarrow> steady_store m"
  by (rule steadyI) auto

lemma steady_storeD: "steady_store m \<Longrightarrow> m (s, w) = (Inr a, s', w') \<Longrightarrow> m (s, restarted w) = (Inr a, s', restarted w')"
  by (drule (1) steadyD) simp

lemma steady_lifted [steady_rules]:
  "steady_io m \<Longrightarrow> steady_store (on_world m)" "steady_store (update_store g)"
proof -
  show "steady_store (on_world m)" if m: "steady_io m"
  proof (rule steady_storeI)
    fix s w a s' w'
    assume "on_world m (s, w) = (Inr a, s', w')"
    then have "m w = (Inr a, w')" "s' = s" by (auto simp: on_world_def split: prod.splits)
    then show "on_world m (s, restarted w) = (Inr a, s', restarted w')"
      using steadyD [OF m] by (simp add: on_world_def)
  qed
qed (rule steady_storeI, simp add: update_store_def)

lemma steady_flush:
  assumes "cursor_flush f (cur, w) = (Inr (), cur', w')"
  shows "cursor_flush f (cur, restarted w) = (Inr (), cur', restarted w')"
proof -
  have w: "write_all_at f (buffered cur) (cur_position cur) w = (Inr (), w')"
    and cur': "cur' = cur\<lparr>cur_position := cur_position cur + length (buffered cur), buffered := []\<rparr>"
    using assms by (auto simp: cursor_flush_def split: prod.splits sum.splits)
  from steadyD [OF steady_write_all_at w] show ?thesis by (simp add: cursor_flush_def cur')
qed

lemma steady_write_op:
  assumes "write_op C f m (cur, w) = (Inr (), cur', w')"
  shows "write_op C f m (cur, restarted w) = (Inr (), cur', restarted w')"
proof -
  let ?c = "cursor_write C (EntryId 0) (encode C m) cur"
  obtain w1 where "cursor_flush f (?c, w) = (Inr (), cur', w1)" and "sync_all f w1 = (Inr (), w')"
    using assms by (auto simp: write_op_def Let_def split: prod.splits sum.splits)
  from steady_flush [OF this(1)] steadyD [OF steady_calls(4) this(2)]
  show ?thesis by (simp add: write_op_def)
qed

lemma steady_commit_op [steady_rules]: "steady_store (commit_op C m)"
proof (rule steady_storeI)
  fix s w a s' w'
  assume "commit_op C m (s, w) = (Inr a, s', w')"
  then obtain cur where r: "write_op C (manifest_file s) m (manifest_cursor s, w) = (Inr (), cur, w')"
    and "(case apply_manifest_op m (st_state s) of
            (Inl _, _) \<Rightarrow> (Inl Panic, s\<lparr>manifest_cursor := cur\<rparr>, w')
          | (Inr _, st') \<Rightarrow> (Inr (), s\<lparr>manifest_cursor := cur, st_state := st'\<rparr>, w')) = (Inr a, s', w')"
    by (auto simp: commit_op_def split: prod.splits sum.splits)
  moreover have "write_op C (manifest_file s) m (manifest_cursor s, restarted w) = (Inr (), cur, restarted w')"
    by (rule steady_write_op [OF r])
  ultimately show "commit_op C m (s, restarted w) = (Inr a, s', restarted w')"
    by (auto simp: commit_op_def split: prod.splits sum.splits)
qed

lemma steady_flush_active [steady_rules]: "steady_store (flush_active f)"
proof (rule steady_storeI)
  fix s w a s' w'
  assume "flush_active f (s, w) = (Inr a, s', w')"
  then obtain cur where "cursor_flush f (active_cursor s, w) = (Inr (), cur, w')"
    and s': "s' = s\<lparr>active_cursor := cur\<rparr>"
    by (auto simp: flush_active_def split: prod.splits sum.splits)
  from steady_flush [OF this(1)] show "flush_active f (s, restarted w) = (Inr a, s', restarted w')"
    by (simp add: flush_active_def s')
qed

lemma steady_and_then_store:
  assumes "steady_store m" and "\<And>a. steady_store (f a)" and "and_then m f (s, w) = (Inr b, s', w')"
  shows "and_then m f (s, restarted w) = (Inr b, s', restarted w')"
  using steady_storeD [OF steady_and_then [OF assms(1,2)] assms(3)] by simp

lemma steady_active_file [steady_rules]: "steady_store active_file"
proof (rule steady_storeI)
  fix s w a s' w'
  have "steady_store (\<lambda>(s1, w1). (Inr f, s1\<lparr>open_files := (open_files s1)(active_id s1 \<mapsto> f)\<rparr>, w1))"
    for f by (rule steady_storeI) auto
  then have opn: "steady_store (and_then (on_world (open_segment_rw i)) (\<lambda>(f, _) (s1, w1).
      (Inr f, s1\<lparr>open_files := (open_files s1)(active_id s1 \<mapsto> f)\<rparr>, w1)))" for i
    by (intro steady_rules) (simp add: case_prod_unfold)
  assume "active_file (s, w) = (Inr a, s', w')"
  then show "active_file (s, restarted w) = (Inr a, s', restarted w')"
    using steady_storeD [OF opn] by (auto simp: active_file_def split: option.splits)
qed

lemma steady_do_rollover [steady_rules]: "steady_store (do_rollover C i)"
proof (rule steady_storeI)
  fix s w a s' w'
  assume r: "do_rollover C i (s, w) = (Inr a, s', w')"
  have upd: "steady_store (\<lambda>(s1, w1). case next_segment_id (next_seg_id s) of
      None \<Rightarrow> (Inl Panic, s1, w1)
    | Some n \<Rightarrow> (Inr (), s1\<lparr>next_seg_id := n, active_id := next_seg_id s,
        active_cursor := set_position MAGIC_LEN (active_cursor s1),
        active_first_entry := i, active_entry_count := 0\<rparr>, w1))"
    by (rule steady_storeI) (auto split: option.splits)
  show "do_rollover C i (s, restarted w) = (Inr a, s', restarted w')"
    unfolding do_rollover_def prod.case
    by (rule steady_and_then_store [OF _ _ r [unfolded do_rollover_def prod.case]])
       (intro steady_rules upd)+
qed

lemma steady_write_batch [steady_rules]: "steady_store (write_batch C wr)"
proof -
  have "steady_store (\<lambda>(s, w). if rollover_pending s
      then and_then (do_rollover C first) (\<lambda>_. update_store (\<lambda>s. s\<lparr>rollover_pending := False\<rparr>)) (s, w)
      else (Inr (), s, w))" for first
    by (rule steady_storeI)
       (auto split: if_splits dest!: steady_storeD [OF steady_and_then [OF steady_do_rollover steady_lifted(2)]])
  then show ?thesis
    unfolding write_batch_def panic_def
    by (auto split: nat.splits option.splits intro!: steady_rules)
qed

lemma steady_truncate_start [steady_rules]: "steady_store (store_truncate_start C i kvs)"
proof (rule steady_storeI)
  fix s w a s' w'
  assume "store_truncate_start C i kvs (s, w) = (Inr a, s', w')"
  then show "store_truncate_start C i kvs (s, restarted w) = (Inr a, s', restarted w')"
    unfolding store_truncate_start_def Let_def prod.case
    by (auto split: if_splits dest!: steady_storeD [OF steady_and_then [OF steady_commit_op steady_lifted(2)]])
qed

lemma steady_write_metadata [steady_rules]: "steady_store (write_metadata C kvs)"
  unfolding write_metadata_def by (rule steady_commit_op)

lemma steady_delete_dead [steady_rules]: "steady_store (delete_dead_segments C)"
proof (rule steady_storeI)
  fix s w a s' w'
  assume r: "delete_dead_segments C (s, w) = (Inr a, s', w')"
  show "delete_dead_segments C (s, restarted w) = (Inr a, s', restarted w')"
    unfolding delete_dead_segments_def Let_def prod.case
    by (rule steady_and_then_store [OF _ _ r [unfolded delete_dead_segments_def Let_def prod.case]])
       (intro steady_rules)+
qed

lemma steady_cut_segment [steady_rules]: "steady_io (cut_segment t off)"
  unfolding cut_segment_def by (auto intro!: steady_rules)

text \<open>A scanner whose device fails after some bytes finds an entry only where a working one finds it.\<close>

definition with_rest :: "bytes \<Rightarrow> frame_scanner \<Rightarrow> frame_scanner" where
  "with_rest rest sc = sc\<lparr>stream := stream sc @ rest, stream_end := None\<rparr>"

lemma position_rest [simp]: "position (with_rest rest sc) = position sc"
  by (simp add: with_rest_def)

lemma peek_header_rest:
  assumes "peek_header sc = (Inr p, sc1)" and "stream_end sc \<noteq> None"
  shows "peek_header (with_rest rest sc) = (Inr p, with_rest rest sc1) \<and> stream_end sc1 \<noteq> None"
proof (cases "peeked sc")
  case None
  then have n: "peeked (with_rest rest sc) = None" by (simp add: with_rest_def)
  show ?thesis
  proof (cases "stream sc")
    case Nil
    then show ?thesis using assms None by (auto simp: peek_header_def reader_read_def)
  next
    case (Cons b bs)
    then have "\<not> length bs < HEADER_LEN - 1" using assms(1) None
      by (auto simp: peek_header_def reader_read_def Let_def split: if_splits)
    then show ?thesis using assms None n Cons
      by (auto simp: peek_header_def reader_read_def with_rest_def Let_def)
  qed
next
  case (Some q)
  then have "p = Some q" "sc1 = sc" using assms(1) by (simp_all add: peek_header_def)
  then show ?thesis using Some assms(2) by (simp add: peek_header_def with_rest_def)
qed

lemma consume_rest:
  assumes "consume_peeked_payload len fs sc = (Inr (), sc1)"
  shows "consume_peeked_payload len fs (with_rest rest sc) = (Inr (), with_rest rest sc1)
    \<and> stream_end sc1 = stream_end sc"
  using assms by (auto simp: consume_peeked_payload_def with_rest_def Let_def split: if_splits)

lemma scan_to_after_rest:
  "scan_to_after target sc = (Inr off, sc1) \<Longrightarrow> stream_end sc \<noteq> None
    \<Longrightarrow> \<exists>sc2. scan_to_after target (with_rest rest sc) = (Inr off, sc2)"
proof (induction target sc rule: scan_to_after.induct)
  case (1 target sc)
  obtain header frame_start sc2 sc3 where p: "peek_header sc = (Inr (Some (header, frame_start)), sc2)"
    and c: "consume_peeked_payload (header_payload_len header) frame_start (unpeek sc2) = (Inr (), sc3)"
    and r: "(if header_id header = target then (Inr (position sc3), sc3) else scan_to_after target sc3) = (Inr off, sc1)"
    using 1(2) by (subst (asm) scan_to_after.simps) (auto split: prod.splits sum.splits option.splits)
  note p' = peek_header_rest [OF p 1(3), of rest]
  have "unpeek (with_rest rest sc2) = with_rest rest (unpeek sc2)" by (simp add: unpeek_def with_rest_def)
  then have c': "consume_peeked_payload (header_payload_len header) frame_start (unpeek (with_rest rest sc2))
      = (Inr (), with_rest rest sc3)" and e: "stream_end sc3 \<noteq> None"
    using consume_rest [OF c, of rest] p' by (simp_all add: unpeek_def)
  show ?case
  proof (cases "header_id header = target")
    case True
    then show ?thesis using r p' c' by (subst scan_to_after.simps) auto
  next
    case False
    then have "\<exists>sc2. scan_to_after target (with_rest rest sc3) = (Inr off, sc2)"
      using 1(1) [OF p [symmetric] refl refl refl c [symmetric]] r e by simp
    then show ?thesis using False p' c' by (subst scan_to_after.simps) simp
  qed
qed

lemma steady_rollback_offset [steady_rules]: "steady_io (rollback_offset t start i)"
proof -
  have "steady_io (\<lambda>w. case scanner_new f start w of
     (sc, w1) \<Rightarrow> (case fst (scan_to_after i sc) of
        Inl _ \<Rightarrow> (Inl (Err InvalidData), w1) | Inr offset \<Rightarrow> (Inr offset, w1)))" for f
  proof (rule steadyI)
    fix w n w'
    let ?c = "drop (cursor_at f) (case content w (path f) of None \<Rightarrow> [] | Some c \<Rightarrow> c)"
    let ?sc = "\<lambda>c e. \<lparr>stream = c, stream_end = e, chunk = 8191, position = start, peeked = None\<rparr>"
    assume r: "(case scanner_new f start w of
     (sc, w1) \<Rightarrow> (case fst (scan_to_after i sc) of
        Inl _ \<Rightarrow> (Inl (Err InvalidData), w1) | Inr offset \<Rightarrow> (Inr offset, w1))) = (Inr n, w')"
    have new: "scanner_new f start (restarted w) = (?sc ?c None, restarted w)"
      by (simp add: scanner_new_def read_stream_restarted)
    have "fst (scan_to_after i (?sc ?c None)) = Inr n \<and> restarted w' = restarted w"
    proof (cases "next_outcome w")
      case None
      then have "scanner_new f start w = (?sc ?c None, spend w)"
        by (simp add: scanner_new_def read_stream_def)
      then show ?thesis using r by (auto split: sum.splits)
    next
      case (Some k)
      then have "scanner_new f start w = (?sc (take k ?c) (Some DeviceFault), spend w)"
        by (simp add: scanner_new_def read_stream_def Let_def)
      then obtain sc1 where s: "scan_to_after i (?sc (take k ?c) (Some DeviceFault)) = (Inr n, sc1)"
        and w': "w' = spend w"
        using r by (cases "scan_to_after i (?sc (take k ?c) (Some DeviceFault))") (auto split: sum.splits)
      have "with_rest (drop k ?c) (?sc (take k ?c) (Some DeviceFault)) = ?sc ?c None"
        unfolding with_rest_def by (simp del: drop_drop)
      then show ?thesis using scan_to_after_rest [OF s, of "drop k ?c"] w' by fastforce
    qed
    then show "(case scanner_new f start (restarted w) of
     (sc, w1) \<Rightarrow> (case fst (scan_to_after i sc) of
        Inl _ \<Rightarrow> (Inl (Err InvalidData), w1) | Inr offset \<Rightarrow> (Inr offset, w1))) = (Inr n, restarted w')"
      by (simp add: new)
  qed
  then show ?thesis
    unfolding rollback_offset_def by (intro steady_rules) (simp add: case_prod_unfold)
qed

lemma steady_truncate_end [steady_rules]: "steady_store (store_truncate_end C i)"
proof (rule steady_storeI)
  fix s w a s' w'
  assume r: "store_truncate_end C i (s, w) = (Inr a, s', w')"
  show "store_truncate_end C i (s, restarted w) = (Inr a, s', restarted w')"
  proof (cases "case last_entry s of None \<Rightarrow> True | Some l \<Rightarrow> l \<le> EntryId i")
    case True
    then show ?thesis using r by (auto simp: store_truncate_end_def Let_def)
  next
    case False
    then have more: "(case last_entry s of None \<Rightarrow> True | Some l \<Rightarrow> l \<le> EntryId i) = False" by simp
    show ?thesis
    proof (cases "rollback_target (st_state s) (EntryId i)")
      case None
      then show ?thesis using r more by (simp add: store_truncate_end_def Let_def)
    next
      case (Some x)
      obtain t post where x: "x = (t, post)" by (cases x)
      note eqn = store_truncate_end_def Let_def prod.case more Some x if_False option.case
      show ?thesis
        unfolding eqn
        by (rule steady_and_then_store [OF _ _ r [unfolded eqn]]) (intro steady_rules)+
    qed
  qed
qed

end
