(* ===== verification/Store_Faults.thy ===== *)
theory Store_Faults
  imports Store_Batches Fault_Free
begin

text \<open>
  Faults of the device in the middle of the structural operations of \<^verbatim>\<open>src/store.rs\<close>: a manifest
  operation that is cut, in its header or behind it, and a rollover whose new segment file cannot be
  created or completed.
\<close>

section \<open>Steps that keep the directory\<close>

definition dir_kept :: "'a io \<Rightarrow> bool" where
  "dir_kept m \<longleftrightarrow> (\<forall>w. wf_world w \<and> base_dir_exists w \<longrightarrow>
     wf_world (snd (m w)) \<and> base_dir_exists (snd (m w)))"

lemma dir_kept_and_then:
  assumes "dir_kept m" and "\<And>a. dir_kept (f a)"
  shows "dir_kept (and_then m f)"
proof -
  have "wf_world (snd (and_then m f w)) \<and> base_dir_exists (snd (and_then m f w))"
    if "wf_world w" "base_dir_exists w" for w
  proof -
    obtain r t where mw: "m w = (r, t)" by (cases "m w")
    then have t: "wf_world t" "base_dir_exists t" using assms(1) that unfolding dir_kept_def by force+
    show ?thesis
    proof (cases r)
      case (Inr a)
      then show ?thesis using assms(2) [of a] t by (simp add: and_then_def mw dir_kept_def)
    qed (use t in \<open>simp add: and_then_def mw\<close>)
  qed
  then show ?thesis by (simp add: dir_kept_def)
qed

lemma wf_world_spend [simp]: "wf_world (spend w) = wf_world w"
  by (simp add: wf_world_def)

lemma dir_kept_basic:
  "dir_kept (ok a)" "dir_kept (sync_all f)" "dir_kept (fs_create_new n)" "dir_kept (write_all f d)"
proof -
  show "dir_kept (write_all f d)"
    unfolding write_all_def
    by (rule dir_kept_and_then)
       (auto simp: dir_kept_def write_all_at_def write_bytes_def ok_def split: option.split)
qed (auto simp: dir_kept_def sync_all_def call_def fs_create_new_def ok_def split: option.split)

lemma dir_kept_create: "dir_kept (create_segment_file i)"
  unfolding create_segment_file_def by (intro dir_kept_and_then dir_kept_basic)

section \<open>An operation that is cut\<close>

lemma commit_op_stopped:
  assumes w: "healthy w" "content w MANIFEST_FILE_NAME = Some (MANIFEST_MAGIC @ ops_bytes C ms)"
    and f: "manifest_file s = manifest_handle"
    and cur: "manifest_cursor s = cursor_new (MAGIC_LEN + length (ops_bytes C ms))"
  shows "\<exists>s'. commit_op C m (s, w\<lparr>faults := [Some k]\<rparr>) = (Inl (Err DeviceFault), s',
      put_content MANIFEST_FILE_NAME
        (MANIFEST_MAGIC @ ops_bytes C ms @ take k (frame_bytes C (op_frame C m))) w)
    \<and> st_state s' = st_state s"
proof -
  let ?c = "MANIFEST_MAGIC @ ops_bytes C ms" and ?w = "w\<lparr>faults := [Some k]\<rparr>"
  have sp: "spend ?w = w" using w(1) by (cases w) (simp add: spend_def healthy_def)
  have "overwrite ?c (MAGIC_LEN + length (ops_bytes C ms)) d = ?c @ d" for d
    using overwrite_at_end [of ?c d] by (simp del: overwrite_at_end)
  then show ?thesis
    using w(2) sp f cur
    by (simp add: commit_op_def write_op_def Let_def cursor_flush_def and_then_def cursor_write_def
        cursor_new_def buffer_write_frame op_frame_def write_all_at_def next_outcome_def write_bytes_def
        manifest_handle_def)
qed

lemma commit_op_cut:
  assumes img: "crash_image C ms (st_state s) fs [] tail w" and f: "manifest_file s = manifest_handle"
    and cur: "manifest_cursor s = cursor_new (MAGIC_LEN + length (ops_bytes C ms))"
  shows "\<exists>s'. commit_op C m (s, w\<lparr>faults := [Some k]\<rparr>) = (Inl (Err DeviceFault), s',
      put_content MANIFEST_FILE_NAME
        (MANIFEST_MAGIC @ ops_bytes C ms @ take k (frame_bytes C (op_frame C m))) w)
    \<and> st_state s' = st_state s"
  by (rule commit_op_stopped [OF _ _ f cur]) (use image_world(1,6) [OF img] in simp_all)

text \<open>When nothing behind the header was written, the directory is a crash image of the old state.\<close>

lemma commit_op_cut_image:
  assumes ok: "store_ok C ms fs pend (s, w)" and wr: "op_writable C m" and k: "k < HEADER_LEN"
  shows "\<exists>s1 w1. commit_op C m (s, w\<lparr>faults := [Some k]\<rparr>) = (Inl (Err DeviceFault), s1, w1)
    \<and> crash_image C ms (st_state s) fs (take k (frame_bytes C (op_frame C m))) [] w1
    \<and> on_disk w1 = tracked (st_state s)"
proof -
  let ?t = "take k (frame_bytes C (op_frame C m))"
  let ?w1 = "put_content MANIFEST_FILE_NAME (MANIFEST_MAGIC @ ops_bytes C ms @ ?t) w"
  note D = store_okD [OF ok]
  have fg: "fits (op_frame C m)" using wr by (simp add: op_writable_def)
  have "?t = [] \<or> torn_piece C ?t \<and> length ?t < HEADER_LEN"
  proof (cases "k = 0")
    case False
    have "k < frame_len (op_frame C m)" using k by (simp add: frame_len_def)
    then have "torn_piece C ?t" unfolding torn_piece_def using False fg
      by (intro exI [of _ "op_frame C m"] exI [of _ k]) simp
    then show ?thesis using k by (simp add: min_less_iff_disj)
  qed simp
  then have "crash_image C ms (st_state s) fs ?t [] ?w1"
    using D(1) unfolding crash_image_def by auto
  moreover have "on_disk ?w1 = tracked (st_state s)" using D(2) by (simp add: on_disk_def)
  ultimately show ?thesis using commit_op_cut [OF D(1,4,5)] by blast
qed

section \<open>A rollover that fails at its new file\<close>

lemma failed_create_image:
  assumes img: "crash_image C ms st fs [] [] w" and i: "i \<notin> set (ids_of st)"
    and run: "create_segment_file i (w\<lparr>faults := flts\<rparr>) = (r, w1)"
  shows "crash_image C ms st fs [] [] (restarted w1)"
    and "on_disk w \<subseteq> on_disk (restarted w1) \<union> {i}"
    and "on_disk (restarted w1) \<subseteq> on_disk w \<union> {i}"
proof -
  have other: "content w1 n = content w n" if "n \<noteq> segment_path i" for n
    using others_keptD [OF others_kept_create that, of "w\<lparr>faults := flts\<rparr>"] run by simp
  have "wf_world w1 \<and> base_dir_exists w1"
    using dir_kept_create [of i] run image_world(2,3) [OF img]
    unfolding dir_kept_def by (metis restarted_simps(2) snd_conv world.select_convs(1)
        world.surjective world.update_convs(3))
  moreover have "content w1 (segment_path j) = content w (segment_path j)" if "j \<in> set (ids_of st)" for j
  proof -
    have "j \<noteq> i" using that i by metis
    then show ?thesis by (intro other) simp
  qed
  moreover have "n = MANIFEST_FILE_NAME \<or> n \<in> range segment_path" if "content w1 n = Some c" for n c
  proof (cases "n = segment_path i")
    case False
    then have "content w n = Some c" using other that by simp
    then show ?thesis using img unfolding crash_image_def by blast
  qed simp
  ultimately show "crash_image C ms st fs [] [] (restarted w1)"
    using img other [of MANIFEST_FILE_NAME] unfolding crash_image_def
    by (simp add: healthy_def)
  show "on_disk w \<subseteq> on_disk (restarted w1) \<union> {i}" "on_disk (restarted w1) \<subseteq> on_disk w \<union> {i}"
    using other by (auto simp: on_disk_def)
qed

lemma torn_create:
  assumes "content w (segment_path i) = None" and "base_dir_exists w"
  obtains w1 where "create_segment_file i (w\<lparr>faults := [None, Some k]\<rparr>) = (Inl (Err DeviceFault), w1)"
    and "content w1 (segment_path i) = Some (take k SEGMENT_MAGIC)"
proof -
  let ?w = "w\<lparr>faults := [None, Some k]\<rparr>" and ?n = "segment_path i"
  let ?w1 = "put_content ?n [] (give_up ?n 0 (spend ?w))"
  have "fs_create_new ?n ?w = (Inr \<lparr>path = ?n, cursor_at = 0\<rparr>, ?w1)"
    using assms by (simp add: fs_create_new_def call_def next_outcome_def)
  moreover have "next_outcome ?w1 = Some k" by (simp add: next_outcome_def spend_def)
  ultimately show thesis
    by (intro that [of "put_content ?n (take k SEGMENT_MAGIC) (spend ?w1)"])
       (simp_all add: create_segment_file_def and_then_def write_all_new)
qed

lemma failed_rollover_run:
  assumes ok: "store_ok C ms fs pend (s, w)" and roll: "rollover_pending s" and pne: "pend \<noteq> []"
    and run: "create_segment_file (next_seg_id s) (w\<lparr>faults := flts\<rparr>) = (Inl e, w1)"
    and ord: "order_ok C" and wr: "recovery_writable C"
    and nxt: "next_segment_id (next_seg_id s) \<noteq> None"
  shows "write_batch C (batch_of pend) (s, w\<lparr>faults := flts\<rparr>) = (Inl e, s, w1)
    \<and> (\<exists>s2 w2. open_store C trigger (restarted w1) = (Inr s2, w2)
      \<and> store_ok C (ms @ recovery_ops C (st_state s) (restarted w1)) fs [] (s2, w2)
      \<and> segments (st_state s2) = segments (st_state s) \<and> seals (st_state s2) = seals (st_state s)
      \<and> dead (st_state s) \<subseteq> dead (st_state s2)
      \<and> dead (st_state s2) \<subseteq> insert (next_seg_id s) (dead (st_state s))
      \<and> head_entry (st_state s2) = head_entry (st_state s) \<and> metadata (st_state s2) = metadata (st_state s)
      \<and> rollover_pending s2 = False)"
proof -
  let ?i = "next_seg_id s" and ?st = "st_state s"
  note D = store_okD [OF ok]
  have fresh: "?i \<notin> tracked ?st" using D(10) by auto
  then have i: "?i \<notin> set (ids_of ?st)" by (simp add: tracked_def)
  note img = failed_create_image [OF D(1) i run]
  define dd where "dd = on_disk (restarted w1) - set (ids_of ?st)"
  have "tracked ?st - set (ids_of ?st) = dead ?st"
    using image_world(4) [OF D(1)] by (auto simp: tracked_def wf_state_def)
  then have dd: "dead ?st \<subseteq> dd" "dd \<subseteq> insert ?i (dead ?st)"
    using img(2,3) fresh D(2) unfolding dd_def by (auto simp: tracked_def)
  have tr: "tracked (with_dead dd ?st) \<subseteq> insert ?i (tracked ?st)"
    using dd by (auto simp: tracked_def)
  have "tracked (with_dead dd ?st) \<noteq> {}" using image_world(5) [OF D(1)] by (simp add: tracked_def)
  then have "max_segment_id (with_dead dd ?st) \<in> tracked (with_dead dd ?st)"
    using Max_in [of "tracked (with_dead dd ?st)"] by (simp add: max_segment_id_def Let_def tracked_def)
  then have "max_segment_id (with_dead dd ?st) \<le> ?i" using tr D(10)
    by (metis insertE less_imp_le order_refl subsetD)
  then have nx: "next_segment_id (max_segment_id (with_dead dd ?st)) \<noteq> None"
    using nxt by (auto simp: next_segment_id_def less_eq_segment_id_def split: if_splits)
      (metis word_order.extremum_uniqueI)
  obtain s2 w2 where o: "open_store C trigger (restarted w1) = (Inr s2, w2)"
    "store_ok C (ms @ recovery_ops C ?st (restarted w1)) fs [] (s2, w2)" "st_state s2 = with_dead dd ?st"
    "rollover_pending s2 = False"
    using open_image [OF img(1) D(3) ord wr, of trigger] nx unfolding dd_def by blast
  obtain m where "length pend = Suc m" using pne by (cases pend) auto
  then have "write_batch C (batch_of pend) (s, w\<lparr>faults := flts\<rparr>) = (Inl e, s, w1)"
    using roll pne run
    by (simp add: write_batch_def batch_of_def last_frame_id_def do_rollover_def and_then_def on_world_def)
  with o dd show ?thesis by (intro conjI exI [of _ s2] exI [of _ w2]) simp_all
qed

text \<open>A rollover whose new segment file cannot be created or completed, under any faults, changes
  nothing in memory and loses no entry: the manifest does not know of the file, so opening finds the
  same segments and frames, and the file, if there is one, is dead.\<close>

theorem failed_rollover_reopens:
  assumes ok: "store_ok C ms fs pend (s, w)" and roll: "rollover_pending s" and pne: "pend \<noteq> []"
    and run: "create_segment_file (next_seg_id s) (w\<lparr>faults := flts\<rparr>) = (Inl e, w1)"
    and ord: "order_ok C" and wr: "recovery_writable C"
    and nxt: "next_segment_id (next_seg_id s) \<noteq> None"
  shows "write_batch C (batch_of pend) (s, w\<lparr>faults := flts\<rparr>) = (Inl e, s, w1)
    \<and> (\<exists>s2 w2. open_store C trigger (restarted w1) = (Inr s2, w2)
      \<and> store_ok C (ms @ recovery_ops C (st_state s) (restarted w1)) fs [] (s2, w2)
      \<and> segments (st_state s2) = segments (st_state s) \<and> seals (st_state s2) = seals (st_state s)
      \<and> dead (st_state s) \<subseteq> dead (st_state s2)
      \<and> dead (st_state s2) \<subseteq> insert (next_seg_id s) (dead (st_state s)))"
  using failed_rollover_run [OF assms] by blast

theorem failed_rollover_reopens_witness:
  "\<exists>s w w1 s2 w2. write_batch sample (batch_of next_batch) (s, w\<lparr>faults := [None, Some 3]\<rparr>)
        = (Inl (Err DeviceFault), s, w1)
    \<and> content w1 (segment_path (SegmentId 2)) = Some (take 3 SEGMENT_MAGIC)
    \<and> open_store sample 10 (restarted w1) = (Inr s2, w2)
    \<and> segments (st_state s2) = segments fresh_state"
proof -
  obtain s w where s: "store_ok sample [first_op] batch_frames next_batch (s, w)"
    "st_state s = fresh_state" "active_id s = SegmentId 1" "rollover_pending s"
    "next_seg_id s = SegmentId 2"
    by (rule rolling_store)
  note D = store_okD [OF s(1)]
  let ?w = "w\<lparr>faults := [None, Some 3]\<rparr>"
  have "SegmentId 2 \<notin> on_disk w" unfolding D(2) using s(2) by (simp add: tracked_def fresh_state_def)
  then have "content w (segment_path (SegmentId 2)) = None" by (simp add: on_disk_def)
  then obtain w1 where w1: "create_segment_file (SegmentId 2) ?w = (Inl (Err DeviceFault), w1)"
    "content w1 (segment_path (SegmentId 2)) = Some (take 3 SEGMENT_MAGIC)"
    by (rule torn_create [OF _ image_world(3) [OF D(1)]])
  have "next_segment_id (next_seg_id s) \<noteq> None" by (simp add: s(5) next_segment_id_def)
  then obtain s2 w2 where "write_batch sample (batch_of next_batch) (s, ?w) = (Inl (Err DeviceFault), s, w1)"
    "open_store sample 10 (restarted w1) = (Inr s2, w2)"
    "segments (st_state s2) = segments (st_state s)"
    using failed_rollover_reopens [OF s(1,4) _ w1(1) [folded s(5)] sample_order sample_recovery_writable,
        of 10]
    by (auto simp: next_batch_def)
  with w1(2) s(2) show ?thesis by metis
qed

end
