(* ===== verification/Store_Stuck.thy ===== *)
theory Store_Stuck
  imports Store_Faults Frame_Claims
begin

text \<open>
  States of the directory no recovery leads out of: a manifest whose last frame has a complete header
  and a torn payload, a manifest that was created and never written, and a sealed segment that an
  approved recovery has cut.
\<close>

section \<open>A torn manifest operation\<close>

lemma torn_manifest_scan:
  assumes w: "healthy w" "base_dir_exists w"
    and c: "content w MANIFEST_FILE_NAME
      = Some (MANIFEST_MAGIC @ ops_bytes C ms @ take k (frame_bytes C (op_frame C m)))"
    and run: "run_ops ms = Some st" and ms: "\<forall>m \<in> set ms. op_writable C m" and m: "op_writable C m"
    and k: "HEADER_LEN \<le> k" "k < frame_len (op_frame C m)"
  defines "iss \<equiv> [\<lparr>issue_file = Manifest,
      the_issue = ManifestTornTail (MAGIC_LEN + length (ops_bytes C ms))\<rparr>,
    \<lparr>issue_file = Manifest, the_issue = ManifestNotReadable\<rparr>]"
  shows "scan_store C w = (empty_report iss, w)"
proof -
  let ?t = "take k (frame_bytes C (op_frame C m))"
  have st: "for_each apply_manifest_op ms empty_state = (Inr (), st)" using run by (simp add: run_ops_Some)
  have fg: "fits (op_frame C m)" using m by (simp add: op_writable_def)
  have torn: "torn_piece C ?t"
    unfolding torn_piece_def using fg k
    by (intro exI [of _ "op_frame C m"] exI [of _ k]) (simp add: HEADER_LEN_def)
  have ne: "?t \<noteq> []" using k by (simp add: HEADER_LEN_def flip: length_0_conv)
  have opn: "open_manifest_read w = (Inr (manifest_handle, MAGIC_LEN), w)"
    unfolding open_manifest_read_def manifest_handle_def
    by (rule open_checked_magic [OF w(1) c]) simp
  have fits: "\<forall>f \<in> set (map (op_frame C) ms). fits f" using ms by (simp add: op_writable_def)
  obtain sc where sc: "scanner_new manifest_handle MAGIC_LEN w = (sc, w)"
    and all: "fst (scan_all C 1 sc) = Inr
        \<lparr>count = length (map (op_frame C) ms), checkpoints = marks 1 0 MAGIC_LEN (map (op_frame C) ms),
         last_id = last_frame_id (map (op_frame C) ms),
         next_offset = MAGIC_LEN + length (ops_bytes C ms), status = TornTail\<rparr>"
    using scan_file [OF w(1) c length_magic(2) fits] torn ne by (auto simp: manifest_handle_def)
  have rep: "replay C manifest_handle MAGIC_LEN w = (Inl (ReplayIo UnexpectedEof), w)"
  proof (rule replay_written [OF w(1) c ms st])
    fix sc' assume r: "replay C manifest_handle MAGIC_LEN w
        = (replay_loop C st (position sc') sc', w)"
      and sc': "stream sc' = ?t" "peeked sc' = None" "stream_end sc' = None"
    show ?thesis unfolding r using replay_loop_torn [OF sc'(2,3) fg sc'(1) k] by simp
  qed
  show ?thesis
    using w by (simp add: scan_store_def opn sc all scan_replay_def rep push_issue_def iss_def del: One_nat_def)
qed

text \<open>C29: A manifest operation that is cut between the end of its header and the end of its payload
  makes the store unopenable for good: the scan sees a torn tail that could be truncated, but the replay
  that follows reads the same tail and fails, so opening and approved recovery both refuse and leave the
  directory as it is, although every committed operation and entry is intact.\<close>

theorem torn_operation_stays_closed:
  assumes ok: "store_ok C ms fs pend (s, w)" and wr: "op_writable C m"
    and k: "HEADER_LEN \<le> k" "k < frame_len (op_frame C m)"
  shows "\<exists>s' w'. commit_op C m (s, w\<lparr>faults := [Some k]\<rparr>) = (Inl (Err DeviceFault), s', w')
    \<and> open_store C trigger w' = (Inl (Err (RecoveryNotPossible
          [\<lparr>issue_file = Manifest,
            the_issue = ManifestTornTail (MAGIC_LEN + length (ops_bytes C ms))\<rparr>,
           \<lparr>issue_file = Manifest, the_issue = ManifestNotReadable\<rparr>])), w')
    \<and> recover C w' = (Inl (Err NotPossible), w')"
proof -
  let ?w = "put_content MANIFEST_FILE_NAME
    (MANIFEST_MAGIC @ ops_bytes C ms @ take k (frame_bytes C (op_frame C m))) w"
  note D = store_okD [OF ok]
  note img = image_world [OF D(1)]
  obtain s' where "commit_op C m (s, w\<lparr>faults := [Some k]\<rparr>) = (Inl (Err DeviceFault), s', ?w)"
    using commit_op_cut [OF D(1,4,5)] by blast
  moreover have w: "healthy ?w" "base_dir_exists ?w"
    "content ?w MANIFEST_FILE_NAME
      = Some (MANIFEST_MAGIC @ ops_bytes C ms @ take k (frame_bytes C (op_frame C m)))"
    using img(1,3) by simp_all
  have "open_store C trigger ?w = (Inl (Err (RecoveryNotPossible
          [\<lparr>issue_file = Manifest,
            the_issue = ManifestTornTail (MAGIC_LEN + length (ops_bytes C ms))\<rparr>,
           \<lparr>issue_file = Manifest, the_issue = ManifestNotReadable\<rparr>])), ?w)
    \<and> recover C ?w = (Inl (Err NotPossible), ?w)"
    by (rule stuck_not_possible [OF torn_manifest_scan [OF w img(7,8) wr k]])
       (simp_all add: empty_report_def create_fix_up_def auto_fix_def)
  ultimately show ?thesis by blast
qed

theorem torn_operation_stays_closed_witness:
  "\<exists>s w s' w'. commit_op sample (bare Metadata) (s, w\<lparr>faults := [Some 21]\<rparr>)
        = (Inl (Err DeviceFault), s', w')
    \<and> recover sample w' = (Inl (Err NotPossible), w')"
proof -
  obtain s w f where s: "store_ok sample [first_op] batch_frames next_batch (s, w)"
    by (rule writing_store)
  have wr: "op_writable sample (bare Metadata)"
    by (rule sample_writable) (simp add: bare_def encode_sample_simps)
  have k: "HEADER_LEN \<le> 21" "21 < frame_len (op_frame sample (bare Metadata))"
    by (simp_all add: frame_len_def HEADER_LEN_def op_frame_def bare_def encode_sample_simps)
  show ?thesis using torn_operation_stays_closed [OF s wr k, of 1000] by blast
qed

section \<open>An interrupted creation\<close>

lemma empty_manifest_stuck:
  assumes w: "healthy w" "base_dir_exists w" and c: "content w MANIFEST_FILE_NAME = Some MANIFEST_MAGIC"
  shows "open_or_create C trigger w
      = (Inl (Err (RecoveryNotPossible [\<lparr>issue_file = Manifest, the_issue = ManifestEmpty\<rparr>])), w)
    \<and> recover C w = (Inl (Err NotPossible), w)"
proof -
  have c': "content w MANIFEST_FILE_NAME = Some (MANIFEST_MAGIC @ frames_bytes C [] @ [])"
    and c'': "content w MANIFEST_FILE_NAME = Some (MANIFEST_MAGIC @ ops_bytes C [] @ [])"
    using c by simp_all
  have opn: "open_manifest_read w = (Inr (manifest_handle, MAGIC_LEN), w)"
    unfolding open_manifest_read_def manifest_handle_def
    by (rule open_checked_magic [OF w(1) c']) simp
  obtain sc where sc: "scanner_new manifest_handle MAGIC_LEN w = (sc, w)"
    and all: "fst (scan_all C 1 sc) = Inr \<lparr>count = 0, checkpoints = [], last_id = last_frame_id [],
         next_offset = MAGIC_LEN, status = Clean\<rparr>"
    using scan_file [OF w(1) c' length_magic(2), of 1] by (auto simp: manifest_handle_def)
  have rep: "\<exists>nxt. replay C manifest_handle MAGIC_LEN w
      = (Inr \<lparr>replayed = empty_state, replay_next = nxt\<rparr>, w)"
  proof (rule replay_written [OF w(1) c''])
    fix sc' assume r: "replay C manifest_handle MAGIC_LEN w
        = (replay_loop C empty_state (position sc') sc', w)"
      and sc': "stream sc' = []" "peeked sc' = None" "stream_end sc' = None"
    have "length [] < HEADER_LEN" by (simp add: HEADER_LEN_def)
    then show ?thesis unfolding r using sc' by (simp add: replay_loop_end)
  qed (simp_all add: ok_def)
  have "scan_store C w = (empty_report [\<lparr>issue_file = Manifest, the_issue = ManifestEmpty\<rparr>], w)"
    using w rep by (auto simp: scan_store_def opn sc all scan_replay_def push_issue_def is_empty_def
        empty_state_def simp del: One_nat_def)
  then have "open_store C trigger w
      = (Inl (Err (RecoveryNotPossible [\<lparr>issue_file = Manifest, the_issue = ManifestEmpty\<rparr>])), w)
    \<and> recover C w = (Inl (Err NotPossible), w)"
    by (rule stuck_not_possible) (simp_all add: empty_report_def create_fix_up_def)
  then show ?thesis using w c by (simp add: open_or_create_def manifest_exists_def)
qed

text \<open>C34: Creating a store is not atomic and cannot be retried: if the device fails once, when the first
  segment file is created, \<^verbatim>\<open>open_or_create\<close> returns that error, and every later
  \<^verbatim>\<open>open_or_create\<close> and every approved recovery refuse the directory, which holds a manifest without
  operations, and leave it as it is.\<close>

theorem interrupted_creation_stays_closed:
  assumes "empty_dir w"
  shows "\<exists>w'. open_or_create C trigger (w\<lparr>faults := [None, None, None, None, None, Some k]\<rparr>)
      = (Inl (Err (RecoveryFailed (IoError DeviceFault))), w')
    \<and> open_or_create C trigger w'
      = (Inl (Err (RecoveryNotPossible [\<lparr>issue_file = Manifest, the_issue = ManifestEmpty\<rparr>])), w')
    \<and> recover C w' = (Inl (Err NotPossible), w')"
proof -
  have w: "healthy w" "base_dir_exists w" "entries w = []" using assms by (auto simp: empty_dir_def)
  let ?w = "w\<lparr>faults := [None, None, None, None, Some k]\<rparr>"
  let ?h = "\<lparr>path = MANIFEST_FILE_NAME, cursor_at = 0\<rparr>"
  let ?w1 = "put_content MANIFEST_FILE_NAME [] (give_up MANIFEST_FILE_NAME 0 (spend ?w))"
  let ?w2 = "put_content MANIFEST_FILE_NAME MANIFEST_MAGIC (spend ?w1)"
  have c: "fs_create_new MANIFEST_FILE_NAME ?w = (Inr ?h, ?w1)"
    using w by (simp add: fs_create_new_def call_def next_outcome_def)
  have wa: "write_all ?h MANIFEST_MAGIC ?w1 = (Inr (?h\<lparr>cursor_at := MAGIC_LEN\<rparr>), ?w2)"
    by (simp add: write_all_new next_outcome_def spend_def)
  define w3 where "w3 = save_names (spend (save_file MANIFEST_FILE_NAME (spend ?w2)))"
  have cm: "create_manifest ?w = (Inr (?h\<lparr>cursor_at := MAGIC_LEN\<rparr>, MAGIC_LEN), w3)"
    using w by (simp add: create_manifest_def and_then_def c wa [unfolded spend_def, simplified] sync_all_def synchronize_dir_def
        sync_dir_def call_def next_outcome_def spend_def ok_def w3_def)
  have seg: "create_segment_file (SegmentId 1) w3 = (Inl (Err DeviceFault), spend w3)"
    by (simp add: create_segment_file_def and_then_def fs_create_new_def call_def next_outcome_def
        w3_def spend_def)
  have "manifest_exists (w\<lparr>faults := [None, None, None, None, None, Some k]\<rparr>) = (False, ?w)"
    using w by (simp add: manifest_exists_def fs_exists_def spend_def)
  then have "open_or_create C trigger (w\<lparr>faults := [None, None, None, None, None, Some k]\<rparr>)
      = (Inl (Err (RecoveryFailed (IoError DeviceFault))), spend w3)"
    by (simp add: open_or_create_def create_store_def and_then_def map_err_def cm seg)
  moreover have "healthy (spend w3)" "base_dir_exists (spend w3)"
    "content (spend w3) MANIFEST_FILE_NAME = Some MANIFEST_MAGIC"
    using w by (simp_all add: healthy_def spend_def w3_def)
  ultimately show ?thesis using empty_manifest_stuck [of "spend w3"] by blast
qed

theorem interrupted_creation_stays_closed_witness:
  "\<exists>w'. open_or_create sample 1000 (empty_world\<lparr>faults := [None, None, None, None, None, Some 0]\<rparr>)
      = (Inl (Err (RecoveryFailed (IoError DeviceFault))), w')
    \<and> recover sample w' = (Inl (Err NotPossible), w')"
  using interrupted_creation_stays_closed [OF empty_world_dir, of sample 1000 0] by blast

section \<open>A corrupt sealed segment\<close>

text \<open>C35: Approved recovery of a corrupt sealed segment makes the store unopenable. The scan finds the bad
  frame and offers, with approval, to cut the file there; the cut is made; but the seal still records the
  old size, so the next scan reports \<open>SealedSegmentSizeMismatch\<close>, for which there is no fix.\<close>

theorem cut_sealed_segment_stays_closed:
  assumes w: "healthy w"
    and c: "content w (segment_path i) = Some (SEGMENT_MAGIC @ frames_bytes C fs @ h @ p @ rest)"
    and fits: "\<forall>f \<in> set fs. fits f" and h: "length h = HEADER_LEN"
    and p: "length p = unat (header_payload_len h)"
    and bad: "checksum C (header_id h) p \<noteq> header_checksum h"
    and full_len: "full_len = MAGIC_LEN + length (frames_bytes C fs @ h @ p @ rest)"
    and bad_at: "bad_at = MAGIC_LEN + length (frames_bytes C fs)"
  shows "snd (scan_segment C i (Some full_len) (iss, w))
      = (push_issue (Segment i) (SealedSegmentChecksumCorrupt bad_at) iss, w)
    \<and> create_fix_up \<lparr>issue_file = Segment i, the_issue = SealedSegmentChecksumCorrupt bad_at\<rparr>
      = approval_fix SegmentFileClean (TruncateSegment i bad_at)
    \<and> (\<exists>w'. apply_fix_up C (TruncateSegment i bad_at) w = (Inr (), w')
      \<and> snd (scan_segment C i (Some full_len) (iss, w'))
        = (push_issue (Segment i) (SealedSegmentSizeMismatch full_len bad_at) iss, w')
      \<and> create_fix_up \<lparr>issue_file = Segment i, the_issue = SealedSegmentSizeMismatch full_len bad_at\<rparr> = None)"
proof -
  let ?n = "segment_path i" and ?f = "\<lparr>path = segment_path i, cursor_at = MAGIC_LEN\<rparr>"
  let ?w = "store_file ?n (SEGMENT_MAGIC @ frames_bytes C fs) w"
  define sc where "sc = fst (scanner_new ?f MAGIC_LEN w)"
  have new: "scanner_new ?f MAGIC_LEN w = (sc, w)"
    and sc: "stream sc = frames_bytes C fs @ h @ p @ rest" "peeked sc = None" "position sc = MAGIC_LEN"
    using w c by (simp_all add: sc_def scanner_new_def read_stream_def)
  note all = scan_all_corrupt [OF fits sc(2,1) h p bad, of INDEX_STRIDE]
  have opn: "open_segment i w = (Inr (?f, MAGIC_LEN), w)"
    unfolding open_segment_def by (rule open_checked_magic [OF w c]) simp
  have opw: "open_segment_rw i w = (Inr (?f, MAGIC_LEN), w)"
    unfolding open_segment_rw_def by (rule open_checked_magic [OF w c]) simp
  have "size_issue i (Some full_len) w = (None, w)"
    using w c full_len by (simp add: size_issue_def segment_size_def metadata_len_def)
  then have "snd (scan_segment C i (Some full_len) (iss, w))
      = (push_issue (Segment i) (SealedSegmentChecksumCorrupt bad_at) iss, w)"
    using bad_at sc(3) by (simp add: scan_segment_def opn new all)
  moreover have "apply_fix_up C (TruncateSegment i bad_at) w = (Inr (), ?w)"
    using w c bad_at
    by (simp add: truncate_segment_def and_then_def io_error_def map_err_def opw set_len_def)
  moreover have "size_issue i (Some full_len) ?w = (Some (SealedSegmentSizeMismatch full_len bad_at), ?w)"
    using w full_len bad_at h by (simp add: size_issue_def segment_size_def metadata_len_def HEADER_LEN_def)
  then have "snd (scan_segment C i (Some full_len) (iss, ?w))
      = (push_issue (Segment i) (SealedSegmentSizeMismatch full_len bad_at) iss, ?w)"
    by (simp add: scan_segment_def)
  ultimately show ?thesis
    by (auto simp: create_fix_up_def issue_segment_id_def)
qed

definition corrupt_segment_world :: world where
  "corrupt_segment_world = \<lparr>base_dir_exists = True, entries = [(segment_path (SegmentId 1),
     SEGMENT_MAGIC @ frames_bytes sample [(EntryId 1, [7])]
       @ frame_header sample (EntryId 2, [8]) @ [9] @ [])], faults = [], saved = \<lambda>_. [], listed = []\<rparr>"

theorem cut_sealed_segment_stays_closed_witness:
  "\<exists>w'. apply_fix_up sample (TruncateSegment (SegmentId 1) 29) corrupt_segment_world = (Inr (), w')
    \<and> snd (scan_segment sample (SegmentId 1) (Some 50) ([], w'))
      = ([\<lparr>issue_file = Segment (SegmentId 1), the_issue = SealedSegmentSizeMismatch 50 29\<rparr>], w')"
proof -
  have "checksum sample (EntryId 2) [9] \<noteq> checksum sample (EntryId 2) [8]"
    by (simp add: checksum_def sample_def to_be_def)
  then show ?thesis
    using cut_sealed_segment_stays_closed [of corrupt_segment_world "SegmentId 1" sample
        "[(EntryId 1, [7])]" "frame_header sample (EntryId 2, [8])" "[9]" "[]" 50 29 "[]"]
    by (simp add: corrupt_segment_world_def healthy_def fits_def frame_len_def HEADER_LEN_def
        MAGIC_LEN_def push_issue_def) blast
qed

end
