(* ===== verification/Store_Dropped.thy ===== *)
theory Store_Dropped
  imports Store_Batches
begin

text \<open>
  A \<^verbatim>\<open>StoreWriter\<close> of \<^verbatim>\<open>src/store.rs\<close> that is dropped without \<^verbatim>\<open>write\<close>: what becomes of the entries pushed
  into it.
\<close>

text \<open>What a write does depends on the batch only through its last id and its count.\<close>

lemma write_batch_fewer:
  assumes roll: "rollover_pending s = False" and new: "new \<noteq> []"
    and run: "write_batch C (batch_of (old @ new)) (s, w) = (Inr c, s', w')"
  shows "write_batch C (batch_of new) (s, w)
    = (Inr c, s'\<lparr>active_entry_count := active_entry_count s' - length old\<rparr>, w')"
proof -
  obtain m n where len: "length new = Suc m" "length (old @ new) = Suc n"
    using new by (cases new) auto
  have last: "last_frame_id (old @ new) = Some (fst (last new))" "last_frame_id new = Some (fst (last new))"
    using new by (simp_all add: last_frame_id_def)
  obtain r1 s1 w1 where f: "active_file (s, w) = (r1, s1, w1)" by (metis prod_cases3)
  show ?thesis
  proof (cases r1)
    case (Inl e)
    then show ?thesis using run roll f new len
      by (simp add: write_batch_def batch_of_def last and_then_def)
  next
    case (Inr h)
    obtain r2 s2 w2 where g: "flush_active h (s1, w1) = (r2, s2, w2)" by (metis prod_cases3)
    show ?thesis using run roll f g new len Inr
      by (cases r2) (auto simp: write_batch_def batch_of_def last and_then_def update_store_def ok_def)
  qed
qed

text \<open>C38: Dropping a writer does not discard what was pushed into it: its entries stay in the buffer of the
  store and the next batch writes them in front of its own, so they are there after opening again; but
  the count of entries in memory, which the next seal records, only grows by the second batch.\<close>

theorem dropped_batch_written:
  assumes ok: "store_ok C ms fs (old @ new) (s, w)" and roll: "rollover_pending s = False"
    and cont: "continues fs (st_state s) (old @ new)" and new: "new \<noteq> []"
    and ord: "order_ok C" and wr: "recovery_writable C"
  shows "\<exists>f s' w' s2 w2. write_batch C (batch_of new) (s, w) = (Inr (Some f), s', w')
    \<and> store_ok C ms (fs(active_id s := fs (active_id s) @ old @ new)) [] (s', w')
    \<and> active_entry_count s' = active_entry_count s + length new
    \<and> open_store C trigger w' = (Inr s2, w2)
    \<and> store_ok C ms (fs(active_id s := fs (active_id s) @ old @ new)) [] (s2, w2)
    \<and> active_entry_count s2 = length (fs (active_id s) @ old @ new)"
proof -
  let ?fs = "fs(active_id s := fs (active_id s) @ old @ new)"
  obtain f s1 w1 where r: "write_batch C (batch_of (old @ new)) (s, w) = (Inr (Some f), s1, w1)"
    "store_ok C ms ?fs [] (s1, w1)" "active_entry_count s1 = active_entry_count s + length (old @ new)"
    "active_id s1 = active_id s" "st_state s1 = st_state s"
    using write_batch_run [OF ok roll cont] by blast
  let ?s = "s1\<lparr>active_entry_count := active_entry_count s1 - length old\<rparr>"
  have run: "write_batch C (batch_of new) (s, w) = (Inr (Some f), ?s, w1)"
    by (rule write_batch_fewer [OF roll new r(1)])
  have ok': "store_ok C ms ?fs [] (?s, w1)" using r(2) by (simp add: store_ok_def)
  have count: "active_entry_count ?s = active_entry_count s + length new" using r(3) by simp
  note D = store_okD [OF r(2)]
  obtain s2 w2 where o: "open_store C trigger w1 = (Inr s2, w2)" "store_ok C ms ?fs [] (s2, w2)"
    "st_state s2 = st_state s1" "active_entry_count s2 = length (?fs (active_id s2))"
    using reopens [OF D(1-3) ord wr next_after_tracked [OF r(2)], of trigger] by blast
  have "active_id s2 = active_id s" using store_okD(6) [OF o(2)] store_okD(6) [OF ok] o(3) r(5) by simp
  then have "active_entry_count s2 = length (fs (active_id s) @ old @ new)" using o(4) by simp
  then show ?thesis using run ok' count o(1,2) by blast
qed

theorem dropped_batch_written_witness:
  "\<exists>s w f s' w' s2 w2. write_batch sample (batch_of [(EntryId 2, [9, 9])]) (s, w) = (Inr (Some f), s', w')
    \<and> open_store sample 1000 w' = (Inr s2, w2)
    \<and> active_entry_count s' = active_entry_count s + 1 \<and> active_entry_count s2 = 3"
proof -
  obtain s w f where s: "store_ok sample [first_op] batch_frames next_batch (s, w)"
    "st_state s = fresh_state" "active_id s = SegmentId 1" "rollover_pending s = False"
    by (rule writing_store)
  have spl: "next_batch = [(EntryId 1, [8])] @ [(EntryId 2, [9, 9])]" by (simp add: next_batch_def)
  have cont: "continues batch_frames (st_state s) ([(EntryId 1, [8])] @ [(EntryId 2, [9, 9])])"
    using continues_next s(2) spl by simp
  obtain f s' w' s2 w2 where "write_batch sample (batch_of [(EntryId 2, [9, 9])]) (s, w) = (Inr (Some f), s', w')"
    "open_store sample 1000 w' = (Inr s2, w2)"
    "active_entry_count s' = active_entry_count s + length [(EntryId 2, [9, 9 :: u8])]"
    "active_entry_count s2 = length (batch_frames (active_id s) @ [(EntryId 1, [8])] @ [(EntryId 2, [9, 9])])"
    using dropped_batch_written [OF s(1) [unfolded spl] s(4) cont _ sample_order sample_recovery_writable,
        of 1000] by blast
  moreover have "length [(EntryId 2, [9, 9 :: u8])] = 1"
    "length (batch_frames (active_id s) @ [(EntryId 1, [8])] @ [(EntryId 2, [9, 9])]) = 3"
    using s(3) by (simp_all add: batch_frames_def first_batch_def)
  ultimately show ?thesis by metis
qed

end
