(* ===== verification/Runs.thy ===== *)
theory Runs
  imports Main
begin

text \<open>
  Runs of a labelled transition system, and the two interfaces the development proves about systems:
  an invariant every step keeps, and a simulation of one system by another.
\<close>

inductive run :: "('a \<Rightarrow> bool) \<Rightarrow> ('a \<Rightarrow> 'r \<Rightarrow> 'a \<Rightarrow> bool) \<Rightarrow> 'r list \<Rightarrow> 'a \<Rightarrow> bool" for init step where
  run_init: "init a \<Longrightarrow> run init step [] a"
| run_step: "run init step rs a \<Longrightarrow> step a r b \<Longrightarrow> run init step (rs @ [r]) b"

lemma run_Nil: "run init step [] a \<longleftrightarrow> init a"
  by (auto intro: run_init elim: run.cases)

lemma run_snoc: "run init step (rs @ [r]) b \<longleftrightarrow> (\<exists>a. run init step rs a \<and> step a r b)"
  by (auto intro: run_step elim: run.cases)

text \<open>An invariant: it holds at the start and every step keeps it.\<close>

locale invariant =
  fixes init :: "'a \<Rightarrow> bool" and step :: "'a \<Rightarrow> 'r \<Rightarrow> 'a \<Rightarrow> bool" and inv :: "'a \<Rightarrow> bool"
  assumes inv_init: "init a \<Longrightarrow> inv a"
    and inv_step: "inv a \<Longrightarrow> step a r b \<Longrightarrow> inv b"
begin

lemma inv_run: "run init step rs a \<Longrightarrow> inv a"
  by (induction rule: run.induct) (blast intro: inv_init inv_step)+

end

text \<open>A simulation: each step of the concrete system is one of the abstract system with the same label.\<close>

locale simulation =
  fixes cinit :: "'c \<Rightarrow> bool" and cstep :: "'c \<Rightarrow> 'r \<Rightarrow> 'c \<Rightarrow> bool"
    and ainit :: "'a \<Rightarrow> bool" and astep :: "'a \<Rightarrow> 'r \<Rightarrow> 'a \<Rightarrow> bool" and rel :: "'a \<Rightarrow> 'c \<Rightarrow> bool"
  assumes sim_init: "cinit c \<Longrightarrow> \<exists>a. ainit a \<and> rel a c"
    and sim_step: "rel a c \<Longrightarrow> cstep c r d \<Longrightarrow> \<exists>b. astep a r b \<and> rel b d"
begin

lemma sim_run: "run cinit cstep rs c \<Longrightarrow> \<exists>a. run ainit astep rs a \<and> rel a c"
proof (induction rule: run.induct)
  case (run_init c)
  then show ?case using sim_init run.run_init by metis
next
  case (run_step rs c r d)
  then obtain a where a: "run ainit astep rs a" "rel a c" by blast
  obtain b where "astep a r b" "rel b d" using sim_step [OF a(2) run_step(2)] by blast
  then show ?case using run.run_step [OF a(1)] by metis
qed

end

text \<open>A simulation of a system that keeps an invariant: the related states have it.\<close>

locale safe_simulation = simulation cinit cstep ainit astep rel + abstract: invariant ainit astep inv
  for cinit cstep ainit astep rel inv
begin

lemma safe_run: "run cinit cstep rs c \<Longrightarrow> \<exists>a. run ainit astep rs a \<and> inv a \<and> rel a c"
  using sim_run abstract.inv_run by metis

end

end
