(* ===== verification/Log_Spec.thy ===== *)
theory Log_Spec
  imports Frame_Laws Runs
begin

text \<open>
  What a woodshed store promises, without files: an append-only log with a head, a batch being written
  and metadata, and the effect of each public operation of \<^verbatim>\<open>src/store.rs\<close> on it. The relation leaves
  open only whether an operation has happened when the process ends in it, and how many entries of a batch.
\<close>

section \<open>The log\<close>

record log =
  log_entries :: "frame list"
  log_pending :: "frame list"
  log_head :: entry_id
  log_meta :: "u8 \<rightharpoonup> bytes"

text \<open>The public operations; one that is called and refused; and the ways a process ends: between two
  operations, or in one of them; the store is then opened again.\<close>

datatype request =
    Push u64 bytes
  | Write
  | Restart
  | TruncateStartAt u64 "(u8 \<times> bytes) list"
  | TruncateEndAt u64
  | SetMetadata "(u8 \<times> bytes) list"
  | DeleteDead
  | Refused request
  | Stopped request

definition empty_log :: log where
  "empty_log = \<lparr>log_entries = [], log_pending = [], log_head = EntryId 0, log_meta = Map.empty\<rparr>"

text \<open>Entries before the head do not become part of the log.\<close>

definition log_append :: "frame list \<Rightarrow> log \<Rightarrow> log" where
  "log_append fs l = l\<lparr>log_entries := log_entries l @ filter (\<lambda>f. log_head l \<le> fst f) fs, log_pending := []\<rparr>"

text \<open>A key has the value it was last given.\<close>

definition log_set :: "(u8 \<times> bytes) list \<Rightarrow> log \<Rightarrow> log" where
  "log_set kvs l = l\<lparr>log_meta := log_meta l ++ map_of (rev kvs)\<rparr>"

text \<open>A refused operation changes nothing. An operation that is stopped has happened or not, and of a batch any number of entries has been
  written; what is pending is lost.\<close>

inductive log_step :: "log \<Rightarrow> request \<Rightarrow> log \<Rightarrow> bool" where
  pushed: "\<forall>f \<in> set (log_entries l @ log_pending l). fst f < EntryId i \<Longrightarrow>
    log_step l (Push i p) (l\<lparr>log_pending := log_pending l @ [(EntryId i, p)]\<rparr>)"
| written: "log_step l Write (log_append (log_pending l) l)"
| restarted: "log_step l Restart (l\<lparr>log_pending := []\<rparr>)"
| head_moved: "log_head l \<le> EntryId i \<Longrightarrow> log_step l (TruncateStartAt i kvs)
    (log_set kvs (l\<lparr>log_entries := filter (\<lambda>f. EntryId i \<le> fst f) (log_entries l), log_head := EntryId i\<rparr>))"
| rolled_back: "log_step l (TruncateEndAt i)
    (l\<lparr>log_entries := filter (\<lambda>f. fst f \<le> EntryId i) (log_entries l)\<rparr>)"
| meta_set: "log_step l (SetMetadata kvs) (log_set kvs l)"
| deleted: "log_step l DeleteDead l"
| refused: "log_step l (Refused r) l"
| stopped_before: "log_step l (Stopped r) (l\<lparr>log_pending := []\<rparr>)"
| stopped_after: "log_step l r l' \<Longrightarrow> log_step l (Stopped r) (l'\<lparr>log_pending := []\<rparr>)"
| cut_short: "n \<le> length (log_pending l) \<Longrightarrow> log_step l (Stopped Write) (log_append (take n (log_pending l)) l)"

inductive_simps log_step_simps:
  "log_step l (Push i p) l'" "log_step l Write l'" "log_step l Restart l'" "log_step l (SetMetadata kvs) l'"
  "log_step l (TruncateStartAt i kvs) l'" "log_step l (TruncateEndAt i) l'" "log_step l DeleteDead l'"
  "log_step l (Refused r) l'"

abbreviation log_run :: "request list \<Rightarrow> log \<Rightarrow> bool" where
  "log_run \<equiv> run ((=) empty_log) log_step"

section \<open>Its invariant\<close>

text \<open>The entries ascend strictly, the batch continues them, and none is before the head.\<close>

definition wf_log :: "log \<Rightarrow> bool" where
  "wf_log l \<longleftrightarrow> sorted_wrt (\<lambda>f g. fst f < fst g) (log_entries l @ log_pending l)
     \<and> (\<forall>f \<in> set (log_entries l). log_head l \<le> fst f)"

lemma wf_log_append:
  assumes "wf_log l" and "log_pending l = fs @ gs"
  shows "wf_log (log_append fs l)"
  using assms by (auto simp: wf_log_def log_append_def sorted_wrt_append sorted_wrt_filter)

lemma wf_log_stop: "wf_log l \<Longrightarrow> wf_log (l\<lparr>log_pending := []\<rparr>)"
  by (simp add: wf_log_def sorted_wrt_append)

lemma wf_log_step: "log_step l r l' \<Longrightarrow> wf_log l \<Longrightarrow> wf_log l'"
proof (induction rule: log_step.induct)
  case (written l)
  then show ?case using wf_log_append [of l "log_pending l" "[]"] by simp
next
  case (stopped_before l r)
  then show ?case by (rule wf_log_stop)
next
  case (stopped_after l r l')
  then show ?case using wf_log_stop by blast
next
  case (cut_short n l)
  then show ?case using wf_log_append [of l "take n (log_pending l)" "drop n (log_pending l)"] by simp
qed (auto simp: wf_log_def log_set_def sorted_wrt_append sorted_wrt_filter)

interpretation log_invariant: invariant "(=) empty_log" log_step wf_log
proof (unfold_locales, goal_cases)
  case (1 l)
  then show ?case by (auto simp: wf_log_def empty_log_def)
next
  case (2 l r l')
  show ?case by (rule wf_log_step [OF 2(2,1)])
qed

end
