(* ===== verification/Lending.thy ===== *)
theory Lending
  imports Prelude
begin

text \<open>
  The trait \<^verbatim>\<open>LendingIterator\<close> of \<^verbatim>\<open>src/lib.rs\<close>: \<^verbatim>\<open>next\<close> lends an item, which the caller uses and drops
  before it calls \<^verbatim>\<open>next\<close> again. The locale states what an iterator promises to the caller's loop.
\<close>

text \<open>One turn of the loop takes an item, uses it and drops it, or finds that there is none, or fails;
  \<open>None\<close> is a turn that does not come back. The argument \<open>n\<close> counts the turns; \<open>None\<close> says that they were
  not enough.\<close>

fun take_all :: "nat \<Rightarrow> ('s \<Rightarrow> ('e + ('a \<times> 's) option) option) \<Rightarrow> 's \<Rightarrow> ('e + 'a list) option" where
  "take_all 0 turn s = None"
| "take_all (Suc n) turn s =
     (case turn s of
        None \<Rightarrow> None
      | Some (Inl e) \<Rightarrow> Some (Inl e)
      | Some (Inr None) \<Rightarrow> Some (Inr [])
      | Some (Inr (Some (x, t))) \<Rightarrow> map_option (map_sum id ((#) x)) (take_all n turn t))"

text \<open>More turns do not change what was taken.\<close>

lemma take_all_more: "take_all n turn s = Some r \<Longrightarrow> n \<le> m \<Longrightarrow> take_all m turn s = Some r"
proof (induction n arbitrary: s r m)
  case 0
  then show ?case by simp
next
  case (Suc n)
  then obtain k where m: "m = Suc k" "n \<le> k" by (cases m) simp_all
  show ?case
    using Suc.prems(1) Suc.IH [OF _ m(2)] by (auto simp: m(1) split: option.splits sum.splits)
qed

lemma take_all_agree: "take_all n turn s = Some q \<Longrightarrow> take_all m turn s = Some r \<Longrightarrow> q = r"
  using take_all_more [of n turn s q "max n m"] take_all_more [of m turn s r "max n m"] by simp

locale lending_iterator =
  fixes turn :: "'s \<Rightarrow> ('e + ('a \<times> 's) option) option"
    and yields :: "'s \<Rightarrow> 'a list \<Rightarrow> bool"
  assumes over: "yields s [] \<Longrightarrow> turn s = Some (Inr None)"
    and more: "yields s (x # xs) \<Longrightarrow> \<exists>t. turn s = Some (Inr (Some (x, t))) \<and> yields t xs"
begin

text \<open>As many turns as there are items, and one, are enough.\<close>

lemma exhausts: "yields s xs \<Longrightarrow> length xs < n \<Longrightarrow> take_all n turn s = Some (Inr xs)"
proof (induction xs arbitrary: s n)
  case Nil
  then show ?case using over by (cases n) simp_all
next
  case (Cons x xs)
  then obtain m where n: "n = Suc m" "length xs < m" by (cases n) simp_all
  obtain t where "turn s = Some (Inr (Some (x, t)))" "yields t xs" using more [OF Cons.prems(1)] by blast
  then show ?case using Cons.IH [of t m] n by simp
qed

end

end
