(* ===== verification/Reader.thy ===== *)
theory Reader
  imports Store
begin

text \<open>
  \<^verbatim>\<open>StoreReader\<close> of \<^verbatim>\<open>src/store.rs\<close>: a scan from an entry id, and the iterator that reads frames and
  moves on to the next segment when one is exhausted. A reader borrows the store, which does not
  change while it lives.
\<close>

type_synonym reader_state = "(segment_id \<times> frame_scanner) option"

definition scan_start :: "store \<Rightarrow> entry_id \<Rightarrow> (segment_id \<times> nat) option" where
  "scan_start s from_id =
     (case entry_find (st_index s) from_id of
        Some pos \<Rightarrow> Some (segment pos, byte_offset pos)
      | None \<Rightarrow> (case segments (st_state s) of [] \<Rightarrow> None | e # _ \<Rightarrow> Some (se_id e, MAGIC_LEN)))"

text \<open>\<^verbatim>\<open>Store::scan\<close>. An unreadable first segment, or an error while seeking in it, gives a reader that
  yields nothing; \<open>None\<close> of \<open>scan_start\<close> is a failing \<^verbatim>\<open>unwrap\<close>.\<close>

definition scan_from :: "store \<Rightarrow> u64 \<Rightarrow> (world, io_kind stop, reader_state) step" where
  "scan_from s i = (\<lambda>w.
     let from_id = EntryId (max i (first_entry_id s)) in
     if (case last_entry_id s of None \<Rightarrow> True | Some l \<Rightarrow> l < eid from_id) then (Inr None, w)
     else case scan_start s from_id of
       None \<Rightarrow> (Inl Panic, w)
     | Some (seg, offset) \<Rightarrow>
         (case open_segment seg w of
            (Inl _, w1) \<Rightarrow> (Inr None, w1)
          | (Inr (f, _), w1) \<Rightarrow>
              (case scanner_new f offset w1 of
                 (sc, w2) \<Rightarrow> (case seek_to_id from_id sc of
                    (Inl _, _) \<Rightarrow> (Inr None, w2)
                  | (Inr _, sc') \<Rightarrow> (Inr (Some (seg, sc')), w2)))))"

text \<open>The position of a segment in the list, and the segment after it.\<close>

fun segment_after :: "segment_id \<Rightarrow> segment_entry list \<Rightarrow> segment_id option" where
  "segment_after i [] = None"
| "segment_after i (e # es) =
     (if se_id e = i then (case es of [] \<Rightarrow> None | e' # _ \<Rightarrow> Some (se_id e')) else segment_after i es)"

text \<open>\<^verbatim>\<open>next\<close>: \<open>None\<close> ends the iteration; otherwise an error or an entry's id with the reader of its
  payload. Each round of the loop moves to a later segment, so as many rounds as there are segments,
  and one, are enough; the argument \<open>n\<close> counts them down.\<close>

datatype next_item = NextErr io_kind | NextEntry u64 frame_reader

fun next_from :: "nat \<Rightarrow> store \<Rightarrow> reader_state \<Rightarrow> world \<Rightarrow> next_item option \<times> reader_state \<times> world" where
  "next_from 0 s rd w = (None, None, w)"
| "next_from (Suc n) s None w = (None, None, w)"
| "next_from (Suc n) s (Some (current, sc)) w =
     (case scanner_read sc of
        (Inl _, sc1) \<Rightarrow> (Some (NextErr InvalidData), Some (current, sc1), w)
      | (Inr (Some fr), sc1) \<Rightarrow> (Some (NextEntry (eid (fr_id fr)) fr), Some (current, sc1), w)
      | (Inr None, _) \<Rightarrow>
          (case segment_after current (segments (st_state s)) of
             None \<Rightarrow> (None, None, w)
           | Some nxt \<Rightarrow>
               (case open_segment nxt w of
                  (Inl (Err e), w1) \<Rightarrow> (Some (NextErr e), None, w1)
                | (Inl Panic, w1) \<Rightarrow> (None, None, w1)
                | (Inr (f, _), w1) \<Rightarrow>
                    (case scanner_new f MAGIC_LEN w1 of
                       (sc1, w2) \<Rightarrow> next_from n s (Some (nxt, sc1)) w2))))"

definition reader_next :: "store \<Rightarrow> reader_state \<Rightarrow> world \<Rightarrow> next_item option \<times> reader_state \<times> world" where
  "reader_next s rd w = next_from (Suc (length (segments (st_state s)))) s rd w"

end
