(* ===== verification/Store_Reopen.thy ===== *)
theory Store_Reopen
  imports Store_Batches
begin

text \<open>
  A rollover and a metadata operation of \<^verbatim>\<open>src/store.rs\<close>, each with what opening the store again
  finds, and a sample store of two segments.
\<close>

section \<open>Rollover and metadata\<close>

text \<open>C11: A batch with a rollover pending seals the active segment, goes to a new one and is found there
  again: the entries before it stay where they are, the new segment holds exactly the batch, and the
  store opens on the new segment without recovery.\<close>

theorem rolled_batch_reopens:
  assumes ok: "store_ok C ms fs pend (s, w)" and roll: "rollover_pending s"
    and ne: "fs (active_id s) \<noteq> []" and cont: "continues fs (st_state s) pend"
    and nxt: "next_segment_id (next_seg_id s) \<noteq> None"
    and wr: "op_writable C (bare (rollover_op s (fst (hd pend))))"
    and size: "MAGIC_LEN + length (frames_bytes C (fs (active_id s))) < 2 ^ 64"
    and ord: "order_ok C" and rec: "recovery_writable C"
  shows "\<exists>f s' w' s2 w2. write_batch C (batch_of pend) (s, w) = (Inr (Some f), s', w')
    \<and> path f = segment_path (next_seg_id s)
    \<and> open_store C trigger w' = (Inr s2, w2)
    \<and> store_ok C (ms @ [bare (rollover_op s (fst (hd pend)))]) (fs(next_seg_id s := pend)) [] (s2, w2)
    \<and> segments (st_state s2) = segments (st_state s)
        @ [\<lparr>se_id = next_seg_id s, se_first = fst (hd pend)\<rparr>] \<and> active_id s2 = next_seg_id s
    \<and> last_entry s2 = Some (fst (last pend)) \<and> active_entry_count s2 = length pend"
proof -
  let ?m = "bare (rollover_op s (fst (hd pend)))" and ?fs = "fs(next_seg_id s := pend)"
  obtain f s' w' where r: "write_batch C (batch_of pend) (s, w) = (Inr (Some f), s', w')"
    "store_ok C (ms @ [?m]) ?fs [] (s', w')" "active_id s' = next_seg_id s"
    "path f = segment_path (next_seg_id s)" "segments (st_state s') = segments (st_state s)
        @ [\<lparr>se_id = next_seg_id s, se_first = fst (hd pend)\<rparr>]"
    using write_batch_rolls [OF ok roll ne cont nxt wr size] by blast
  note D = store_okD [OF r(2)]
  obtain s2 w2 where o: "open_store C trigger w' = (Inr s2, w2)" "store_ok C (ms @ [?m]) ?fs [] (s2, w2)"
    "st_state s2 = st_state s'" "active_entry_count s2 = length (?fs (active_id s2))"
    "last_entry s2 = (case last_frame_id (?fs (active_id s2)) of
        Some l \<Rightarrow> Some l | None \<Rightarrow> sealed_last_entry (st_state s'))"
    using reopens [OF D(1-3) ord rec next_after_tracked [OF r(2)], of trigger] by blast
  have a: "active_id s2 = next_seg_id s" using store_okD(6) [OF o(2)] D(6) o(3) r(3) by simp
  have "last_entry s2 = Some (fst (last pend))"
    using o(5) a cont by (simp add: last_frame_id_def continues_def)
  moreover have "active_entry_count s2 = length pend" using o(4) a by simp
  moreover have "segments (st_state s2) = segments (st_state s)
      @ [\<lparr>se_id = next_seg_id s, se_first = fst (hd pend)\<rparr>]" using r(5) o(3) by metis
  ultimately show ?thesis using r(1,4) o(1,2) a by blast
qed

text \<open>A store that is about to roll over, and what it becomes.\<close>

lemma rolling_facts:
  assumes "st_state s = fresh_state" and "active_id s = SegmentId 1" and "next_seg_id s = SegmentId 2"
  shows "batch_frames (active_id s) \<noteq> []" "continues batch_frames (st_state s) next_batch"
    "next_segment_id (next_seg_id s) \<noteq> None"
    "op_writable sample (bare (rollover_op s (fst (hd next_batch))))"
    "MAGIC_LEN + length (frames_bytes sample (batch_frames (active_id s))) < 2 ^ 64"
proof -
  show "batch_frames (active_id s) \<noteq> []" by (simp add: assms batch_frames_def first_batch_def)
  show "continues batch_frames (st_state s) next_batch" using continues_next assms by simp
  show "next_segment_id (next_seg_id s) \<noteq> None" by (simp add: assms next_segment_id_def)
  show "op_writable sample (bare (rollover_op s (fst (hd next_batch))))"
    by (rule sample_writable) (simp add: bare_def rollover_op_def encode_sample_simps)
  show "MAGIC_LEN + length (frames_bytes sample (batch_frames (active_id s))) < 2 ^ 64"
    by (simp add: assms batch_frames_def first_batch_def frame_len_def HEADER_LEN_def MAGIC_LEN_def)
qed

theorem rolled_batch_reopens_witness:
  "\<exists>s w f s' w' s2 w2. write_batch sample (batch_of next_batch) (s, w) = (Inr (Some f), s', w')
    \<and> open_store sample 10 w' = (Inr s2, w2)
    \<and> ids_of (st_state s2) = [SegmentId 1, SegmentId 2] \<and> active_entry_count s2 = 2"
proof -
  obtain s w where s: "store_ok sample [first_op] batch_frames next_batch (s, w)"
    "st_state s = fresh_state" "active_id s = SegmentId 1" "rollover_pending s"
    "next_seg_id s = SegmentId 2"
    by (rule rolling_store)
  obtain f s' w' s2 w2 where r: "write_batch sample (batch_of next_batch) (s, w) = (Inr (Some f), s', w')"
    "open_store sample 10 w' = (Inr s2, w2)"
    "segments (st_state s2) = segments (st_state s)
      @ [\<lparr>se_id = next_seg_id s, se_first = fst (hd next_batch)\<rparr>]"
    "active_entry_count s2 = length next_batch"
    using rolled_batch_reopens [OF s(1,4) rolling_facts [OF s(2,3,5)] sample_order
        sample_recovery_writable, of 10] by blast
  have "ids_of (st_state s2) = [SegmentId 1, SegmentId 2]"
    unfolding r(3) by (simp add: s(2,5) fresh_state_def)
  moreover have "length next_batch = 2" by (simp add: next_batch_def)
  ultimately show ?thesis using r by metis
qed

text \<open>A store of two segments, the first sealed.\<close>

lemma rolled_store:
  obtains s w m fs where "store_ok sample [first_op, m] fs [] (s, w)"
    and "segments (st_state s) = [\<lparr>se_id = SegmentId 1, se_first = EntryId 0\<rparr>,
      \<lparr>se_id = SegmentId 2, se_first = EntryId 1\<rparr>]"
    and "fs (SegmentId 1) = first_batch" and "fs (SegmentId 2) = next_batch"
    and "last_entry s = Some (EntryId 2)" and "head_entry (st_state s) = EntryId 0"
    and "dead (st_state s) = {}" and "entry_marks (st_index s) = []"
proof -
  obtain s w where s: "store_ok sample [first_op] batch_frames next_batch (s, w)"
    "st_state s = fresh_state" "active_id s = SegmentId 1" "rollover_pending s"
    "next_seg_id s = SegmentId 2" "entry_marks (st_index s) = []"
    by (rule rolling_store)
  obtain m s' w' where r: "store_ok sample ([first_op] @ [m]) (batch_frames(next_seg_id s := next_batch)) []
      (s', w')"
    "segments (st_state s') = segments (st_state s)
      @ [\<lparr>se_id = next_seg_id s, se_first = fst (hd next_batch)\<rparr>]" "last_entry s' = last_frame_id next_batch"
    "head_entry (st_state s') = head_entry (st_state s)" "dead (st_state s') = dead (st_state s)"
    "st_index s' = st_index s"
    using write_batch_rolls [OF s(1,4) rolling_facts [OF s(2,3,5)]] by blast
  show thesis
  proof (rule that)
    show "store_ok sample [first_op, m] (batch_frames(next_seg_id s := next_batch)) [] (s', w')"
      using r(1) by simp
    show "segments (st_state s') = [\<lparr>se_id = SegmentId 1, se_first = EntryId 0\<rparr>,
      \<lparr>se_id = SegmentId 2, se_first = EntryId 1\<rparr>]"
      unfolding r(2) by (simp add: s(2,5) fresh_state_def next_batch_def)
  qed (simp_all add: s(2,5,6) r(3-6) fresh_state_def batch_frames_def next_batch_def last_frame_id_def)
qed

text \<open>Metadata that was written is read back, now and after opening again: each key has the last value
  written for it, keys not written keep theirs, and the entries are untouched.\<close>

theorem written_metadata_reopens:
  assumes ok: "store_ok C ms fs pend (s, w)" and wr: "op_writable C (with_meta Metadata kvs)"
    and ord: "order_ok C" and rec: "recovery_writable C"
  shows "\<exists>s' w' s2 w2. write_metadata C kvs (s, w) = (Inr (), s', w')
    \<and> store_ok C (ms @ [with_meta Metadata kvs]) fs pend (s', w')
    \<and> store_metadata s' = fold set_pair kvs (store_metadata s)
    \<and> open_store C trigger w' = (Inr s2, w2)
    \<and> store_ok C (ms @ [with_meta Metadata kvs]) fs [] (s2, w2)
    \<and> store_metadata s2 = store_metadata s'"
proof -
  obtain s' w' where c: "committed C ms (with_meta Metadata kvs) (s, w) = (s', w')" by fastforce
  have r: "write_metadata C kvs (s, w) = (Inr (), s', w')"
    "store_ok C (ms @ [with_meta Metadata kvs]) fs pend (s', w')"
    "metadata (st_state s') = fold set_pair kvs (metadata (st_state s))"
    using write_metadata_ok [OF ok wr] unfolding c by simp_all
  note D = store_okD [OF r(2)]
  obtain s2 w2 where "open_store C trigger w' = (Inr s2, w2)"
    "store_ok C (ms @ [with_meta Metadata kvs]) fs [] (s2, w2)" "st_state s2 = st_state s'"
    using reopens [OF D(1-3) ord rec next_after_tracked [OF r(2)], of trigger] by blast
  with r show ?thesis by (auto simp: store_metadata_def)
qed

theorem written_metadata_reopens_witness:
  "\<exists>s w s' w' s2 w2. write_metadata sample [(1, [5])] (s, w) = (Inr (), s', w')
    \<and> open_store sample 1000 w' = (Inr s2, w2) \<and> store_metadata s2 = [(1, [5])]"
proof -
  obtain s w f where s: "store_ok sample [first_op] batch_frames next_batch (s, w)"
    "st_state s = fresh_state" by (rule writing_store)
  have wr: "op_writable sample (with_meta Metadata [(1, [5])])"
    by (rule sample_writable) (simp add: with_meta_def encode_sample_simps)
  obtain s' w' s2 w2 where r: "write_metadata sample [(1, [5])] (s, w) = (Inr (), s', w')"
    "open_store sample 1000 w' = (Inr s2, w2)"
    "store_metadata s2 = fold set_pair [(1, [5])] (store_metadata s)"
    using written_metadata_reopens [OF s(1) wr sample_order sample_recovery_writable, of 1000] by metis
  have "store_metadata s2 = [(1, [5])]"
    unfolding r(3) by (simp add: store_metadata_def s(2) fresh_state_def)
  with r(1,2) show ?thesis by blast
qed

end
