(* ===== verification/Reader_Laws.thy ===== *)
theory Reader_Laws
  imports Lending Reader Store_Reopen
begin

text \<open>
  What the reader of \<^verbatim>\<open>src/store.rs\<close> yields over a store: \<^verbatim>\<open>next\<close> walks through the frames of the
  segments in order, and draining a scan gives the entries from the start segment on.
\<close>

section \<open>The caller's loop\<close>

text \<open>The loop in the documentation of \<^verbatim>\<open>scan\<close>: take the next entry, read it to its end, drop it. The
  argument \<open>n\<close> counts the calls of \<^verbatim>\<open>next\<close>; \<open>None\<close> says that they were not enough.\<close>

fun drain :: "nat \<Rightarrow> store \<Rightarrow> reader_state \<Rightarrow> world \<Rightarrow> (io_kind + frame list) option" where
  "drain 0 s rd w = None"
| "drain (Suc n) s rd w =
     (case reader_next s rd w of
        (None, _, _) \<Rightarrow> Some (Inr [])
      | (Some (NextErr e), _, _) \<Rightarrow> Some (Inl e)
      | (Some (NextEntry i fr), None, _) \<Rightarrow> None
      | (Some (NextEntry i fr), Some (seg, sc), w1) \<Rightarrow>
          (case read_to_end [] (fr, sc) of
             (Inl e, _) \<Rightarrow> Some (Inl e)
           | (Inr p, fr', sc1) \<Rightarrow>
               map_option (map_sum id ((#) (EntryId i, p)))
                 (drain n s (Some (seg, reader_drop fr' sc1)) w1)))"

text \<open>One turn of this loop, so that it is the loop over a lending iterator.\<close>

definition reader_turn :: "store \<Rightarrow> reader_state \<times> world \<Rightarrow> (io_kind + (frame \<times> reader_state \<times> world) option) option" where
  "reader_turn s = (\<lambda>(rd, w).
     case reader_next s rd w of
        (None, _, _) \<Rightarrow> Some (Inr None)
      | (Some (NextErr e), _, _) \<Rightarrow> Some (Inl e)
      | (Some (NextEntry i fr), None, _) \<Rightarrow> None
      | (Some (NextEntry i fr), Some (seg, sc), w1) \<Rightarrow>
          (case read_to_end [] (fr, sc) of
             (Inl e, _) \<Rightarrow> Some (Inl e)
           | (Inr p, fr', sc1) \<Rightarrow> Some (Inr (Some ((EntryId i, p), Some (seg, reader_drop fr' sc1), w1)))))"

lemma drain_take_all: "drain n s rd w = take_all n (reader_turn s) (rd, w)"
  by (induction n arbitrary: rd w)
     (simp_all add: reader_turn_def split: prod.split option.split next_item.split sum.split)

section \<open>The next entry\<close>

lemma segment_after_split:
  "distinct (map se_id (es @ e # es')) \<Longrightarrow>
     segment_after (se_id e) (es @ e # es') = (case es' of [] \<Rightarrow> None | e' # _ \<Rightarrow> Some (se_id e'))"
  by (induction es) (auto split: list.split)

lemma segment_after_ids:
  assumes "wf_state st" and "ids_of st = pre @ i # post"
  shows "segment_after i (segments st) = (case post of [] \<Rightarrow> None | j # _ \<Rightarrow> Some j)"
proof -
  obtain es e es' where es: "segments st = es @ e # es'" "se_id e = i" "map se_id es' = post"
    using map_eq_split [OF assms(2)] by blast
  moreover have "distinct (map se_id (es @ e # es'))" using assms(1) es(1) by (simp add: wf_state_def)
  ultimately show ?thesis using segment_after_split [of es e es'] by (cases es') auto
qed

lemma image_scanner:
  assumes "crash_image C ms st fs [] [] w" and "i \<in> set (ids_of st)"
  obtains sc where "open_segment i w = (Inr (\<lparr>path = segment_path i, cursor_at = MAGIC_LEN\<rparr>, MAGIC_LEN), w)"
    and "scanner_new \<lparr>path = segment_path i, cursor_at = MAGIC_LEN\<rparr> off w = (sc, w)"
    and "awaits C (fs i) [] sc" and "stream_end sc = None" and "\<forall>g \<in> set (fs i). fits g"
    and "position sc = off" and "peeked sc = None"
proof -
  have w: "healthy w" using image_world(1) [OF assms(1)] .
  have c: "content w (segment_path i) = Some (SEGMENT_MAGIC @ frames_bytes C (fs i))"
    using image_segment(1) [OF assms] by (simp add: tail_of_def)
  have "open_segment i w = (Inr (\<lparr>path = segment_path i, cursor_at = MAGIC_LEN\<rparr>, MAGIC_LEN), w)"
    unfolding open_segment_def by (rule open_checked_magic [OF w, of _ _ "frames_bytes C (fs i)"]) (simp_all add: c)
  then show thesis
    using w c image_segment(2) [OF assms]
    by (intro that [of "fst (scanner_new \<lparr>path = segment_path i, cursor_at = MAGIC_LEN\<rparr> off w)"])
       (simp_all add: scanner_new_def read_stream_def)
qed

lemma next_from_frame:
  assumes "awaits C (g # gs) [] sc" and "fits g"
  obtains fr sc1 where "scanner_read sc = (Inr (Some fr), sc1)"
    and "next_from (Suc n) s (Some (seg, sc)) w = (Some (NextEntry (eid (fst g)) fr), Some (seg, sc1), w)"
proof -
  obtain fr sc1 where "scanner_read sc = (Inr (Some fr), sc1)" "fr = \<lparr>fr_id = fst g,
      remaining = length (snd g), payload_len = length (snd g), frame_start = next_start sc\<rparr>"
    by (rule scanner_read_frame [OF assms])
  then show thesis by (intro that [of fr sc1]) simp_all
qed

text \<open>One call of \<^verbatim>\<open>next\<close>, on a reader in the middle of segment \<open>seg\<close> with the frames \<open>gs\<close> in front of
  it: the first frame of \<open>gs\<close> or of a later segment, and a scanner in front of the rest.\<close>

lemma next_from_reads:
  assumes img: "crash_image C ms (st_state s) fs [] [] w"
  shows "ids_of (st_state s) = pre @ seg # post \<Longrightarrow> awaits C gs [] sc \<Longrightarrow> stream_end sc = None \<Longrightarrow>
    \<forall>g \<in> set gs. fits g \<Longrightarrow> length post < n \<Longrightarrow>
    (case gs @ concat (map fs post) of
       [] \<Rightarrow> next_from n s (Some (seg, sc)) w = (None, None, w)
     | g # rest \<Rightarrow> \<exists>fr seg' sc0 sc1 pre' post' gs'.
         next_from n s (Some (seg, sc)) w = (Some (NextEntry (eid (fst g)) fr), Some (seg', sc1), w)
         \<and> scanner_read sc0 = (Inr (Some fr), sc1) \<and> awaits C (g # gs') [] sc0 \<and> stream_end sc0 = None
         \<and> ids_of (st_state s) = pre' @ seg' # post' \<and> rest = gs' @ concat (map fs post')
         \<and> (\<forall>h \<in> set (g # gs'). fits h))"
proof (induction post arbitrary: pre seg gs sc n)
  case Nil
  then obtain m where n: "n = Suc m" by (cases n) auto
  show ?case
  proof (cases gs)
    case empty: Nil
    have "segment_after seg (segments (st_state s)) = None"
      using segment_after_ids [OF image_world(4) [OF img] Nil.prems(1)] by simp
    then show ?thesis
      using scanner_read_end [of C sc] Nil.prems(2,3) by (simp add: n empty)
  next
    case (Cons g gs')
    have "fits g" using Nil.prems(4) Cons by simp
    from next_from_frame [OF Nil.prems(2) [unfolded Cons] this, of m s seg w] obtain fr sc1 where
      "scanner_read sc = (Inr (Some fr), sc1)"
      "next_from n s (Some (seg, sc)) w = (Some (NextEntry (eid (fst g)) fr), Some (seg, sc1), w)"
      unfolding n by blast
    then have "\<exists>fr seg' sc0 sc1 pre' post' gs''.
         next_from n s (Some (seg, sc)) w = (Some (NextEntry (eid (fst g)) fr), Some (seg', sc1), w)
         \<and> scanner_read sc0 = (Inr (Some fr), sc1) \<and> awaits C (g # gs'') [] sc0 \<and> stream_end sc0 = None
         \<and> ids_of (st_state s) = pre' @ seg' # post' \<and> gs' = gs'' @ concat (map fs post')
         \<and> (\<forall>h \<in> set (g # gs''). fits h)"
      using Nil.prems(1,3,4) Nil.prems(2) [unfolded Cons] unfolding Cons
      by (intro exI [of _ fr] exI [of _ seg] exI [of _ sc] exI [of _ sc1] exI [of _ pre]
          exI [of _ "[]"] exI [of _ gs']) simp
    then show ?thesis unfolding Cons by simp
  qed
next
  case (Cons j post)
  then obtain m where n: "n = Suc m" "length post < m" by (cases n) auto
  show ?case
  proof (cases gs)
    case Nil
    have nx: "segment_after seg (segments (st_state s)) = Some j"
      using segment_after_ids [OF image_world(4) [OF img] Cons.prems(1)] by simp
    have j: "j \<in> set (ids_of (st_state s))" unfolding Cons.prems(1) by simp
    obtain sc' where sc': "open_segment j w = (Inr (\<lparr>path = segment_path j, cursor_at = MAGIC_LEN\<rparr>, MAGIC_LEN), w)"
      "scanner_new \<lparr>path = segment_path j, cursor_at = MAGIC_LEN\<rparr> MAGIC_LEN w = (sc', w)"
      "awaits C (fs j) [] sc'" "stream_end sc' = None" "\<forall>g \<in> set (fs j). fits g"
      by (rule image_scanner [OF img j])
    have "next_from n s (Some (seg, sc)) w = next_from m s (Some (j, sc')) w"
      using scanner_read_end [of C sc] Cons.prems(2,3) Nil sc'(1,2) nx by (simp add: n)
    moreover have "ids_of (st_state s) = (pre @ [seg]) @ j # post" using Cons.prems(1) by simp
    note Cons.IH [OF this sc'(3-5) n(2)]
    ultimately show ?thesis unfolding Nil by (simp only: append_Nil list.map concat.simps)
  next
    case gs: (Cons g gs')
    have "fits g" using Cons.prems(4) gs by simp
    from next_from_frame [OF Cons.prems(2) [unfolded gs] this, of m s seg w] obtain fr sc1 where
      "scanner_read sc = (Inr (Some fr), sc1)"
      "next_from n s (Some (seg, sc)) w = (Some (NextEntry (eid (fst g)) fr), Some (seg, sc1), w)"
      unfolding n by blast
    then have "\<exists>fr seg' sc0 sc1 pre' post' gs''.
         next_from n s (Some (seg, sc)) w = (Some (NextEntry (eid (fst g)) fr), Some (seg', sc1), w)
         \<and> scanner_read sc0 = (Inr (Some fr), sc1) \<and> awaits C (g # gs'') [] sc0 \<and> stream_end sc0 = None
         \<and> ids_of (st_state s) = pre' @ seg' # post'
         \<and> gs' @ concat (map fs (j # post)) = gs'' @ concat (map fs post')
         \<and> (\<forall>h \<in> set (g # gs''). fits h)"
      using Cons.prems(1,3,4) Cons.prems(2) [unfolded gs] unfolding gs
      by (intro exI [of _ fr] exI [of _ seg] exI [of _ sc] exI [of _ sc1] exI [of _ pre]
          exI [of _ "j # post"] exI [of _ gs']) simp
    then show ?thesis unfolding gs by simp
  qed
qed

section \<open>Draining a reader\<close>

lemma next_from_over:
  assumes "crash_image C ms (st_state s) fs [] [] w" and "ids_of (st_state s) = pre @ seg # post"
    and "awaits C gs [] sc" and "stream_end sc = None" and "\<forall>g \<in> set gs. fits g"
    and "gs @ concat (map fs post) = []"
  shows "reader_next s (Some (seg, sc)) w = (None, None, w)"
proof -
  have "length post < Suc (length (segments (st_state s)))"
    using arg_cong [OF assms(2), of length] by simp
  from next_from_reads [OF assms(1-5) this] show ?thesis
    unfolding reader_next_def assms(6) list.case .
qed

lemma next_from_more:
  assumes "crash_image C ms (st_state s) fs [] [] w" and "ids_of (st_state s) = pre @ seg # post"
    and "awaits C gs [] sc" and "stream_end sc = None" and "\<forall>g \<in> set gs. fits g"
    and "gs @ concat (map fs post) = g # rest"
  obtains fr seg' sc0 sc1 pre' post' gs' where
    "reader_next s (Some (seg, sc)) w = (Some (NextEntry (eid (fst g)) fr), Some (seg', sc1), w)"
    "scanner_read sc0 = (Inr (Some fr), sc1)" "awaits C (g # gs') [] sc0" "stream_end sc0 = None"
    "ids_of (st_state s) = pre' @ seg' # post'" "rest = gs' @ concat (map fs post')"
    "\<forall>h \<in> set (g # gs'). fits h"
proof -
  have "length post < Suc (length (segments (st_state s)))"
    using arg_cong [OF assms(2), of length] by simp
  from next_from_reads [OF assms(1-5) this] show ?thesis
    unfolding assms(6) list.case reader_next_def [symmetric] by (elim exE conjE) (rule that)
qed

text \<open>What a reader in the middle of a segment still yields: the rest of that segment and the segments
  behind it.\<close>

definition reader_yields :: "'f crates \<Rightarrow> (segment_id \<Rightarrow> frame list) \<Rightarrow> store \<Rightarrow> reader_state \<times> world \<Rightarrow> frame list \<Rightarrow> bool" where
  "reader_yields C fs s = (\<lambda>(rd, w) xs. \<exists>ms pre seg post gs sc. rd = Some (seg, sc)
     \<and> crash_image C ms (st_state s) fs [] [] w \<and> ids_of (st_state s) = pre @ seg # post
     \<and> awaits C gs [] sc \<and> stream_end sc = None \<and> (\<forall>g \<in> set gs. fits g) \<and> xs = gs @ concat (map fs post))"

lemma reader_turn_over:
  assumes "reader_yields C fs s a []"
  shows "reader_turn s a = Some (Inr None)"
  using assms next_from_over by (fastforce simp: reader_yields_def reader_turn_def)

lemma reader_turn_more:
  assumes "reader_yields C fs s a (g # rest)"
  shows "\<exists>b. reader_turn s a = Some (Inr (Some (g, b))) \<and> reader_yields C fs s b rest"
proof -
  obtain ms pre seg post gs sc w where a: "a = (Some (seg, sc), w)"
    and img: "crash_image C ms (st_state s) fs [] [] w" and ids: "ids_of (st_state s) = pre @ seg # post"
    and sc: "awaits C gs [] sc" "stream_end sc = None" "\<forall>g \<in> set gs. fits g" and xs: "gs @ concat (map fs post) = g # rest"
    using assms by (auto simp: reader_yields_def)
  obtain fr seg' sc0 sc1 pre' post' gs' where nx:
    "reader_next s (Some (seg, sc)) w = (Some (NextEntry (eid (fst g)) fr), Some (seg', sc1), w)"
    "scanner_read sc0 = (Inr (Some fr), sc1)" "awaits C (g # gs') [] sc0" "stream_end sc0 = None"
    "ids_of (st_state s) = pre' @ seg' # post'" "rest = gs' @ concat (map fs post')"
    "\<forall>h \<in> set (g # gs'). fits h"
    by (rule next_from_more [OF img ids sc xs])
  have "fits g" using nx(7) by simp
  obtain fr2 sc2 fr' sc3 where rd: "scanner_read sc0 = (Inr (Some fr2), sc2)"
    "read_to_end [] (fr2, sc2) = (Inr (snd g), fr', sc3)" "remaining fr' = 0" "awaits C gs' [] sc3"
    "stream_end sc3 = None"
    by (rule read_frame_to_end [OF nx(3) \<open>fits g\<close>]) (use nx(4) in auto)
  have same: "fr2 = fr" "sc2 = sc1" using rd(1) nx(2) by simp_all
  have "reader_turn s a = Some (Inr (Some (g, Some (seg', sc3), w)))"
    using nx(1) rd(2,3) by (simp add: a same reader_turn_def reader_drop_def)
  moreover have "reader_yields C fs s (Some (seg', sc3), w) rest"
    using img nx(5-7) rd(4,5) by (auto simp: reader_yields_def)
  ultimately show ?thesis by blast
qed

interpretation reader_items: lending_iterator "reader_turn s" "reader_yields C fs s" for C fs s
  using reader_turn_over reader_turn_more by unfold_locales blast+

lemma drain_reads:
  assumes "crash_image C ms (st_state s) fs [] [] w" and "ids_of (st_state s) = pre @ seg # post"
    and "awaits C gs [] sc" and "stream_end sc = None" and "\<forall>g \<in> set gs. fits g"
    and "length (gs @ concat (map fs post)) < n"
  shows "drain n s (Some (seg, sc)) w = Some (Inr (gs @ concat (map fs post)))"
  unfolding drain_take_all
  by (rule reader_items.exhausts [where C = C and fs = fs])
     (use assms in \<open>simp_all only: reader_yields_def prod.case\<close>, blast)

lemma drain_agree: "drain n s rd w = Some q \<Longrightarrow> drain m s rd w = Some r \<Longrightarrow> q = r"
  unfolding drain_take_all by (rule take_all_agree)

lemma drain_None: "drain (Suc n) s None w = Some (Inr [])"
  by (simp add: reader_next_def)

end
