(* ===== verification/Bad_Segment.thy ===== *)
theory Bad_Segment
  imports Store_Batches
begin

text \<open>
  What \<^verbatim>\<open>src/scan.rs\<close> says of a directory that is as an image, apart from one segment file: the other
  segments give no issue, so the report has the issues of that one.
\<close>

lemma scan_segments_append:
  "scan_segments C st (es @ es') s = (case scan_segments C st es s of
     (rs, s1) \<Rightarrow> (case scan_segments C st es' s1 of (rs', s2) \<Rightarrow> (rs @ rs', s2)))"
  by (induction es arbitrary: s) (auto split: prod.split)

text \<open>The segments that are as in the image.\<close>

lemma scan_good_segments:
  assumes img: "crash_image C ms st fs [] [] w" and w1: "healthy w1"
    and same: "\<And>n. n \<noteq> segment_path t \<Longrightarrow> content w1 n = content w n"
    and es: "set es \<subseteq> set (segments st)" "t \<notin> set (map se_id es)"
  shows "scan_segments C st es (iss, w1)
    = (map (\<lambda>e. image_report C [] (fs (se_id e)) (se_id e)) es, iss, w1)"
proof -
  have all: "\<forall>e \<in> set es. (\<forall>f \<in> set (fs (se_id e)). fits f)
      \<and> content w1 (segment_path (se_id e)) = Some (SEGMENT_MAGIC @ frames_bytes C (fs (se_id e)) @ [])
      \<and> ([] = [] \<or> torn_piece C [])
      \<and> (\<forall>info. seals st (se_id e) = Some info \<longrightarrow> [] = [] \<and>
           unat (final_size info) = MAGIC_LEN + length (frames_bytes C (fs (se_id e))))"
  proof
    fix d assume d: "d \<in> set es"
    then have "se_id d \<in> set (ids_of st)" and "se_id d \<noteq> t" using es by auto
    with image_segment [OF img] img show "(\<forall>f \<in> set (fs (se_id d)). fits f)
      \<and> content w1 (segment_path (se_id d)) = Some (SEGMENT_MAGIC @ frames_bytes C (fs (se_id d)) @ [])
      \<and> ([] = [] \<or> torn_piece C [])
      \<and> (\<forall>info. seals st (se_id d) = Some info \<longrightarrow> [] = [] \<and>
           unat (final_size info) = MAGIC_LEN + length (frames_bytes C (fs (se_id d))))"
      by (simp add: tail_of_def crash_image_def same)
  qed
  from scan_segments_image [where tails = "\<lambda>_. []", OF w1 all] show ?thesis
    by (simp add: torn_issues_def)
qed

lemma bad_segment_scan:
  assumes img: "crash_image C ms st fs [] [] w" and disk: "on_disk w = tracked st" and ord: "order_ok C"
    and t: "t \<in> set (ids_of st)" and w1: "healthy w1" "wf_world w1" "base_dir_exists w1"
    and same: "\<And>n. n \<noteq> segment_path t \<Longrightarrow> content w1 n = content w n"
    and one: "scan_segment C t (map_option (\<lambda>info. unat (final_size info)) (seals st t)) ([], w1) = (r, iss, w1)"
  obtains reports where "scan_store C w1 = (\<lparr>report_state = st,
    manifest_next_offset = MAGIC_LEN + length (ops_bytes C ms), segment_reports = reports,
    report_issues = iss\<rparr>, w1)"
proof -
  note wd = image_world [OF img]
  obtain pre post where ids: "ids_of st = pre @ t # post" using t by (meson split_list)
  obtain P e Q where segs: "segments st = P @ e # Q" and e: "se_id e = t" using map_eq_split [OF ids] by metis
  have "distinct (map se_id (P @ e # Q))" using wd(4) by (simp add: wf_state_def flip: segs)
  then have notin: "t \<notin> set (map se_id P)" "t \<notin> set (map se_id Q)" by (auto simp flip: e)
  have sub: "set P \<subseteq> set (segments st)" "set Q \<subseteq> set (segments st)" by (auto simp: segs)
  obtain reports where rep: "scan_segments C st (segments st) ([], w1) = (reports, iss, w1)"
    unfolding segs scan_segments_append
      scan_good_segments [OF img w1(1) same sub(1) notin(1), simplified]
    using scan_good_segments [OF img w1(1) same sub(2) notin(2)] one by (simp add: e)
  have manifest: "content w1 MANIFEST_FILE_NAME = Some (MANIFEST_MAGIC @ ops_bytes C ms @ [])"
    using wd(6) by (simp add: same)
  have "\<forall>n c. content w1 n = Some c \<longrightarrow> n = MANIFEST_FILE_NAME \<or> n \<in> range segment_path"
    using img same unfolding crash_image_def by (metis rangeI)
  then have listing: "collect_segment_ids w1 = (Inr (sorted_list_of_set (on_disk w1)), w1)"
    by (rule collect_on_disk [OF w1])
  have other: "i \<in> on_disk w1 \<longleftrightarrow> i \<in> tracked st" if "i \<noteq> t" for i
    using that by (simp add: on_disk_def same flip: disk)
  have "t \<notin> dead st" using wd(4) t by (auto simp: wf_state_def)
  then have dead: "dead st \<subseteq> on_disk w1" using other by (metis UnI2 subsetI tracked_def)
  have "on_disk w1 \<subseteq> tracked st"
  proof
    fix i assume "i \<in> on_disk w1"
    then show "i \<in> tracked st" using other t by (cases "i = t") (simp_all add: tracked_def)
  qed
  with dead have files: "find_orphans st (sorted_list_of_set (on_disk w1)) [] = []"
    "find_missing_dead C st (sorted_list_of_set (on_disk w1)) [] = []"
    using ord by (auto simp: find_orphans_def find_missing_dead_def fold_push_issue tracked_def filter_empty_conv)
  have "scan_store C w1 = (\<lparr>report_state = st,
      manifest_next_offset = MAGIC_LEN + length (ops_bytes C ms), segment_reports = reports,
      report_issues = iss\<rparr>, w1)"
    using scan_store_files [OF w1(1,3) manifest wd(7,8,5)] by (simp add: scan_files_def listing files rep)
  then show thesis by (rule that)
qed

text \<open>A sealed segment whose file does not have the size its seal records closes the store for good.\<close>

lemma wrong_size_stuck:
  assumes img: "crash_image C ms st fs [] [] w" and disk: "on_disk w = tracked st" and ord: "order_ok C"
    and t: "t \<in> set (ids_of st)" and seal: "seals st t = Some info"
    and w1: "healthy w1" "wf_world w1" "base_dir_exists w1"
    and same: "\<And>n. n \<noteq> segment_path t \<Longrightarrow> content w1 n = content w n"
    and c: "content w1 (segment_path t) = Some c" "length c \<noteq> unat (final_size info)"
  defines "iss \<equiv> [\<lparr>issue_file = Segment t, the_issue = SealedSegmentSizeMismatch (unat (final_size info)) (length c)\<rparr>]"
  shows "open_store C trigger w1 = (Inl (Err (RecoveryNotPossible iss)), w1)
    \<and> recover C w1 = (Inl (Err NotPossible), w1)"
proof -
  have "size_issue t (Some (unat (final_size info))) w1
      = (Some (SealedSegmentSizeMismatch (unat (final_size info)) (length c)), w1)"
    using w1(1) c by (simp add: size_issue_def segment_size_def metadata_len_def)
  then have one: "scan_segment C t (map_option (\<lambda>info. unat (final_size info)) (seals st t)) ([], w1)
      = (failed_report t, iss, w1)"
    by (simp add: seal scan_segment_def push_issue_def iss_def)
  obtain reports where "scan_store C w1 = (\<lparr>report_state = st,
      manifest_next_offset = MAGIC_LEN + length (ops_bytes C ms), segment_reports = reports,
      report_issues = iss\<rparr>, w1)"
    using bad_segment_scan [OF img disk ord t w1 same one] by blast
  then show ?thesis by (rule stuck_not_possible) (simp_all add: iss_def create_fix_up_def)
qed

end
