(* ===== verification/Store_Rollback.thy ===== *)
theory Store_Rollback
  imports Reader_Laws Bad_Segment Store_Faults
begin

text \<open>
  \<^verbatim>\<open>truncate_end\<close> of \<^verbatim>\<open>src/store.rs\<close>: the segment it rolls back to, where it cuts that segment's file,
  and what the store and its directory hold afterwards.
\<close>

section \<open>The segment rolled back to\<close>

lemma partition_point_append:
  assumes "\<forall>x \<in> set xs. p x" and "\<forall>y \<in> set ys. \<not> p y"
  shows "partition_point p (xs @ ys) = length xs"
proof -
  have "partitioned p (xs @ ys)" and "takeWhile p (xs @ ys) = xs"
    using assms by (induction xs) (cases ys; auto)+
  then show ?thesis by (simp add: partition_point_eq)
qed

lemma rollback_target_found:
  assumes wf: "wf_state st" and eok: "entries_ok fs st" and ids: "ids_of st = pre @ t # post"
    and f: "(EntryId lv, p) \<in> set (fs t)"
  shows "rollback_target st (EntryId lv) = Some (t, post)"
proof -
  obtain P e Q where segs: "segments st = P @ e # Q" and P: "map se_id P = pre" and e: "se_id e = t"
    and Q: "map se_id Q = post"
    using ids by (auto simp: map_eq_append_conv map_eq_Cons_conv)
  let ?p = "\<lambda>e. eid (se_first e) \<le> eid (EntryId lv)"
  have srt: "sorted_wrt (sealed_before (seals st)) (P @ e # Q)" using wf segs by (simp add: wf_state_def)
  have first: "se_first e \<le> EntryId lv" using eok f segs e by (force simp: entries_ok_def)
  have "?p d" if "d \<in> set P" for d
  proof -
    have "sealed_before (seals st) d e" using srt that by (simp add: sorted_wrt_append)
    then have "se_first d < se_first e" by (force simp: sealed_before_def split: option.splits)
    with first have "se_first d \<le> EntryId lv" by simp
    then show ?thesis by (simp add: less_eq_entry_id_def)
  qed
  moreover have "?p e" using first by (simp add: less_eq_entry_id_def)
  ultimately have below: "\<forall>d \<in> set (P @ [e]). ?p d" by auto
  have above: "\<forall>d \<in> set Q. \<not> ?p d"
  proof
    fix d assume "d \<in> set Q"
    then have "sealed_before (seals st) e d" using srt by (simp add: sorted_wrt_append)
    then obtain info where i: "seals st t = Some info" "sealed_last info < se_first d"
      using e by (auto simp: sealed_before_def split: option.splits)
    have "EntryId lv \<le> sealed_last info" using eok i(1) f by (force simp: entries_ok_def)
    with i(2) have "EntryId lv < se_first d" by simp
    then show "\<not> ?p d" by (simp add: less_entry_id_def)
  qed
  have "partition_point ?p (P @ e # Q) = Suc (length P)"
    using partition_point_append [OF below above] by simp
  then show ?thesis using segs e Q by (simp add: rollback_target_def Let_def nth_append)
qed

section \<open>Where the file is cut\<close>

lemma segment_sorted:
  assumes "entries_sorted fs is" and "i \<in> set is"
  shows "sorted_wrt (<) (map fst (fs i))"
  using assms by (induction "is") (auto simp: entries_sorted_Cons)

lemma rollback_offset_read:
  assumes ok: "store_ok C ms fs pend (s, w)" and t: "t \<in> set (ids_of (st_state s))"
    and fr: "fs t = ps @ (EntryId lv, p) # qs"
  shows "rollback_offset t start (EntryId lv) w
    = (Inr (start + length (frames_bytes C (ps @ [(EntryId lv, p)]))), w)"
proof -
  note D = store_okD [OF ok]
  have w: "healthy w" using image_world(1) [OF D(1)] .
  have c: "content w (segment_path t) = Some (SEGMENT_MAGIC @ frames_bytes C (fs t))"
    and fits: "\<forall>f \<in> set (fs t). fits f"
    using image_segment [OF D(1) t] by (simp_all add: tail_of_def)
  let ?f = "\<lparr>path = segment_path t, cursor_at = MAGIC_LEN\<rparr>"
  have opn: "open_segment t w = (Inr (?f, MAGIC_LEN), w)"
    unfolding open_segment_def by (rule open_checked_magic [OF w c]) simp
  define sc where "sc = fst (scanner_new ?f start w)"
  have new: "scanner_new ?f start w = (sc, w)" and aw: "awaits C (ps @ (EntryId lv, p) # qs) [] sc"
    and pos: "next_start sc = start"
    using w c fr by (simp_all add: sc_def scanner_new_def read_stream_def awaits_def next_start_def)
  have "sorted_wrt (<) (map fst (ps @ (EntryId lv, p) # qs))"
    using segment_sorted [OF _ t] D(3) fr by (metis entries_ok_def)
  then have "EntryId lv \<notin> fst ` set ps" by (auto simp: sorted_wrt_append)
  from scan_to_after_awaits [OF aw _ this] fits fr pos
  have "fst (scan_to_after (EntryId lv) sc)
      = Inr (start + length (frames_bytes C (ps @ [(EntryId lv, p)])))" by fastforce
  then show ?thesis by (simp add: rollback_offset_def and_then_def opn new)
qed

lemma cut_segment_run:
  assumes w: "healthy w" and c: "content w (segment_path t) = Some (SEGMENT_MAGIC @ c)"
  shows "cut_segment t off w = (Inr (), store_file (segment_path t)
    (take off (SEGMENT_MAGIC @ c) @ replicate (off - (MAGIC_LEN + length c)) 0) w)"
proof -
  have "open_segment_rw t w = (Inr (\<lparr>path = segment_path t, cursor_at = MAGIC_LEN\<rparr>, MAGIC_LEN), w)"
    unfolding open_segment_rw_def by (rule open_checked_magic [OF w c]) simp
  then show ?thesis using w c by (simp add: cut_segment_def and_then_def set_len_def)
qed

section \<open>The operation\<close>

lemma rollback_state:
  fixes st :: store_state and off :: u64
  assumes wf: "wf_state st" and segs: "segments st = P @ e # Q"
  defines "m \<equiv> bare (TruncateEnd (se_id e) off (map se_id Q))"
  shows "op_valid st (the_op m)" "wf_state (snd (apply_manifest_op m st))"
    "segments (snd (apply_manifest_op m st)) = P @ [e]"
    "\<forall>i. seals (snd (apply_manifest_op m st)) i = (if i \<in> set (map se_id P) then seals st i else None)"
    "active_segment_id (snd (apply_manifest_op m st)) = Some (se_id e)"
    "tracked (snd (apply_manifest_op m st)) = tracked st"
    "head_entry (snd (apply_manifest_op m st)) = head_entry st"
    "metadata (snd (apply_manifest_op m st)) = metadata st"
proof -
  have dis: "distinct (map se_id (P @ e # Q))" and dom: "dom (seals st) = set (butlast (map se_id (P @ e # Q)))"
    using wf unfolding wf_state_def segs by blast+
  have notP: "\<forall>d \<in> set P. se_id d \<noteq> se_id e" and notQ: "se_id e \<notin> set (map se_id Q)"
    and PQ: "set (map se_id P) \<inter> set (map se_id Q) = {}"
    using dis by (auto simp: image_iff)
  have "dropWhile (\<lambda>j. j \<noteq> se_id e) (map se_id P @ se_id e # map se_id Q) = se_id e # map se_id Q"
    using notP by (subst dropWhile_append2) auto
  then show v: "op_valid st (the_op m)" by (simp add: m_def bare_def segs)
  show "wf_state (snd (apply_manifest_op m st))" by (rule wf_apply_manifest_op [OF wf v])
  have fu: "first_unknown st (map se_id Q) = None"
    by (auto simp: first_unknown_find find_None_iff segs)
  have res: "snd (apply_manifest_op m st) = (let t = fold kill_segment (map se_id Q) st in
      t\<lparr>seals := (seals t)(se_id e := None), active_segment_id := Some (se_id e),
        metadata := metadata st\<rparr>)"
    using fu op_valid_no_error [OF v]
    by (simp add: apply_manifest_op_result) (simp add: m_def bare_def truncate_end_def segs Let_def)
  show segs': "segments (snd (apply_manifest_op m st)) = P @ [e]"
    unfolding res using notQ PQ
    by (auto simp: Let_def kill_segments segs filter_empty_conv filter_id_conv)
  show "\<forall>i. seals (snd (apply_manifest_op m st)) i = (if i \<in> set (map se_id P) then seals st i else None)"
  proof
    fix i
    have "seals st i = None" if "i \<notin> set (map se_id (P @ e # Q))"
      using that dom by (metis domIff in_set_butlastD)
    then show "seals (snd (apply_manifest_op m st)) i = (if i \<in> set (map se_id P) then seals st i else None)"
      unfolding res using notP PQ by (auto simp: Let_def kill_segments)
  qed
  show "active_segment_id (snd (apply_manifest_op m st)) = Some (se_id e)"
    unfolding res by (simp add: Let_def)
  show "tracked (snd (apply_manifest_op m st)) = tracked st"
    unfolding tracked_def segs' unfolding res by (auto simp: Let_def kill_segments segs)
  show "head_entry (snd (apply_manifest_op m st)) = head_entry st"
    "metadata (snd (apply_manifest_op m st)) = metadata st"
    unfolding res by (simp_all add: Let_def kill_segments)
qed

text \<open>The entries around the last one that is kept.\<close>

lemma rollback_order:
  assumes eok: "entries_ok fs st" and ids: "ids_of st = pre @ t # post"
    and fr: "fs t = ps @ (EntryId lv, p) # qs" and dis: "distinct (ids_of st)"
  shows "\<forall>g \<in> set (concat (map fs pre) @ ps). fst g < EntryId lv"
    "\<forall>g \<in> set (qs @ concat (map fs post)). EntryId lv < fst g"
    "filter (\<lambda>g. fst g \<le> EntryId lv) (concat (map fs (ids_of st)))
      = concat (map (fs(t := ps @ [(EntryId lv, p)])) (pre @ [t]))"
proof -
  let ?low = "concat (map fs pre) @ ps" and ?high = "qs @ concat (map fs post)"
  have all: "concat (map fs (ids_of st)) = ?low @ (EntryId lv, p) # ?high"
    unfolding ids using fr by simp
  have "sorted_wrt (<) (map fst (?low @ (EntryId lv, p) # ?high))"
    using eok all unfolding entries_ok_def entries_sorted_def by metis
  then have srt: "sorted_wrt (\<lambda>a b. fst a < fst b) (?low @ (EntryId lv, p) # ?high)"
    by (simp only: sorted_wrt_map)
  show low: "\<forall>g \<in> set ?low. fst g < EntryId lv"
    using srt unfolding sorted_wrt_append by auto
  show high: "\<forall>g \<in> set ?high. EntryId lv < fst g"
    using srt unfolding sorted_wrt_append by auto
  have "filter (\<lambda>g. fst g \<le> EntryId lv) ?low = ?low" "filter (\<lambda>g. fst g \<le> EntryId lv) ?high = []"
    using low high by (intro filter_True filter_False; force)+
  then have "filter (\<lambda>g. fst g \<le> EntryId lv) (concat (map fs (ids_of st))) = ?low @ [(EntryId lv, p)]"
    unfolding all filter_append filter.simps by simp
  moreover have "t \<notin> set pre" using dis by (simp add: ids)
  then have "map (fs(t := ps @ [(EntryId lv, p)])) pre = map fs pre" by auto
  then have "concat (map (fs(t := ps @ [(EntryId lv, p)])) (pre @ [t])) = ?low @ [(EntryId lv, p)]"
    by (simp only: map_append concat_append) simp
  ultimately show "filter (\<lambda>g. fst g \<le> EntryId lv) (concat (map fs (ids_of st)))
      = concat (map (fs(t := ps @ [(EntryId lv, p)])) (pre @ [t]))" by (rule trans [OF _ sym])
qed

lemma rollback_index:
  assumes ix: "index_ok C fs st ix" and eok: "entries_ok fs st" and ids: "ids_of st = pre @ t # post"
    and fr: "fs t = ps @ (EntryId lv, p) # qs" and ids': "ids_of st' = pre @ [t]"
    and dis: "distinct (ids_of st)"
  shows "index_ok C (fs(t := ps @ [(EntryId lv, p)])) st' (entry_truncate_end (EntryId lv) ix)"
proof -
  let ?kept = "ps @ [(EntryId lv, p)]"
  note cut = entry_marks_cut_end [of ix "EntryId lv"]
  note order = rollback_order [where fs = fs, OF eok ids fr dis]
  have wf: "wf_entry_index ix" using ix by (simp add: index_ok_def)
  have "segment m \<in> set (pre @ [t]) \<and> mark_ok C (fs(t := ?kept)) m"
    if m: "m \<in> set (entry_marks ix)" "checkpoint m \<le> EntryId lv" for m
  proof -
    have seg: "segment m \<in> set (pre @ t # post)" and "mark_ok C fs m"
      using ix m(1) unfolding index_ok_def ids by blast+
    then obtain k where k: "k < length (fs (segment m))" "checkpoint m = fst (fs (segment m) ! k)"
      "byte_offset m = MAGIC_LEN + length (frames_bytes C (take k (fs (segment m))))"
      unfolding mark_ok_def by blast
    have nth: "fs (segment m) ! k \<in> set (fs (segment m))" using k(1) by simp
    have "segment m \<notin> set post"
    proof
      assume "segment m \<in> set post"
      with nth have "fs (segment m) ! k \<in> set (qs @ concat (map fs post))" by auto
      with order(2) m(2) k(2) show False by fastforce
    qed
    moreover have "mark_ok C (fs(t := ?kept)) m"
    proof (cases "segment m = t")
      case True
      have "k < length ?kept"
      proof (rule ccontr)
        assume "\<not> k < length ?kept"
        then have "fs t ! k \<in> set qs" using k(1) True by (auto simp: fr nth_append)
        with order(2) have "EntryId lv < fst (fs t ! k)" by fastforce
        with m(2) k(2) True show False by simp
      qed
      moreover from this have "?kept ! k = fs t ! k" "take k ?kept = take k (fs t)"
        by (auto simp: fr nth_append less_Suc_eq)
      ultimately show ?thesis using k(2,3) True by (auto simp: mark_ok_def)
    next
      case False
      with k show ?thesis by (auto simp: mark_ok_def)
    qed
    ultimately show ?thesis using seg by auto
  qed
  then show ?thesis unfolding index_ok_def ids' cut(1) [OF wf] using cut(2) [OF wf] by auto
qed

lemma rollback_image:
  fixes off :: u64
  assumes img: "crash_image C ms st fs [] [] w" and segs: "segments st = P @ e # Q"
    and fits: "\<forall>f \<in> set kept. fits f"
  defines "m \<equiv> bare (TruncateEnd (se_id e) off (map se_id Q))"
  assumes wr: "op_writable C m"
  shows "crash_image C (ms @ [m]) (snd (apply_manifest_op m st)) (fs(se_id e := kept)) [] []
    (store_file MANIFEST_FILE_NAME (MANIFEST_MAGIC @ ops_bytes C (ms @ [m]))
      (store_file (segment_path (se_id e)) (SEGMENT_MAGIC @ frames_bytes C kept) w))"
proof -
  note wd = image_world [OF img]
  note st = rollback_state [OF wd(4) segs, of off, folded m_def]
  have run: "run_ops (ms @ [m]) = Some (snd (apply_manifest_op m st))"
    by (rule run_ops_snoc [OF wd(7) op_valid_no_error [OF st(1)]])
  have "distinct (ids_of st)" using wd(4) by (simp add: wf_state_def)
  then have notP: "se_id e \<notin> se_id ` set P" using segs by auto
  have seg: "\<forall>i \<in> set (ids_of st). (\<forall>f \<in> set (fs i). fits f)
      \<and> content w (segment_path i) = Some (SEGMENT_MAGIC @ frames_bytes C (fs i))"
    using image_segment [OF img] by (auto simp: tail_of_def)
  have seals: "unat (final_size info) = MAGIC_LEN + length (frames_bytes C ((fs(se_id e := kept)) i))"
    if "seals (snd (apply_manifest_op m st)) i = Some info" for i info
  proof -
    have "i \<in> set (map se_id P)" and s: "seals st i = Some info"
      using that st(4) by (auto split: if_splits)
    then have "i \<noteq> se_id e" using notP unfolding set_map by blast
    with s img show ?thesis by (simp add: crash_image_def)
  qed
  have tail: "tail_of st' [] i = []" for st' i by (simp add: tail_of_def)
  show ?thesis
    using img run st(2,3) wr fits seg seals notP segs unfolding crash_image_def tail by auto
qed

lemma rollback_entries:
  fixes off :: u64
  assumes eok: "entries_ok fs st" and wf: "wf_state st" and segs: "segments st = P @ e # Q"
    and fr: "fs (se_id e) = ps @ (EntryId lv, p) # qs"
  shows "entries_ok (fs(se_id e := ps @ [(EntryId lv, p)]))
    (snd (apply_manifest_op (bare (TruncateEnd (se_id e) off (map se_id Q))) st))"
proof -
  let ?fs = "fs(se_id e := ps @ [(EntryId lv, p)])"
  let ?st' = "snd (apply_manifest_op (bare (TruncateEnd (se_id e) off (map se_id Q))) st)"
  note st = rollback_state [OF wf segs, of off]
  have dis: "distinct (ids_of st)" using wf by (simp add: wf_state_def)
  have ids: "ids_of st = map se_id P @ se_id e # map se_id Q" by (simp add: segs)
  have ids': "ids_of ?st' = map se_id P @ [se_id e]" using st(3) by simp
  have smaller: "set (?fs i) \<subseteq> set (fs i)" for i by (auto simp: fr)
  show ?thesis
    unfolding entries_ok_def entries_sorted_def
  proof (intro conjI allI impI ballI)
    have "sorted_wrt (\<lambda>a b. fst a < fst b) (filter (\<lambda>g. fst g \<le> EntryId lv) (concat (map fs (ids_of st))))"
      using eok by (simp add: entries_ok_def entries_sorted_def sorted_wrt_map sorted_wrt_filter)
    then show "sorted_wrt (<) (map fst (concat (map ?fs (ids_of ?st'))))"
      unfolding rollback_order(3) [where fs = fs, OF eok ids fr dis] ids' sorted_wrt_map .
    fix i assume "i \<in> set (butlast (ids_of ?st'))"
    then have i: "i \<in> set (map se_id P)" by (simp only: ids' butlast_snoc)
    moreover have "se_id e \<notin> set (map se_id P)" using dis unfolding ids by simp
    ultimately have "i \<noteq> se_id e" by blast
    moreover have "i \<in> set (butlast (ids_of st))" using i by (simp add: ids butlast_append)
    ultimately show "?fs i \<noteq> []" using eok by (simp add: entries_ok_def entries_sorted_def)
  next
    fix d g assume "d \<in> set (segments ?st')" and g: "g \<in> set (?fs (se_id d))"
    then have "d \<in> set (segments st)" using st(3) segs by auto
    then show "se_first d \<le> fst g" using eok g smaller unfolding entries_ok_def by blast
  next
    fix i info g assume "seals ?st' i = Some info" and g: "g \<in> set (?fs i)"
    then have "seals st i = Some info" using st(4) by (simp split: if_splits)
    then show "fst g \<le> sealed_last info" using eok g smaller unfolding entries_ok_def by blast
  qed
qed

lemma rollback_first:
  fixes off :: u64
  assumes wf: "wf_state st" and segs: "segments st = P @ e # Q"
  shows "rolled_back_first (snd (apply_manifest_op (bare (TruncateEnd (se_id e) off (map se_id Q))) st)) (se_id e)
    = se_first e"
proof -
  note st = rollback_state [OF wf segs, of off]
  have notP: "se_id e \<notin> set (map se_id P)" using wf by (simp add: wf_state_def segs)
  then have "seals (snd (apply_manifest_op (bare (TruncateEnd (se_id e) off (map se_id Q))) st)) (se_id e) = None"
    using st(4) by simp
  moreover have "find (\<lambda>d. se_id d = se_id e) P = None" using notP unfolding find_None_iff by (metis image_eqI set_map)
  then have "find (\<lambda>d. se_id d = se_id e) (P @ [e]) = Some e" by (simp add: find_append)
  ultimately show ?thesis using st(3) by (simp add: rolled_back_first_def)
qed

lemma truncate_end_run:
  assumes ok: "store_ok C ms fs pend (s, w)" and l: "last_entry s = Some l" "EntryId lv < l"
    and ids: "ids_of (st_state s) = pre @ t # post" and fr: "fs t = ps @ (EntryId lv, p) # qs"
    and start: "start_offset (st_index s) t (EntryId lv) = MAGIC_LEN"
    and off: "off = of_nat (MAGIC_LEN + length (frames_bytes C (ps @ [(EntryId lv, p)])))"
    and wr: "op_writable C (bare (TruncateEnd t off post))"
  shows "\<exists>s' w'. store_truncate_end C lv (s, w) = (Inr (), s', w')
    \<and> store_ok C (ms @ [bare (TruncateEnd t off post)]) (fs(t := ps @ [(EntryId lv, p)])) [] (s', w')
    \<and> ids_of (st_state s') = pre @ [t] \<and> last_entry s' = Some (EntryId lv)
    \<and> tracked (st_state s') = tracked (st_state s)
    \<and> head_entry (st_state s') = head_entry (st_state s)
    \<and> metadata (st_state s') = metadata (st_state s) \<and> rollover_pending s' = False
    \<and> w' = store_file MANIFEST_FILE_NAME (MANIFEST_MAGIC @ ops_bytes C (ms @ [bare (TruncateEnd t off post)]))
        (store_file (segment_path t) (SEGMENT_MAGIC @ frames_bytes C (ps @ [(EntryId lv, p)])) w)"
proof -
  let ?st = "st_state s" and ?kept = "ps @ [(EntryId lv, p)]" and ?m = "bare (TruncateEnd t off post)"
  let ?fs = "fs(t := ?kept)"
  let ?w1 = "store_file (segment_path t) (SEGMENT_MAGIC @ frames_bytes C ?kept) w"
  note D = store_okD [OF ok]
  note wd = image_world [OF D(1)]
  have dis: "distinct (ids_of ?st)" using wd(4) by (simp add: wf_state_def)
  obtain P e Q where segs: "segments ?st = P @ e # Q" and P: "map se_id P = pre" and e: "se_id e = t"
    and Q: "map se_id Q = post"
    using ids by (auto simp: map_eq_append_conv map_eq_Cons_conv)
  note st = rollback_state [OF wd(4) segs, of off, unfolded e Q]
  have t: "t \<in> set (ids_of ?st)" by (simp add: ids)
  have seg: "content w (segment_path t) = Some (SEGMENT_MAGIC @ frames_bytes C (fs t))"
    "\<forall>f \<in> set (fs t). fits f" using image_segment [OF D(1) t] by (simp_all add: tail_of_def)
  have target: "rollback_target ?st (EntryId lv) = Some (t, post)"
    by (rule rollback_target_found [where p = p, OF wd(4) D(3) ids]) (simp add: fr)
  define n where "n = MAGIC_LEN + length (frames_bytes C ?kept)"
  have off': "of_nat n = off" by (simp only: off n_def)
  have off1: "rollback_offset t MAGIC_LEN (EntryId lv) w = (Inr n, w)"
    unfolding n_def by (rule rollback_offset_read [OF ok t]) (rule fr)
  have "take n (SEGMENT_MAGIC @ frames_bytes C (fs t)) = SEGMENT_MAGIC @ frames_bytes C ?kept"
    by (simp add: fr n_def)
  moreover have "n - (MAGIC_LEN + length (frames_bytes C (fs t))) = 0" by (simp add: fr n_def)
  ultimately have cut: "cut_segment t n w = (Inr (), ?w1)"
    using cut_segment_run [OF wd(1) seg(1), of n] by simp
  have w1: "healthy ?w1" "content ?w1 MANIFEST_FILE_NAME = Some (MANIFEST_MAGIC @ ops_bytes C ms)"
    using wd(1,6) by simp_all
  let ?w' = "store_file MANIFEST_FILE_NAME (MANIFEST_MAGIC @ ops_bytes C (ms @ [?m])) ?w1"
  let ?st' = "snd (apply_manifest_op ?m ?st)"
  define s1 where "s1 = s\<lparr>manifest_cursor := cursor_new (MAGIC_LEN + length (ops_bytes C (ms @ [?m]))),
     st_state := ?st'\<rparr>"
  have com: "commit_op C ?m (s, ?w1) = (Inr (), s1, ?w')"
    using commit_op_runs [OF w1 D(4,5) op_valid_no_error [OF st(1)]]
    by (simp only: committed_def s1_def prod.case)
  define s' where "s' = s1\<lparr>open_files := open_files s |` (- insert t (set post)), active_id := t,
     active_cursor := cursor_new n, last_entry := Some (EntryId lv), rollover_pending := False,
     st_index := entry_truncate_end (EntryId lv) (st_index s),
     active_first_entry := rolled_back_first ?st' t, active_entry_count := 0\<rparr>"
  have more: "\<not> l \<le> EntryId lv" using l(2) by simp
  have same: "st_state s1 = ?st'" "open_files s1 = open_files s" "st_index s1 = st_index s"
    by (simp_all add: s1_def)
  have run: "store_truncate_end C lv (s, w) = (Inr (), s', ?w')"
    using l(1) more target start off1 cut com off' same
    by (simp add: store_truncate_end_def and_then_def on_world_def update_store_def s'_def Let_def)
  have ids': "ids_of ?st' = pre @ [t]" using st(3) P e by simp
  have fits: "\<forall>f \<in> set ?kept. fits f" using seg(2) by (auto simp: fr)
  have img: "crash_image C (ms @ [?m]) ?st' ?fs [] [] ?w'"
    using rollback_image [OF D(1) segs fits, of off, unfolded e Q, OF wr] .
  note order = rollback_order [where fs = fs, OF D(3) ids fr dis]
  have eok: "entries_ok ?fs ?st'"
    using rollback_entries [OF D(3) wd(4) segs fr [folded e], of off] unfolding e Q .
  have ix: "index_ok C ?fs ?st' (st_index s')"
    using rollback_index [OF D(12,3) ids fr ids' dis] by (simp add: s'_def s1_def)
  have "last_ok ?fs ?st' (Some (EntryId lv))"
    unfolding last_ok_def ids' order(3) [symmetric] by simp
  moreover have "on_disk ?w' = tracked ?st'"
  proof -
    have m: "on_disk (store_file MANIFEST_FILE_NAME c w') = on_disk w'" for c w' by (simp add: on_disk_def)
    have "t \<in> on_disk w" using seg(1) by (simp add: on_disk_def)
    then show ?thesis unfolding m st(6) using D(2) by (simp only: on_disk_put image_stored(2))
  qed
  moreover have "rolled_back_first ?st' t = se_first e"
    using rollback_first [OF wd(4) segs, of off] unfolding e Q .
  ultimately have "store_ok C (ms @ [?m]) ?fs [] (s', ?w')"
    using D img eok ix st
    by (simp add: store_ok_def s'_def s1_def restrict_map_def cursor_new_def n_def last_frame_id_def)
  then show ?thesis using run ids' st(6-8)
    by (intro exI [of _ s'] exI [of _ ?w']) (simp add: s'_def s1_def)
qed

text \<open>An entry that is not there is not found: a rollback that succeeds has an entry to roll back to.\<close>

lemma rollback_offset_missing:
  assumes ok: "store_ok C ms fs pend (s, w)" and t: "t \<in> set (ids_of (st_state s))"
    and none: "EntryId lv \<notin> fst ` set (fs t)"
  shows "rollback_offset t start (EntryId lv) w = (Inl (Err InvalidData), w)"
proof -
  obtain sc where opn: "open_segment t w = (Inr (\<lparr>path = segment_path t, cursor_at = MAGIC_LEN\<rparr>, MAGIC_LEN), w)"
    and new: "scanner_new \<lparr>path = segment_path t, cursor_at = MAGIC_LEN\<rparr> start w = (sc, w)"
    and aw: "awaits C (fs t) [] sc" "stream_end sc = None" "\<forall>g \<in> set (fs t). fits g"
    by (rule image_scanner [OF store_okD(1) [OF ok] t])
  obtain off sc' where "scan_to_after (EntryId lv) sc = (Inl (Truncated off), sc')"
    using scan_to_after_missing [OF aw(1,3,2) none] by blast
  then show ?thesis by (simp add: rollback_offset_def and_then_def opn new)
qed

lemma truncate_end_finds:
  assumes ok: "store_ok C ms fs pend (s, w)" and l: "last_entry s = Some l" "EntryId lv < l"
    and run: "store_truncate_end C lv (s, w) = (Inr (), s', w')"
  obtains pre t post ps p qs where "ids_of (st_state s) = pre @ t # post"
    and "fs t = ps @ (EntryId lv, p) # qs" and "rollback_target (st_state s) (EntryId lv) = Some (t, post)"
proof -
  let ?st = "st_state s" and ?p = "\<lambda>e. eid (se_first e) \<le> eid (EntryId lv)"
  note D = store_okD [OF ok]
  note wd = image_world [OF D(1)]
  define k where "k = partition_point ?p (segments ?st) - 1"
  have "k < length (segments ?st)"
    using wd(5) partition_point_le [of ?p "segments ?st"] by (cases "segments ?st") (auto simp: k_def)
  moreover obtain d where target: "rollback_target ?st (EntryId lv) = Some (se_id (segments ?st ! k), d)"
    using wd(5) by (auto simp: rollback_target_def Let_def k_def)
  ultimately have t: "se_id (segments ?st ! k) \<in> set (ids_of ?st)" by simp
  have more: "\<not> l \<le> EntryId lv" using l(2) by simp
  have "EntryId lv \<in> fst ` set (fs (se_id (segments ?st ! k)))"
  proof (rule ccontr)
    assume "EntryId lv \<notin> fst ` set (fs (se_id (segments ?st ! k)))"
    from rollback_offset_missing [OF ok t this] show False
      using run l(1) more target by (simp add: store_truncate_end_def and_then_def on_world_def)
  qed
  then obtain p where p: "(EntryId lv, p) \<in> set (fs (se_id (segments ?st ! k)))" by force
  then obtain ps qs where fr: "fs (se_id (segments ?st ! k)) = ps @ (EntryId lv, p) # qs"
    by (meson split_list)
  obtain pre post where ids: "ids_of ?st = pre @ se_id (segments ?st ! k) # post"
    using t by (meson split_list)
  show thesis by (rule that [OF ids fr rollback_target_found [OF wd(4) D(3) ids p]])
qed

text \<open>C14: \<^verbatim>\<open>truncate_end\<close> to an entry of the log that no index checkpoint behind the first of its segment
  precedes (of a reopened segment, one of the first 64) keeps exactly the entries up to it: the store's
  last entry is the one named, and opening again finds the same state and exactly the entries that are not
  behind it, whatever segments were dropped and whether the segment was sealed. Behind such a checkpoint the
  file is cut at a wrong offset, which a theorem below shows.\<close>

theorem truncate_end_reopens:
  assumes ok: "store_ok C ms fs pend (s, w)" and l: "last_entry s = Some l" "EntryId lv < l"
    and ids: "ids_of (st_state s) = pre @ t # post" and fr: "fs t = ps @ (EntryId lv, p) # qs"
    and start: "start_offset (st_index s) t (EntryId lv) = MAGIC_LEN"
    and off: "off = of_nat (MAGIC_LEN + length (frames_bytes C (ps @ [(EntryId lv, p)])))"
    and wr: "op_writable C (bare (TruncateEnd t off post))"
    and ord: "order_ok C" and rec: "recovery_writable C"
  shows "\<exists>s' w' ms' fs' s2 w2. store_truncate_end C lv (s, w) = (Inr (), s', w')
    \<and> store_ok C ms' fs' [] (s', w') \<and> last_entry s' = Some (EntryId lv)
    \<and> open_store C trigger w' = (Inr s2, w2) \<and> store_ok C ms' fs' [] (s2, w2)
    \<and> st_state s2 = st_state s' \<and> last_entry s2 = last_entry s'
    \<and> ids_of (st_state s2) = pre @ [t] \<and> tracked (st_state s2) = tracked (st_state s)
    \<and> concat (map fs' (ids_of (st_state s2)))
      = filter (\<lambda>g. fst g \<le> EntryId lv) (concat (map fs (ids_of (st_state s))))"
proof -
  let ?kept = "ps @ [(EntryId lv, p)]"
  note D = store_okD [OF ok]
  obtain s' w' where r: "store_truncate_end C lv (s, w) = (Inr (), s', w')"
    "store_ok C (ms @ [bare (TruncateEnd t off post)]) (fs(t := ?kept)) [] (s', w')"
    "ids_of (st_state s') = pre @ [t]" "last_entry s' = Some (EntryId lv)"
    "tracked (st_state s') = tracked (st_state s)"
    using truncate_end_run [OF ok l ids fr start off wr] by blast
  note D' = store_okD [OF r(2)]
  obtain s2 w2 where o: "open_store C trigger w' = (Inr s2, w2)"
    "store_ok C (ms @ [bare (TruncateEnd t off post)]) (fs(t := ?kept)) [] (s2, w2)"
    "st_state s2 = st_state s'"
    "last_entry s2 = (case last_frame_id ((fs(t := ?kept)) (active_id s2)) of
        Some l \<Rightarrow> Some l | None \<Rightarrow> sealed_last_entry (st_state s'))"
    using reopens [OF D'(1-3) ord rec next_after_tracked [OF r(2)], of trigger] by blast
  have "active_id s2 = t" using store_ok_active(1) [OF o(2)] by (simp add: o(3) r(3))
  then have last: "last_entry s2 = last_entry s'" using o(4) r(4) by (simp add: last_frame_id_def)
  have "distinct (ids_of (st_state s))" using image_world(4) [OF D(1)] by (simp add: wf_state_def)
  from rollback_order(3) [where fs = fs, OF D(3) ids fr this]
  have "concat (map (fs(t := ?kept)) (ids_of (st_state s2)))
      = filter (\<lambda>g. fst g \<le> EntryId lv) (concat (map fs (ids_of (st_state s))))"
    unfolding o(3) r(3) ..
  moreover have "ids_of (st_state s2) = pre @ [t]" "tracked (st_state s2) = tracked (st_state s)"
    using r(3,5) by (simp_all only: o(3))
  ultimately show ?thesis using r(1,2,4) o(1-3) last by blast
qed

text \<open>Three entries in two segments, and a rollback to the first: the second segment is dropped and the
  first, sealed one, is written to again.\<close>

theorem truncate_end_reopens_witness:
  "\<exists>s w s' w' s2 w2. store_truncate_end sample 0 (s, w) = (Inr (), s', w')
    \<and> ids_of (st_state s) = [SegmentId 1, SegmentId 2] \<and> last_entry s = Some (EntryId 2)
    \<and> open_store sample 1000 w' = (Inr s2, w2) \<and> ids_of (st_state s2) = [SegmentId 1]
    \<and> last_entry s2 = Some (EntryId 0)"
proof -
  obtain s w m fs where s: "store_ok sample [first_op, m] fs [] (s, w)"
    "segments (st_state s) = [\<lparr>se_id = SegmentId 1, se_first = EntryId 0\<rparr>,
      \<lparr>se_id = SegmentId 2, se_first = EntryId 1\<rparr>]"
    "fs (SegmentId 1) = first_batch" "last_entry s = Some (EntryId 2)" "entry_marks (st_index s) = []"
    by (rule rolled_store)
  have ids: "ids_of (st_state s) = [] @ SegmentId 1 # [SegmentId 2]" by (simp add: s(2))
  have fr: "fs (SegmentId 1) = [] @ (EntryId 0, [7]) # []" by (simp add: s(3) first_batch_def)
  have "index_ok sample fs (st_state s) (st_index s)" by (rule store_okD(12) [OF s(1)])
  then have "wf_entry_index (st_index s)" by (simp add: index_ok_def)
  from entry_find_floor [OF this] have start: "start_offset (st_index s) (SegmentId 1) (EntryId 0) = MAGIC_LEN"
    by (simp add: start_offset_def floor_of_def s(5))
  let ?off = "of_nat (MAGIC_LEN + length (frames_bytes sample ([] @ [(EntryId 0, [7])])))"
  have wr: "op_writable sample (bare (TruncateEnd (SegmentId 1) ?off [SegmentId 2]))"
    by (rule sample_writable) (simp add: bare_def encode_sample_simps)
  have less: "EntryId 0 < EntryId 2" by (simp add: less_entry_id_def)
  obtain s' w' s2 w2 where r: "store_truncate_end sample 0 (s, w) = (Inr (), s', w')"
    "last_entry s' = Some (EntryId 0)" "open_store sample 1000 w' = (Inr s2, w2)"
    "last_entry s2 = last_entry s'" "ids_of (st_state s2) = [] @ [SegmentId 1]"
    using truncate_end_reopens [OF s(1,4) less ids fr start refl wr sample_order sample_recovery_writable,
        of 1000] by blast
  have "ids_of (st_state s) = [SegmentId 1, SegmentId 2]" "ids_of (st_state s2) = [SegmentId 1]"
    "last_entry s2 = Some (EntryId 0)" using ids r by simp_all
  then show ?thesis using r(1,3) s(4) by metis
qed

section \<open>A rollback that is interrupted\<close>

lemma rollback_before_last:
  assumes ok: "store_ok C ms fs pend (s, w)" and ids: "ids_of (st_state s) = pre @ t # post"
    and fr: "fs t = ps @ (i, p) # q # qs"
  obtains m where "last_entry s = Some m" and "\<not> m \<le> i"
proof -
  note D = store_okD [OF ok]
  have all: "concat (map fs (ids_of (st_state s))) = concat (map fs pre) @ (ps @ (i, p) # q # qs) @ concat (map fs post)"
    unfolding ids by (simp add: fr)
  then have "q \<in> set (concat (map fs (ids_of (st_state s))))" by (simp only:) simp
  then obtain m where m: "last_entry s = Some m" "fst q \<le> m" using D(13) unfolding last_ok_def by blast
  have "sorted_wrt (<) (map fst (concat (map fs (ids_of (st_state s)))))"
    using D(3) by (simp add: entries_ok_def entries_sorted_def)
  then have "i < fst q" unfolding all by (simp add: sorted_wrt_append)
  with m(2) have "\<not> m \<le> i" by simp
  with m(1) show thesis by (rule that)
qed

text \<open>A device that works for the seven calls of reading and cutting, and fails when the manifest is written.\<close>

lemma later_open:
  assumes "content w n = Some (magic @ c)" and "length magic = MAGIC_LEN"
  shows "open_checked n magic (w\<lparr>faults := None # None # fl\<rparr>)
    = (Inr (\<lparr>path = n, cursor_at = MAGIC_LEN\<rparr>, MAGIC_LEN), w\<lparr>faults := fl\<rparr>)"
  using assms
  by (simp add: open_checked_def and_then_def fs_open_def call_def next_outcome_def spend_def check_magic_def
      map_err_def read_exact_def read_stream_def MAGIC_LEN_8)

lemma later_rollback_offset:
  assumes w: "healthy w" and c: "content w (segment_path t) = Some (SEGMENT_MAGIC @ c)"
    and read: "rollback_offset t start i w = (Inr n, w1)"
  shows "rollback_offset t start i (w\<lparr>faults := None # None # None # fl\<rparr>) = (Inr n, w\<lparr>faults := fl\<rparr>)"
proof -
  let ?f = "\<lparr>path = segment_path t, cursor_at = MAGIC_LEN\<rparr>"
  have "open_segment t w = (Inr (?f, MAGIC_LEN), w)"
    unfolding open_segment_def by (rule open_checked_magic [OF w c]) simp
  moreover have "open_segment t (w\<lparr>faults := None # None # None # fl\<rparr>) = (Inr (?f, MAGIC_LEN), w\<lparr>faults := None # fl\<rparr>)"
    unfolding open_segment_def by (rule later_open [OF c]) simp
  moreover have "scanner_new ?f start (w\<lparr>faults := None # fl\<rparr>) = (fst (scanner_new ?f start w), w\<lparr>faults := fl\<rparr>)"
    using w by (simp add: scanner_new_def read_stream_def next_outcome_def spend_def healthy_def Let_def)
  ultimately show ?thesis using read
    by (auto simp: rollback_offset_def and_then_def split: prod.splits sum.splits)
qed

lemma later_cut_segment:
  assumes w: "healthy w" and c: "content w (segment_path t) = Some (SEGMENT_MAGIC @ c)"
  shows "cut_segment t n (w\<lparr>faults := None # None # None # None # fl\<rparr>)
    = (Inr (), (store_file (segment_path t)
        (take n (SEGMENT_MAGIC @ c) @ replicate (n - (MAGIC_LEN + length c)) 0) w)\<lparr>faults := fl\<rparr>)"
proof -
  have "open_segment_rw t (w\<lparr>faults := None # None # None # None # fl\<rparr>)
      = (Inr (\<lparr>path = segment_path t, cursor_at = MAGIC_LEN\<rparr>, MAGIC_LEN), w\<lparr>faults := None # None # fl\<rparr>)"
    unfolding open_segment_rw_def by (rule later_open [OF c]) simp
  then show ?thesis using w c
    by (simp add: cut_segment_def and_then_def set_len_def sync_all_def call_def next_outcome_def spend_def
        store_file_def give_up_def put_content_def save_file_def)
qed

text \<open>C33: \<^verbatim>\<open>truncate_end\<close> cuts the segment file before it records the cut. If the process ends in between, or the
  device fails there once, and the segment is a sealed one, its seal still has the old size: the scan
  reports \<open>SealedSegmentSizeMismatch\<close>, for which there is no fix, and neither opening nor an approved
  recovery gets the store back, although every entry up to the one named is still there: the cut is at the
  right offset, with at least one entry behind it.\<close>

theorem interrupted_rollback_stays_closed:
  assumes ok: "store_ok C ms fs pend (s, w)" and ord: "order_ok C"
    and ids: "ids_of (st_state s) = pre @ t # j # post" and fr: "fs t = ps @ (EntryId lv, p) # q # qs"
    and start: "start_offset (st_index s) t (EntryId lv) = MAGIC_LEN"
    and old: "old = MAGIC_LEN + length (frames_bytes C (fs t))"
    and new: "new = MAGIC_LEN + length (frames_bytes C (ps @ [(EntryId lv, p)]))"
  shows "rollback_target (st_state s) (EntryId lv) = Some (t, j # post)
    \<and> (\<exists>w1. and_then (rollback_offset t (start_offset (st_index s) t (EntryId lv)) (EntryId lv))
        (cut_segment t) w = (Inr (), w1)
      \<and> open_store C trigger w1 = (Inl (Err (RecoveryNotPossible
          [\<lparr>issue_file = Segment t, the_issue = SealedSegmentSizeMismatch old new\<rparr>])), w1)
      \<and> recover C w1 = (Inl (Err NotPossible), w1))
    \<and> (\<exists>s2 w2. store_truncate_end C lv (s, w\<lparr>faults := replicate 7 None @ [Some 0]\<rparr>) = (Inl (Err DeviceFault), s2, w2)
      \<and> open_store C trigger w2 = (Inl (Err (RecoveryNotPossible
          [\<lparr>issue_file = Segment t, the_issue = SealedSegmentSizeMismatch old new\<rparr>])), w2)
      \<and> recover C w2 = (Inl (Err NotPossible), w2))"
proof -
  let ?st = "st_state s" and ?kept = "ps @ [(EntryId lv, p)]"
  define w1 where "w1 = store_file (segment_path t) (SEGMENT_MAGIC @ frames_bytes C ?kept) w"
  have c1: "content w1 n = (if n = segment_path t then Some (SEGMENT_MAGIC @ frames_bytes C ?kept)
      else content w n)" for n by (simp add: w1_def)
  let ?iss = "[\<lparr>issue_file = Segment t, the_issue = SealedSegmentSizeMismatch old new\<rparr>]"
  note D = store_okD [OF ok]
  note wd = image_world [OF D(1)]
  have t: "t \<in> set (ids_of ?st)" by (simp add: ids)
  have seg: "content w (segment_path t) = Some (SEGMENT_MAGIC @ frames_bytes C (fs t))"
    using image_segment [OF D(1) t] by (simp add: tail_of_def)
  have target: "rollback_target ?st (EntryId lv) = Some (t, j # post)"
    by (rule rollback_target_found [where p = p, OF wd(4) D(3) ids]) (simp add: fr)
  have "take new (SEGMENT_MAGIC @ frames_bytes C (fs t)) = SEGMENT_MAGIC @ frames_bytes C ?kept"
    and "new - (MAGIC_LEN + length (frames_bytes C (fs t))) = 0" by (simp_all add: fr new)
  then have cut: "and_then (rollback_offset t (start_offset (st_index s) t (EntryId lv)) (EntryId lv))
      (cut_segment t) w = (Inr (), w1)"
    using rollback_offset_read [where p = p, OF ok t fr, of MAGIC_LEN, folded new] cut_segment_run [OF wd(1) seg, of new]
    by (simp add: and_then_def start w1_def)
  obtain info where info: "seals ?st t = Some info"
  proof -
    have "t \<in> set (butlast (ids_of ?st))" by (simp add: ids butlast_append)
    then have "t \<in> dom (seals ?st)" using wd(4) by (simp add: wf_state_def)
    then show thesis using that by blast
  qed
  then have size: "unat (final_size info) = old" using D(1) old by (simp add: crash_image_def)
  have "length (SEGMENT_MAGIC @ frames_bytes C ?kept) = new" by (simp add: new)
  moreover have "new \<noteq> old" unfolding old new fr by simp
  ultimately have stuck: "open_store C trigger w2 = (Inl (Err (RecoveryNotPossible ?iss)), w2)
    \<and> recover C w2 = (Inl (Err NotPossible), w2)"
    if "healthy w2" "wf_world w2" "base_dir_exists w2" "\<And>n. content w2 n = content w1 n" for w2
    using wrong_size_stuck [OF D(1,2) ord t info that(1-3)] that(4) c1 size by simp
  have w1: "healthy w1" "wf_world w1" "base_dir_exists w1" using wd(1-3) by (simp_all add: w1_def)
  have mc: "content w1 MANIFEST_FILE_NAME = Some (MANIFEST_MAGIC @ ops_bytes C ms)" using wd(6) c1 by simp
  obtain m where m: "last_entry s = Some m" "\<not> m \<le> EntryId lv"
    by (rule rollback_before_last [OF ok ids fr])
  obtain n where n: "rollback_offset t MAGIC_LEN (EntryId lv) w = (Inr n, w)" "cut_segment t n w = (Inr (), w1)"
    using cut rollback_offset_read [where p = p, OF ok t fr, of MAGIC_LEN] by (auto simp: and_then_def start)
  obtain s2 where com: "commit_op C (bare (TruncateEnd t (of_nat n) (j # post))) (s, w1\<lparr>faults := [Some 0]\<rparr>)
      = (Inl (Err DeviceFault), s2, put_content MANIFEST_FILE_NAME (MANIFEST_MAGIC @ ops_bytes C ms) w1)"
    using commit_op_stopped [OF w1(1) mc D(4,5), of _ 0] by fastforce
  have seven: "replicate 7 None @ [Some 0] = None # None # None # None # None # None # None # [Some (0 :: nat)]"
    by (simp add: eval_nat_numeral)
  have "cut_segment t n (w\<lparr>faults := None # None # None # None # [Some 0]\<rparr>) = (Inr (), w1\<lparr>faults := [Some 0]\<rparr>)"
    unfolding later_cut_segment [OF wd(1) seg] using n(2) cut_segment_run [OF wd(1) seg, of n] by simp
  then have "store_truncate_end C lv (s, w\<lparr>faults := replicate 7 None @ [Some 0]\<rparr>)
      = (Inl (Err DeviceFault), s2, put_content MANIFEST_FILE_NAME (MANIFEST_MAGIC @ ops_bytes C ms) w1)"
    using later_rollback_offset [OF wd(1) seg n(1)] m target com
    unfolding seven by (simp add: store_truncate_end_def and_then_def on_world_def start)
  moreover have "open_store C trigger w2 = (Inl (Err (RecoveryNotPossible ?iss)), w2) \<and> recover C w2 = (Inl (Err NotPossible), w2)"
    if "w2 = put_content MANIFEST_FILE_NAME (MANIFEST_MAGIC @ ops_bytes C ms) w1" for w2
    unfolding that by (rule stuck) (use w1 mc in simp_all)
  ultimately show ?thesis using target cut stuck [OF w1] by blast
qed

text \<open>A store whose sealed segment has three entries.\<close>

lemma long_store:
  obtains s w ms fs where "store_ok sample ms fs [] (s, w)"
    and "ids_of (st_state s) = [SegmentId 1, SegmentId 2]"
    and "fs (SegmentId 1) = first_batch @ next_batch" and "entry_marks (st_index s) = []"
proof -
  obtain s w f where s: "store_ok sample [first_op] batch_frames next_batch (s, w)"
    "st_state s = fresh_state" "active_id s = SegmentId 1" "next_seg_id s = SegmentId 2"
    "rollover_pending s = (40 < (29 :: nat))" "entry_marks (st_index s) = []" "rollover_trigger s = 40"
    by (rule sample_store [where trigger = 40])
  let ?fs = "batch_frames(SegmentId 1 := first_batch @ next_batch)"
  have b: "batch_frames (SegmentId 1) = first_batch" by (simp add: batch_frames_def)
  have nr: "rollover_pending s = False" using s(5) by simp
  have cont: "continues batch_frames (st_state s) next_batch" using continues_next s(2) by simp
  have len: "40 < MAGIC_LEN + length (frames_bytes sample (first_batch @ next_batch))"
    by (simp add: first_batch_def next_batch_def frame_len_def HEADER_LEN_def MAGIC_LEN_def)
  obtain s1 w1 where s1: "store_ok sample [first_op] ?fs [] (s1, w1)" "st_state s1 = fresh_state"
    "active_id s1 = SegmentId 1" "next_seg_id s1 = SegmentId 2" "rollover_pending s1" "st_index s1 = st_index s"
    "last_entry s1 = Some (EntryId 2)"
    using write_batch_run [OF s(1) nr cont] s(2-4,7) len
    by (auto simp: b last_frame_id_def next_batch_def)
  define s2 where "s2 = snd (push sample 3 [1] (batch_of [], s1))"
  have s2: "store_ok sample [first_op] ?fs [(EntryId 3, [1])] (s2, w1)" "st_state s2 = fresh_state"
    "active_id s2 = SegmentId 1" "next_seg_id s2 = SegmentId 2" "rollover_pending s2" "st_index s2 = st_index s"
    using push_ok [OF s1(1), of 3 "[1]"] s1 by (simp_all add: s2_def)
  have ne: "?fs (active_id s2) \<noteq> []" by (simp add: s2(3) first_batch_def)
  have cont2: "continues ?fs (st_state s2) [(EntryId 3, [1])]"
    by (simp add: s2(2) continues_def first_batch_def next_batch_def fresh_state_def fits_def
        less_eq_entry_id_def less_entry_id_def)
  have nxt: "next_segment_id (next_seg_id s2) \<noteq> None" by (simp add: s2(4) next_segment_id_def)
  have wr: "op_writable sample (bare (rollover_op s2 (fst (hd [(EntryId 3, [1])]))))"
    by (rule sample_writable) (simp add: bare_def rollover_op_def encode_sample_simps)
  have size: "MAGIC_LEN + length (frames_bytes sample (?fs (active_id s2))) < 2 ^ 64"
    by (simp add: s2(3) first_batch_def next_batch_def frame_len_def HEADER_LEN_def MAGIC_LEN_def)
  obtain m s3 w3 where s3: "store_ok sample ([first_op] @ [m]) (?fs(next_seg_id s2 := [(EntryId 3, [1])])) [] (s3, w3)"
    "segments (st_state s3) = segments (st_state s2)
      @ [\<lparr>se_id = next_seg_id s2, se_first = fst (hd [(EntryId 3, [1 :: u8])])\<rparr>]" "st_index s3 = st_index s2"
    using write_batch_rolls [OF s2(1,5) ne cont2 nxt wr size] by blast
  show thesis
    by (rule that [OF s3(1)]) (simp_all add: s3(2,3) s2 s(6) fresh_state_def)
qed

theorem interrupted_rollback_stays_closed_witness:
  "\<exists>(s :: store) w s1 w1. ids_of (st_state s) = [SegmentId 1, SegmentId 2]
    \<and> rollback_target (st_state s) (EntryId 1) = Some (SegmentId 1, [SegmentId 2])
    \<and> store_truncate_end sample 1 (s, w\<lparr>faults := replicate 7 None @ [Some 0]\<rparr>) = (Inl (Err DeviceFault), s1, w1)
    \<and> recover sample w1 = (Inl (Err NotPossible), w1)"
proof -
  obtain s w ms fs where s: "store_ok sample ms fs [] (s, w)"
    "ids_of (st_state s) = [SegmentId 1, SegmentId 2]"
    "fs (SegmentId 1) = first_batch @ next_batch" "entry_marks (st_index s) = []"
    by (rule long_store)
  have ids: "ids_of (st_state s) = [] @ SegmentId 1 # SegmentId 2 # []" using s(2) by simp
  have fr: "fs (SegmentId 1) = first_batch @ (EntryId 1, [8]) # (EntryId 2, [9, 9]) # []"
    by (simp add: s(3) next_batch_def)
  have "wf_entry_index (st_index s)" using store_okD(12) [OF s(1)] by (simp add: index_ok_def)
  from entry_find_floor [OF this] have start: "start_offset (st_index s) (SegmentId 1) (EntryId 1) = MAGIC_LEN"
    by (simp add: start_offset_def floor_of_def s(4))
  note r = interrupted_rollback_stays_closed [OF s(1) sample_order ids fr start refl refl, of 1000]
  obtain s1 w1 where "store_truncate_end sample 1 (s, w\<lparr>faults := replicate 7 None @ [Some 0]\<rparr>)
      = (Inl (Err DeviceFault), s1, w1)" "recover sample w1 = (Inl (Err NotPossible), w1)"
    using conjunct2 [OF conjunct2 [OF r]] by blast
  then show ?thesis using conjunct1 [OF r] s(2)
    by (intro exI [of _ s] exI [of _ w] exI [of _ s1] exI [of _ w1] conjI)
qed

section \<open>A rollback behind a checkpoint\<close>

lemma cut_behind:
  "length a = k \<Longrightarrow> take (MAGIC_LEN + late + k) (SEGMENT_MAGIC @ a @ b)
      @ replicate (MAGIC_LEN + late + k - (MAGIC_LEN + length (a @ b))) (0 :: u8)
    = SEGMENT_MAGIC @ a @ take late b @ replicate (late - length b) 0"
  by simp

text \<open>Once the file has been cut at any offset, the rest of \<^verbatim>\<open>truncate_end\<close> records it and succeeds.\<close>

lemma truncate_end_records:
  assumes ok: "store_ok C ms fs pend (s, w)" and l: "last_entry s = Some l" "EntryId lv < l"
    and target: "rollback_target (st_state s) (EntryId lv) = Some (t, post)"
    and ids: "ids_of (st_state s) = pre @ t # post"
    and cut: "and_then (rollback_offset t (start_offset (st_index s) t (EntryId lv)) (EntryId lv))
      (cut_segment t) w = (Inr (), store_file (segment_path t) c w)"
  shows "\<exists>s' off. store_truncate_end C lv (s, w) = (Inr (), s', store_file MANIFEST_FILE_NAME
      (MANIFEST_MAGIC @ ops_bytes C (ms @ [bare (TruncateEnd t off post)])) (store_file (segment_path t) c w))
    \<and> last_entry s' = Some (EntryId lv)"
proof -
  let ?w1 = "store_file (segment_path t) c w"
  note D = store_okD [OF ok]
  note wd = image_world [OF D(1)]
  obtain n w0 where read: "rollback_offset t (start_offset (st_index s) t (EntryId lv)) (EntryId lv) w = (Inr n, w0)"
    and len: "cut_segment t n w0 = (Inr (), ?w1)" using cut by (auto simp: and_then_eq_Inr)
  obtain P e Q where segs: "segments (st_state s) = P @ e # Q" and e: "se_id e = t" "map se_id Q = post"
    using ids by (auto simp: map_eq_append_conv map_eq_Cons_conv)
  let ?m = "bare (TruncateEnd t (of_nat n) post)"
  have w1: "healthy ?w1" "content ?w1 MANIFEST_FILE_NAME = Some (MANIFEST_MAGIC @ ops_bytes C ms)"
    using wd(1,6) by simp_all
  note com = commit_op_runs [OF w1 D(4,5)
      op_valid_no_error [OF rollback_state(1) [OF wd(4) segs, of "of_nat n", unfolded e]]]
  have more: "\<not> l \<le> EntryId lv" using l(2) by simp
  have "\<exists>s'. store_truncate_end C lv (s, w) = (Inr (), s', store_file MANIFEST_FILE_NAME
      (MANIFEST_MAGIC @ ops_bytes C (ms @ [?m])) ?w1) \<and> last_entry s' = Some (EntryId lv)"
    using l(1) more target read len com
    by (simp add: store_truncate_end_def and_then_def on_world_def update_store_def committed_def Let_def)
  then show ?thesis by blast
qed

text \<open>C28: When the entry has an index checkpoint before it in its segment that is not the segment's first,
  \<^verbatim>\<open>truncate_end\<close> cuts the file in the wrong place: by as many bytes too late as the checkpoint is
  behind the first frame, since the scanner counts from the checkpoint but reads from the first frame.
  Bytes of later entries stay, or all of them, and a file that would be too short is filled with
  zeros. The call succeeds, and the store takes the entry named for its last one.\<close>

theorem late_rollback_cut:
  assumes ok: "store_ok C ms fs pend (s, w)" and ids: "ids_of (st_state s) = pre @ t # post"
    and fr: "fs t = ps @ (EntryId lv, p) # qs"
    and start: "start_offset (st_index s) t (EntryId lv) = MAGIC_LEN + late"
  defines "cut_late \<equiv> SEGMENT_MAGIC @ frames_bytes C (ps @ [(EntryId lv, p)])
    @ take late (frames_bytes C qs) @ replicate (late - length (frames_bytes C qs)) 0"
  shows "rollback_target (st_state s) (EntryId lv) = Some (t, post)
    \<and> (\<exists>w1. and_then (rollback_offset t (start_offset (st_index s) t (EntryId lv)) (EntryId lv))
        (cut_segment t) w = (Inr (), w1) \<and> content w1 (segment_path t) = Some cut_late)
    \<and> (\<forall>l. last_entry s = Some l \<and> EntryId lv < l \<longrightarrow>
        (\<exists>s' w'. store_truncate_end C lv (s, w) = (Inr (), s', w') \<and> last_entry s' = Some (EntryId lv)
          \<and> content w' (segment_path t) = Some cut_late))"
proof -
  let ?kept = "ps @ [(EntryId lv, p)]"
  note D = store_okD [OF ok]
  note wd = image_world [OF D(1)]
  have t: "t \<in> set (ids_of (st_state s))" by (simp add: ids)
  have seg: "content w (segment_path t) = Some (SEGMENT_MAGIC @ frames_bytes C (fs t))"
    using image_segment [OF D(1) t] by (simp add: tail_of_def)
  have target: "rollback_target (st_state s) (EntryId lv) = Some (t, post)"
    by (rule rollback_target_found [where p = p, OF wd(4) D(3) ids]) (simp add: fr)
  let ?n = "MAGIC_LEN + late + length (frames_bytes C ?kept)"
  let ?c = "take ?n (SEGMENT_MAGIC @ frames_bytes C (fs t))
    @ replicate (?n - (MAGIC_LEN + length (frames_bytes C (fs t)))) 0"
  have cut: "and_then (rollback_offset t (start_offset (st_index s) t (EntryId lv)) (EntryId lv)) (cut_segment t) w
      = (Inr (), store_file (segment_path t) ?c w)"
    using rollback_offset_read [where p = p, OF ok t fr, of "MAGIC_LEN + late"] cut_segment_run [OF wd(1) seg, of ?n]
    by (simp add: and_then_def start)
  have "frames_bytes C (fs t) = frames_bytes C ?kept @ frames_bytes C qs" by (simp add: fr)
  then have c: "?c = cut_late" by (simp only: cut_behind cut_late_def)
  note cut = cut [unfolded c]
  have "content (store_file (segment_path t) cut_late w) (segment_path t) = Some cut_late" by simp
  moreover have "\<exists>s' w'. store_truncate_end C lv (s, w) = (Inr (), s', w') \<and> last_entry s' = Some (EntryId lv)
      \<and> content w' (segment_path t) = Some cut_late" if "last_entry s = Some l \<and> EntryId lv < l" for l
    using truncate_end_records [OF ok _ _ target ids cut, of l] that by fastforce
  ultimately show ?thesis using target cut by blast
qed

text \<open>A store of 66 entries, opened again: the index has a checkpoint at entry 64.\<close>

definition many :: "nat \<Rightarrow> frame list" where
  "many n = map (\<lambda>i. (EntryId (of_nat i), [])) [0..<n]"

lemma many_Suc: "many (Suc n) = many n @ [(EntryId (of_nat n), [])]"
  by (simp add: many_def)

lemma pushed_store:
  assumes "store_ok C ms fs [] (s, w)" and "rollover_pending s = False"
  obtains s' where "store_ok C ms fs (many n) (s', w)" and "st_state s' = st_state s"
    and "rollover_pending s' = False" and "active_id s' = active_id s"
proof -
  have "\<exists>s'. store_ok C ms fs (many n) (s', w) \<and> st_state s' = st_state s
    \<and> rollover_pending s' = False \<and> active_id s' = active_id s"
  proof (induction n)
    case 0
    then show ?case using assms by (auto simp: many_def)
  next
    case (Suc n)
    then obtain s1 where s1: "store_ok C ms fs (many n) (s1, w)" "st_state s1 = st_state s"
      "rollover_pending s1 = False" "active_id s1 = active_id s" by blast
    then show ?case using push_ok [OF s1(1), of "of_nat n" "[]"] by (auto simp: many_Suc)
  qed
  then show thesis using that by blast
qed

lemma many_sorted: "n \<le> 2 ^ 64 \<Longrightarrow> sorted_wrt (<) (map fst (many n))"
  by (auto simp: many_def sorted_wrt_map sorted_wrt_iff_nth_less less_entry_id_def word_less_nat_alt
      unat_of_nat)

lemma many_store:
  obtains s w ms where "store_ok sample ms ((\<lambda>_. [])(SegmentId 1 := many 66)) [] (s, w)"
    and "ids_of (st_state s) = [SegmentId 1]"
    and "entry_marks (st_index s) = positions (SegmentId 1, segment_marks (many 66))"
proof -
  obtain s0 w0 where s0: "store_ok sample [first_op] (\<lambda>_. []) [] (s0, w0)" "st_state s0 = fresh_state"
    "active_id s0 = SegmentId 1" "rollover_pending s0 = False"
    using fresh_opens [OF empty_world_dir sample_first_writable sample_order sample_recovery_writable] by blast
  obtain s1 where s1: "store_ok sample [first_op] (\<lambda>_. []) (many 66) (s1, w0)" "st_state s1 = fresh_state"
    "rollover_pending s1 = False" "active_id s1 = SegmentId 1"
    using pushed_store [OF s0(1,4), of 66] s0(2,3) by metis
  have ne: "many 66 \<noteq> []" by (simp add: many_def)
  have "continues (\<lambda>_. []) (st_state s1) (many 66)"
    using many_sorted [of 66] ne
    by (simp add: continues_def s1(2) fresh_state_def) (auto simp: many_def fits_def less_eq_entry_id_def)
  from write_batch_run [OF s1(1,3) this]
  obtain s2 w2 where s2: "store_ok sample [first_op] ((\<lambda>_. [])(SegmentId 1 := many 66)) [] (s2, w2)"
    "st_state s2 = fresh_state" using s1(2,4) by auto
  note D = store_okD [OF s2(1)]
  obtain s w where s: "store_ok sample [first_op] ((\<lambda>_. [])(SegmentId 1 := many 66)) [] (s, w)"
    "st_state s = fresh_state" "index_full ((\<lambda>_. [])(SegmentId 1 := many 66)) fresh_state (st_index s)"
    using reopens [OF D(1-3) sample_order sample_recovery_writable next_after_tracked [OF s2(1)]] s2(2)
    by metis
  show thesis
    by (rule that [OF s(1)]) (use s(2,3) in \<open>simp_all add: fresh_state_def index_full_def\<close>)
qed

lemma many_marks: "marks 64 0 8 (many 66) = [(EntryId 0, 8), (EntryId 64, 1288)]"
  by (simp add: many_def upt_rec [of 0] upt_rec [of "Suc 0"] frame_len_def HEADER_LEN_def
      flip: numeral_2_eq_2)

text \<open>Rolling back to entry 64 keeps entry 65 and adds zeros behind it.\<close>

theorem late_rollback_cut_witness:
  "\<exists>(s :: store) w s1 w1. ids_of (st_state s) = [SegmentId 1]
    \<and> rollback_target (st_state s) (EntryId 64) = Some (SegmentId 1, [])
    \<and> store_truncate_end sample 64 (s, w) = (Inr (), s1, w1) \<and> last_entry s1 = Some (EntryId 64)
    \<and> content w1 (segment_path (SegmentId 1))
      = Some (SEGMENT_MAGIC @ frames_bytes sample (many 66) @ replicate 1260 0)"
proof -
  obtain s w ms where s: "store_ok sample ms ((\<lambda>_. [])(SegmentId 1 := many 66)) [] (s, w)"
    "ids_of (st_state s) = [SegmentId 1]"
    "entry_marks (st_index s) = positions (SegmentId 1, segment_marks (many 66))" by (rule many_store)
  have ids: "ids_of (st_state s) = [] @ SegmentId 1 # []" using s(2) by simp
  have m: "many 66 = many 64 @ [(EntryId 64, []), (EntryId 65, [])]"
  proof -
    have "66 = Suc (Suc (64 :: nat))" by simp
    then have "many 66 = many (Suc (Suc 64))" by (rule arg_cong)
    then show ?thesis unfolding many_Suc by simp
  qed
  have fr: "((\<lambda>_. [])(SegmentId 1 := many 66)) (SegmentId 1) = many 64 @ (EntryId 64, []) # [(EntryId 65, [])]"
    by (simp add: m)
  have wfi: "wf_entry_index (st_index s)" using store_okD(12) [OF s(1)] by (simp add: index_ok_def)
  have ms: "positions (SegmentId 1, segment_marks (many 66))
      = [\<lparr>segment = SegmentId 1, checkpoint = EntryId 0, byte_offset = 8\<rparr>,
         \<lparr>segment = SegmentId 1, checkpoint = EntryId 64, byte_offset = 1288\<rparr>]"
    by (simp add: positions_def segment_marks_def segment_index_new_def INDEX_STRIDE_def MAGIC_LEN_def
        many_marks)
  have low: "EntryId 0 \<le> EntryId 64" by (simp add: less_eq_entry_id_def)
  note fl = entry_find_floor [OF wfi, of "EntryId 64"]
  have start: "start_offset (st_index s) (SegmentId 1) (EntryId 64) = MAGIC_LEN + 1280"
    unfolding start_offset_def fl floor_of_def s(3) ms by (simp add: Let_def low MAGIC_LEN_def)
  note r = late_rollback_cut [OF s(1) ids fr start]
  have len: "length (frames_bytes sample [(EntryId 65, [])]) = 20"
    by (simp add: frame_len_def HEADER_LEN_def)
  have all: "frames_bytes sample (many 66) = frames_bytes sample (many 64 @ [(EntryId 64, [])])
      @ frames_bytes sample [(EntryId 65, [])]" by (simp add: m)
  have "last_frame_id (many 66) = Some (EntryId 65)" unfolding m by (simp add: last_frame_id_def)
  moreover have "active_id s = SegmentId 1" "many 66 \<noteq> []"
    using store_ok_active(2) [OF s(1)] s(2) by (simp_all add: m)
  ultimately have "last_entry s = Some (EntryId 65)" using store_okD(11) [OF s(1)] by simp
  then obtain s1 w1 where w1: "store_truncate_end sample 64 (s, w) = (Inr (), s1, w1)"
      "last_entry s1 = Some (EntryId 64)" "content w1 (segment_path (SegmentId 1))
      = Some (SEGMENT_MAGIC @ frames_bytes sample (many 64 @ [(EntryId 64, [])])
          @ take 1280 (frames_bytes sample [(EntryId 65, [])])
          @ replicate (1280 - length (frames_bytes sample [(EntryId 65, [])])) 0)"
    using conjunct2 [OF conjunct2 [OF r]] by (force simp: less_entry_id_def)
  have "content w1 (segment_path (SegmentId 1))
      = Some (SEGMENT_MAGIC @ frames_bytes sample (many 66) @ replicate 1260 0)"
    unfolding w1(3) all len using len by simp
  with w1(1,2) show ?thesis using conjunct1 [OF r] s(2)
    by (intro exI [of _ s] exI [of _ w] exI [of _ s1] exI [of _ w1] conjI)
qed

end
