(* ===== verification/Store_Truncate.thy ===== *)
theory Store_Truncate
  imports Store_Reopen
begin

text \<open>
  \<^verbatim>\<open>truncate_start\<close> and \<^verbatim>\<open>delete_dead_segments\<close> of \<^verbatim>\<open>src/store.rs\<close>: the entries they keep, the
  segments they give up, and what opening the store again finds.
\<close>

section \<open>Truncation at the start\<close>

lemma to_evict_sealed:
  "set (to_evict st first) = {i \<in> set (ids_of st). \<exists>info. seals st i = Some info \<and> sealed_last info < first}"
  by (force simp: to_evict_def split: option.splits)

lemma entries_sorted_filter:
  assumes "entries_sorted fs is" and "is \<noteq> []" and "P (last is)"
  shows "entries_sorted fs (filter P is)"
proof -
  obtain js i where spl: "is = js @ [i]" using assms(2) by (cases "is" rule: rev_cases) auto
  have sub: "sorted_wrt (<) (map fst (concat (map fs xs))) \<Longrightarrow>
      sorted_wrt (<) (map fst (concat (map fs (filter P xs))))" for xs
    by (induction xs) (auto simp: sorted_wrt_append)
  show ?thesis
    using assms(1,3) sub [of "is"] by (auto simp: entries_sorted_def spl)
qed

lemma not_evicted:
  assumes "entries_ok fs st" and "f \<in> set (fs i)" and "first \<le> fst f"
  shows "i \<notin> set (to_evict st first)"
proof
  assume "i \<in> set (to_evict st first)"
  then obtain info where "seals st i = Some info" "sealed_last info < first"
    unfolding to_evict_sealed by blast
  moreover have "fst f \<le> sealed_last info" using assms(1,2) calculation(1) by (simp add: entries_ok_def)
  ultimately show False using assms(3) by simp
qed

lemma index_cut_start:
  assumes ix: "index_ok C fs st ix" and eok: "entries_ok fs st"
    and ids: "ids_of st' = filter (\<lambda>i. i \<notin> set (to_evict st first)) (ids_of st)"
  shows "index_ok C fs st' (entry_truncate_start first ix)"
  unfolding index_ok_def
proof (intro conjI ballI)
  have wix: "wf_entry_index ix" using ix by (simp add: index_ok_def)
  show "wf_entry_index (entry_truncate_start first ix)" by (rule entry_marks_cut_start(2) [OF wix])
  fix m assume "m \<in> set (entry_marks (entry_truncate_start first ix))"
  then have m: "m \<in> set (entry_marks ix)" "first \<le> checkpoint m"
    by (simp_all add: entry_marks_cut_start(1) [OF wix])
  then have i: "segment m \<in> set (ids_of st)" and mo: "mark_ok C fs m"
    using ix unfolding index_ok_def by blast+
  then obtain k where "k < length (fs (segment m))" "checkpoint m = fst (fs (segment m) ! k)"
    unfolding mark_ok_def by blast
  then have "segment m \<notin> set (to_evict st first)" using m(2) by (intro not_evicted [OF eok nth_mem]) simp_all
  then show "segment m \<in> set (ids_of st')" unfolding ids using i by simp
  show "mark_ok C fs m" by (rule mo)
qed

lemma truncate_start_run:
  fixes kvs :: "(u8 \<times> bytes) list"
  assumes ok: "store_ok C ms fs pend (s, w)" and le: "head_entry (st_state s) \<le> EntryId first"
  defines "m \<equiv> with_meta (TruncateStart (EntryId first) (to_evict (st_state s) (EntryId first))) kvs"
  assumes wr: "op_writable C m"
  shows "\<exists>s' w'. store_truncate_start C first kvs (s, w) = (Inr (), s', w')
    \<and> store_ok C (ms @ [m]) fs pend (s', w')
    \<and> st_state s' = snd (apply_manifest_op m (st_state s))
    \<and> segments (st_state s') = filter (\<lambda>e. se_id e \<notin> set (to_evict (st_state s) (EntryId first)))
        (segments (st_state s))
    \<and> head_entry (st_state s') = EntryId first
    \<and> dead (st_state s') = set (to_evict (st_state s) (EntryId first)) \<union> dead (st_state s)
    \<and> metadata (st_state s') = fold set_pair kvs (metadata (st_state s))
    \<and> active_id s' = active_id s \<and> rollover_pending s' = rollover_pending s"
proof -
  let ?st = "st_state s" and ?ev = "to_evict (st_state s) (EntryId first)"
  note D = store_okD [OF ok]
  note wd = image_world [OF D(1)]
  define st' where "st' = snd (apply_manifest_op m ?st)"
  have v: "op_valid ?st (the_op m)" using le by (auto simp: m_def with_meta_def to_evict_sealed)
  have st': "segments st' = filter (\<lambda>e. se_id e \<notin> set ?ev) (segments ?st)"
    "seals st' = (\<lambda>j. if j \<in> set ?ev then None else seals ?st j)"
    "dead st' = set ?ev \<union> dead ?st" "head_entry st' = EntryId first"
    "active_segment_id st' = active_segment_id ?st"
    "metadata st' = fold set_pair kvs (metadata ?st)"
    using le leD [OF le]
    by (simp_all add: st'_def m_def apply_manifest_op_result with_meta_def truncate_start_def
        kill_segments)
  have act: "last (ids_of ?st) \<notin> set ?ev"
    using wf_state_single [OF wd(4,5)] by (auto simp: to_evict_sealed)
  obtain es e where es: "segments ?st = es @ [e]" using wd(5) by (cases "segments ?st" rule: rev_cases) auto
  have last: "segments st' = filter (\<lambda>e. se_id e \<notin> set ?ev) es @ [e]" using act es by (simp add: st')
  have ids: "ids_of st' = filter (\<lambda>i. i \<notin> set ?ev) (ids_of ?st)"
    by (simp add: st' filter_map o_def)
  have sub: "set (ids_of st') \<subseteq> set (ids_of ?st)" by (auto simp: st')
  have img: "crash_image C (ms @ [m]) st' fs [] []
    (store_file MANIFEST_FILE_NAME (MANIFEST_MAGIC @ ops_bytes C (ms @ [m])) w)"
  proof (rule committed_image [OF D(1) wr v st'_def])
    show "segments st' \<noteq> []" by (simp add: last)
    show "\<forall>i \<in> set (ids_of st'). (\<forall>f \<in> set (fs i). fits f) \<and> content w (segment_path i)
        = Some (SEGMENT_MAGIC @ frames_bytes C (fs i) @ tail_of st' [] i)"
    proof
      fix i assume "i \<in> set (ids_of st')"
      with sub have "i \<in> set (ids_of ?st)" by blast
      from image_segment [OF D(1) this] show "(\<forall>f \<in> set (fs i). fits f) \<and> content w (segment_path i)
        = Some (SEGMENT_MAGIC @ frames_bytes C (fs i) @ tail_of st' [] i)" by (simp add: tail_of_def)
    qed
    show "\<forall>i info. seals st' i = Some info \<longrightarrow>
      unat (final_size info) = MAGIC_LEN + length (frames_bytes C (fs i))"
      using D(1) by (simp add: st' crash_image_def)
  qed
  have "entries_sorted fs (ids_of st')"
    unfolding ids using D(3) wd(5) act by (intro entries_sorted_filter) (auto simp: entries_ok_def)
  then have eok: "entries_ok fs st'" using D(3) by (auto simp: entries_ok_def st')
  have tr: "tracked st' = tracked ?st" by (auto simp: tracked_def st' to_evict_sealed)
  define s' where "s' = (fst (committed C ms m (s, w)))
    \<lparr>open_files := open_files s |` (- set ?ev), st_index := entry_truncate_start (EntryId first) (st_index s)\<rparr>"
  define w' where "w' = store_file MANIFEST_FILE_NAME (MANIFEST_MAGIC @ ops_bytes C (ms @ [m])) w"
  have "commit_op C m (s, w) = (Inr (), committed C ms m (s, w))"
    by (rule commit_op_run [OF D(1,4,5) op_valid_no_error [OF v]])
  then have run: "store_truncate_start C first kvs (s, w) = (Inr (), s', w')"
    using le leD [OF le] by (simp add: store_truncate_start_def Let_def and_then_def update_store_def
        committed_def s'_def w'_def flip: m_def)
  have "index_ok C fs st' (entry_truncate_start (EntryId first) (st_index s))"
    by (rule index_cut_start [OF D(12,3) ids])
  moreover have "last_ok fs st' (last_entry s)" using D(13) by (simp add: last_ok_def st'(1)) blast
  ultimately have "store_ok C (ms @ [m]) fs pend (s', w')"
    using D img eok tr last es
    by (simp add: store_ok_def s'_def committed_def w'_def st'_def [symmetric] st'(5) on_disk_def
        restrict_map_def)
  moreover have "st_state s' = st'" "active_id s' = active_id s" "rollover_pending s' = rollover_pending s"
    by (simp_all add: s'_def committed_def st'_def)
  ultimately show ?thesis using run st' unfolding st'_def by auto
qed

text \<open>C13: Truncating at the start loses nothing it should keep: the head moves to the given entry, every
  segment with an entry at or after it stays with all its frames, the evicted segments become dead, and
  opening again finds the same.\<close>

theorem truncate_start_reopens:
  fixes kvs :: "(u8 \<times> bytes) list"
  assumes ok: "store_ok C ms fs pend (s, w)" and le: "head_entry (st_state s) \<le> EntryId first"
    and ord: "order_ok C" and rec: "recovery_writable C"
    and m: "m = with_meta (TruncateStart (EntryId first) (to_evict (st_state s) (EntryId first))) kvs"
    and wr: "op_writable C m"
  shows "\<exists>s' w' s2 w2. store_truncate_start C first kvs (s, w) = (Inr (), s', w')
    \<and> store_ok C (ms @ [m]) fs pend (s', w') \<and> first_entry_id s' = first
    \<and> set (ids_of (st_state s')) \<union> dead (st_state s') = tracked (st_state s)
    \<and> (\<forall>i \<in> set (ids_of (st_state s)). (\<exists>f \<in> set (fs i). EntryId first \<le> fst f)
          \<longrightarrow> i \<in> set (ids_of (st_state s')))
    \<and> open_store C trigger w' = (Inr s2, w2) \<and> store_ok C (ms @ [m]) fs [] (s2, w2)
    \<and> st_state s2 = st_state s'"
proof -
  let ?ev = "to_evict (st_state s) (EntryId first)"
  obtain s' w' where r: "store_truncate_start C first kvs (s, w) = (Inr (), s', w')"
    "store_ok C (ms @ [m]) fs pend (s', w')"
    "segments (st_state s') = filter (\<lambda>e. se_id e \<notin> set ?ev) (segments (st_state s))"
    "head_entry (st_state s') = EntryId first" "dead (st_state s') = set ?ev \<union> dead (st_state s)"
    using truncate_start_run [OF ok le wr [unfolded m]] unfolding m by blast
  note D = store_okD [OF r(2)]
  have keep: "i \<notin> set ?ev" if "f \<in> set (fs i)" "EntryId first \<le> fst f" for f i
    by (rule not_evicted [OF store_okD(3) [OF ok] that])
  have ids: "set (ids_of (st_state s')) = set (ids_of (st_state s)) - set ?ev" by (auto simp: r(3))
  have "set ?ev \<subseteq> set (ids_of (st_state s))" unfolding to_evict_sealed by blast
  then have tr: "set (ids_of (st_state s')) \<union> dead (st_state s') = tracked (st_state s)"
    unfolding ids r(5) tracked_def by blast
  obtain s2 w2 where o: "open_store C trigger w' = (Inr s2, w2)" "store_ok C (ms @ [m]) fs [] (s2, w2)"
    "st_state s2 = st_state s'"
    using reopens [OF D(1-3) ord rec next_after_tracked [OF r(2)], of trigger] by blast
  have "first_entry_id s' = first" by (simp add: first_entry_id_def r(4))
  moreover have "\<forall>i \<in> set (ids_of (st_state s)). (\<exists>f \<in> set (fs i). EntryId first \<le> fst f)
      \<longrightarrow> i \<in> set (ids_of (st_state s'))"
    using keep unfolding ids by blast
  ultimately show ?thesis using r(1,2) tr o by (intro exI conjI)
qed

lemma rolled_facts:
  assumes ok: "store_ok sample ms fs [] (s, w)"
    and segs: "segments (st_state s) = [\<lparr>se_id = SegmentId 1, se_first = EntryId 0\<rparr>,
      \<lparr>se_id = SegmentId 2, se_first = EntryId 1\<rparr>]"
  shows "to_evict (st_state s) (EntryId 1) = [SegmentId 1]"
proof -
  have wf: "wf_state (st_state s)" using image_world(4) [OF store_okD(1) [OF ok]] .
  have "sealed_before (seals (st_state s)) \<lparr>se_id = SegmentId 1, se_first = EntryId 0\<rparr>
      \<lparr>se_id = SegmentId 2, se_first = EntryId 1\<rparr>"
    using wf segs by (simp add: wf_state_def)
  then obtain info where "seals (st_state s) (SegmentId 1) = Some info" "sealed_last info < EntryId 1"
    by (auto simp: sealed_before_def split: option.splits)
  moreover have "seals (st_state s) (SegmentId 2) = None"
    using wf_state_single [OF wf] segs by auto
  ultimately show ?thesis by (simp add: to_evict_def segs)
qed

theorem truncate_start_reopens_witness:
  "\<exists>s w s' w' s2 w2. store_truncate_start sample 1 [] (s, w) = (Inr (), s', w')
    \<and> set (ids_of (st_state s)) = {SegmentId 1, SegmentId 2}
    \<and> open_store sample 1000 w' = (Inr s2, w2) \<and> SegmentId 2 \<in> set (ids_of (st_state s2))
    \<and> first_entry_id s2 = 1"
proof -
  obtain s w m fs where s: "store_ok sample [first_op, m] fs [] (s, w)"
    "segments (st_state s) = [\<lparr>se_id = SegmentId 1, se_first = EntryId 0\<rparr>,
      \<lparr>se_id = SegmentId 2, se_first = EntryId 1\<rparr>]"
    "fs (SegmentId 2) = next_batch" "head_entry (st_state s) = EntryId 0" by (rule rolled_store)
  let ?m = "with_meta (TruncateStart (EntryId 1) (to_evict (st_state s) (EntryId 1))) []"
  have le: "head_entry (st_state s) \<le> EntryId 1" by (simp add: s(4) less_eq_entry_id_def)
  have wr: "op_writable sample ?m"
    unfolding rolled_facts [OF s(1,2)]
    by (rule sample_writable) (simp add: with_meta_def encode_sample_simps)
  obtain s' w' s2 w2 where r: "store_truncate_start sample 1 [] (s, w) = (Inr (), s', w')"
    "\<forall>i \<in> set (ids_of (st_state s)). (\<exists>f \<in> set (fs i). EntryId 1 \<le> fst f)
      \<longrightarrow> i \<in> set (ids_of (st_state s'))"
    "open_store sample 1000 w' = (Inr s2, w2)" "st_state s2 = st_state s'" "first_entry_id s' = 1"
    using truncate_start_reopens [OF s(1) le sample_order sample_recovery_writable refl wr, of 1000]
    by blast
  have ids: "set (ids_of (st_state s)) = {SegmentId 1, SegmentId 2}" by (simp add: s(2))
  have "\<exists>f \<in> set (fs (SegmentId 2)). EntryId 1 \<le> fst f" by (simp add: s(3) next_batch_def)
  moreover have "SegmentId 2 \<in> set (ids_of (st_state s))" unfolding ids by simp
  ultimately have "SegmentId 2 \<in> set (ids_of (st_state s2))" unfolding r(4) using r(2) by blast
  moreover have "first_entry_id s2 = 1" using r(4,5) by (simp add: first_entry_id_def)
  ultimately show ?thesis using r(1,3) ids by metis
qed

section \<open>Deleting dead segments\<close>

lemma delete_segment_run:
  assumes "healthy w"
  obtains w1 where "delete_segment i w = (Inr (), w1)" and "healthy w1"
    and "base_dir_exists w1 = base_dir_exists w" and "wf_world w \<Longrightarrow> wf_world w1"
    and "\<And>n. content w1 n = (if n = segment_path i then None else content w n)"
proof (cases "content w (segment_path i)")
  case None
  then have "delete_segment i w = (Inr (), w)"
    using assms by (simp add: delete_segment_def remove_file_def)
  with assms None show thesis by (intro that [of w]) simp_all
next
  case (Some c)
  let ?w = "w\<lparr>entries := AList.delete (segment_path i) (entries w)\<rparr>"
  have "delete_segment i w = (Inr (), ?w)"
    using assms Some by (simp add: delete_segment_def remove_file_def)
  moreover have "wf_world ?w" if "wf_world w"
    using that wf_world_dir [OF that Some] by (simp add: wf_world_def distinct_delete)
  ultimately show thesis
    using assms by (intro that [of ?w]) (simp_all add: healthy_def delete_conv')
qed

lemma delete_step:
  assumes ok: "store_ok C ms fs pend (s, w)" and i: "i \<in> dead (st_state s)"
    and wr: "op_writable C (bare (SegmentDeleted i))"
  shows "\<exists>s' w'. and_then (on_world (delete_segment i)) (\<lambda>_. commit_op C (bare (SegmentDeleted i))) (s, w)
      = (Inr (), s', w')
    \<and> store_ok C (ms @ [bare (SegmentDeleted i)]) fs pend (s', w')
    \<and> st_state s' = with_dead (dead (st_state s) - {i}) (st_state s)
    \<and> rollover_pending s' = rollover_pending s"
proof -
  let ?st = "st_state s" and ?m = "bare (SegmentDeleted i)"
  note D = store_okD [OF ok]
  note wd = image_world [OF D(1)]
  obtain w1 where w1: "delete_segment i w = (Inr (), w1)" "healthy w1" "base_dir_exists w1" "wf_world w1"
    "\<And>n. content w1 n = (if n = segment_path i then None else content w n)"
    using delete_segment_run [OF wd(1), of i] wd(2,3) by metis
  have nin: "i \<notin> set (ids_of ?st)" using wd(4) i unfolding wf_state_def by blast
  have img: "crash_image C ms ?st fs [] [] w1"
    using D(1) w1(2-5) nin unfolding crash_image_def by (auto split: if_splits)
  have v: "op_valid ?st (the_op ?m)" using i by (simp add: bare_def)
  have st: "snd (apply_manifest_op ?m ?st) = with_dead (dead ?st - {i}) ?st"
    using i by (simp add: apply_manifest_op_result bare_def segment_deleted_def)
  have img': "crash_image C (ms @ [?m]) (with_dead (dead ?st - {i}) ?st) fs [] []
    (store_file MANIFEST_FILE_NAME (MANIFEST_MAGIC @ ops_bytes C (ms @ [?m])) w1)"
    by (rule committed_image [OF img wr v st [symmetric]])
       (use img in \<open>auto simp: crash_image_def tail_of_def\<close>)
  have disk: "on_disk w1 = tracked (with_dead (dead ?st - {i}) ?st)"
    using D(2) nin i w1(5) by (auto simp: on_disk_def tracked_def split: if_splits)
  have c: "commit_op C ?m (s, w1) = (Inr (), committed C ms ?m (s, w1))"
    by (rule commit_op_run [OF img D(4,5) op_valid_no_error [OF v]])
  have "\<forall>j \<in> tracked (with_dead (dead ?st - {i}) ?st). j < next_seg_id s"
    using D(10) by (auto simp: tracked_def)
  moreover have "entries_ok fs (with_dead (dead ?st - {i}) ?st)" using D(3) by (simp add: entries_ok_def)
  moreover have "on_disk (store_file MANIFEST_FILE_NAME c w1) = on_disk w1" for c
    by (simp add: on_disk_def)
  ultimately have "store_ok C (ms @ [?m]) fs pend (committed C ms ?m (s, w1))"
    using D img' disk by (simp add: store_ok_def committed_def st index_ok_def last_ok_def)
  with c w1(1) show ?thesis
    by (simp add: and_then_def on_world_def committed_def st)
qed

lemma delete_all:
  assumes "store_ok C ms fs pend (s, w)" and "set is \<subseteq> dead (st_state s)" and "distinct is"
    and "recovery_writable C"
  shows "\<exists>s' w'. for_each (\<lambda>i. and_then (on_world (delete_segment i))
        (\<lambda>_. commit_op C (bare (SegmentDeleted i)))) is (s, w) = (Inr (), s', w')
    \<and> store_ok C (ms @ map (\<lambda>i. bare (SegmentDeleted i)) is) fs pend (s', w')
    \<and> st_state s' = with_dead (dead (st_state s) - set is) (st_state s)
    \<and> rollover_pending s' = rollover_pending s"
  using assms
proof (induction "is" arbitrary: ms s w)
  case Nil
  then show ?case by (simp add: ok_def)
next
  case (Cons i js)
  have wr: "op_writable C (bare (SegmentDeleted i))" using Cons.prems(4) by (simp add: recovery_writable_def)
  have i: "i \<in> dead (st_state s)" using Cons.prems(2) by simp
  obtain s1 w1 where s1: "and_then (on_world (delete_segment i))
      (\<lambda>_. commit_op C (bare (SegmentDeleted i))) (s, w) = (Inr (), s1, w1)"
    "store_ok C (ms @ [bare (SegmentDeleted i)]) fs pend (s1, w1)"
    "st_state s1 = with_dead (dead (st_state s) - {i}) (st_state s)"
    "rollover_pending s1 = rollover_pending s"
    using delete_step [OF Cons.prems(1) i wr] by blast
  have "set js \<subseteq> dead (st_state s1)" "distinct js" using Cons.prems(2,3) by (auto simp: s1(3))
  from Cons.IH [OF s1(2) this Cons.prems(4)]
  obtain s' w' where s': "for_each (\<lambda>i. and_then (on_world (delete_segment i))
        (\<lambda>_. commit_op C (bare (SegmentDeleted i)))) js (s1, w1) = (Inr (), s', w')"
    "store_ok C ((ms @ [bare (SegmentDeleted i)]) @ map (\<lambda>i. bare (SegmentDeleted i)) js) fs pend (s', w')"
    "st_state s' = with_dead (dead (st_state s1) - set js) (st_state s1)"
    "rollover_pending s' = rollover_pending s1" by blast
  have "dead (st_state s) - {i} - set js = dead (st_state s) - set (i # js)" by auto
  then have "st_state s' = with_dead (dead (st_state s) - set (i # js)) (st_state s)"
    using s'(3) s1(3) by simp
  then show ?case using s1(1,4) s'(1,2,4) by (intro exI [of _ s'] exI [of _ w']) (simp add: and_then_def [of _ "\<lambda>_. for_each _ _"])
qed

lemma delete_dead_run:
  assumes ok: "store_ok C ms fs pend (s, w)" and ord: "order_ok C" and rec: "recovery_writable C"
  shows "\<exists>s' w' ms'. delete_dead_segments C (s, w) = (Inr (card (dead (st_state s))), s', w')
    \<and> store_ok C ms' fs pend (s', w') \<and> st_state s' = with_dead {} (st_state s)
    \<and> rollover_pending s' = rollover_pending s"
proof -
  let ?is = "hash_order C (dead (st_state s))"
  have dis: "set ?is = dead (st_state s)" "distinct ?is"
    using ord by simp_all
  obtain s' w' where r: "for_each (\<lambda>i. and_then (on_world (delete_segment i))
        (\<lambda>_. commit_op C (bare (SegmentDeleted i)))) ?is (s, w) = (Inr (), s', w')"
    "store_ok C (ms @ map (\<lambda>i. bare (SegmentDeleted i)) ?is) fs pend (s', w')"
    "st_state s' = with_dead (dead (st_state s) - set ?is) (st_state s)"
    "rollover_pending s' = rollover_pending s"
    using delete_all [OF ok _ dis(2) rec] dis(1) by blast
  have st: "st_state s' = with_dead {} (st_state s)" using r(3) dis(1) by simp
  have "length ?is = card (dead (st_state s))" using distinct_card [OF dis(2)] dis(1) by simp
  then have "delete_dead_segments C (s, w) = (Inr (card (dead (st_state s))), s', w')"
    by (simp add: delete_dead_segments_def Let_def and_then_def [of "for_each _ _"] r(1) ok_def)
  then show ?thesis using r(2,4) st by blast
qed

text \<open>C15: Deleting dead segments removes exactly their files and forgets them: afterwards the directory
  holds the live segments only, no live segment or entry is touched, the result counts the dead
  segments, and opening again finds the same.\<close>

theorem delete_dead_reopens:
  assumes ok: "store_ok C ms fs pend (s, w)" and ord: "order_ok C" and rec: "recovery_writable C"
  shows "\<exists>s' w' ms' s2 w2. delete_dead_segments C (s, w) = (Inr (card (dead (st_state s))), s', w')
    \<and> store_ok C ms' fs pend (s', w')
    \<and> st_state s' = with_dead {} (st_state s) \<and> on_disk w' = set (ids_of (st_state s))
    \<and> open_store C trigger w' = (Inr s2, w2) \<and> store_ok C ms' fs [] (s2, w2)
    \<and> st_state s2 = st_state s'"
proof -
  obtain s' w' ms' where r: "delete_dead_segments C (s, w) = (Inr (card (dead (st_state s))), s', w')"
    "store_ok C ms' fs pend (s', w')" "st_state s' = with_dead {} (st_state s)"
    using delete_dead_run [OF ok ord rec] by blast
  note D = store_okD [OF r(2)]
  have disk: "on_disk w' = set (ids_of (st_state s))" using D(2) by (simp add: r(3) tracked_def)
  obtain s2 w2 where o: "open_store C trigger w' = (Inr s2, w2)" "store_ok C ms' fs [] (s2, w2)"
    "st_state s2 = st_state s'"
    using reopens [OF D(1-3) ord rec next_after_tracked [OF r(2)], of trigger] by blast
  show ?thesis using r disk o by blast
qed

theorem delete_dead_reopens_witness:
  "\<exists>s w s' w'. dead (st_state s) = {SegmentId 1}
    \<and> delete_dead_segments sample (s, w) = (Inr 1, s', w') \<and> on_disk w' = {SegmentId 2}"
proof -
  obtain s w m fs where s: "store_ok sample [first_op, m] fs [] (s, w)"
    "segments (st_state s) = [\<lparr>se_id = SegmentId 1, se_first = EntryId 0\<rparr>,
      \<lparr>se_id = SegmentId 2, se_first = EntryId 1\<rparr>]"
    "head_entry (st_state s) = EntryId 0" "dead (st_state s) = {}" by (rule rolled_store)
  let ?m = "with_meta (TruncateStart (EntryId 1) (to_evict (st_state s) (EntryId 1))) []"
  have le: "head_entry (st_state s) \<le> EntryId 1" by (simp add: s(3) less_eq_entry_id_def)
  have wr: "op_writable sample ?m"
    unfolding rolled_facts [OF s(1,2)]
    by (rule sample_writable) (simp add: with_meta_def encode_sample_simps)
  obtain s1 w1 where s1: "store_ok sample ([first_op, m] @ [?m]) fs [] (s1, w1)"
    "segments (st_state s1) = filter (\<lambda>e. se_id e \<notin> set (to_evict (st_state s) (EntryId 1)))
        (segments (st_state s))"
    "dead (st_state s1) = set (to_evict (st_state s) (EntryId 1)) \<union> dead (st_state s)"
    using truncate_start_run [OF s(1) le wr] by blast
  have d: "dead (st_state s1) = {SegmentId 1}" unfolding s1(3) rolled_facts [OF s(1,2)] by (simp add: s(4))
  have ids: "set (ids_of (st_state s1)) = {SegmentId 2}"
    unfolding s1(2) rolled_facts [OF s(1,2)] by (simp add: s(2))
  obtain s' w' where "delete_dead_segments sample (s1, w1) = (Inr (card (dead (st_state s1))), s', w')"
    "on_disk w' = set (ids_of (st_state s1))"
    using delete_dead_reopens [OF s1(1) sample_order sample_recovery_writable] by blast
  then show ?thesis unfolding ids using d by auto
qed

end
