(* ===== verification/Store_Stops.thy ===== *)
theory Store_Stops
  imports Fault_Free Store_Stuck Store_Rollback Store_Truncate
begin

text \<open>
  The operations of \<^verbatim>\<open>src/store.rs\<close> stopped by any faults of the device: whatever calls succeeded, failed or
  wrote a part of their bytes, and the process ended then. What they leave on the device opens to the
  store before the operation or to the store after it (of a batch, to some of its entries), or does not
  open.
\<close>

section \<open>Sizes of sealed segments\<close>

lemma open_segment_unchanged:
  assumes "healthy w"
  shows "\<exists>r. open_segment i w = (r, w)"
  using open_checked_healthy [OF assms] by (auto simp: open_segment_def split: option.split)

text \<open>An opened store has only sealed segments of the size their seals record.\<close>

lemma scan_segment_issues:
  assumes w: "healthy w"
  shows "\<exists>r x. scan_segment C i expected (iss, w) = (r, iss @ x, w)
    \<and> (\<forall>n c. expected = Some n \<and> content w (segment_path i) = Some c \<and> length c \<noteq> n
      \<longrightarrow> x = [\<lparr>issue_file = Segment i, the_issue = SealedSegmentSizeMismatch n (length c)\<rparr>])"
proof -
  have "\<exists>z. size_issue i expected w = (z, w)
    \<and> (\<forall>n c. expected = Some n \<and> content w (segment_path i) = Some c \<and> length c \<noteq> n
      \<longrightarrow> z = Some (SealedSegmentSizeMismatch n (length c)))"
    using w by (cases expected; cases "content w (segment_path i)")
      (simp_all add: size_issue_def segment_size_def metadata_len_def)
  then obtain z where z: "size_issue i expected w = (z, w)"
    and bad: "\<forall>n c. expected = Some n \<and> content w (segment_path i) = Some c \<and> length c \<noteq> n
      \<longrightarrow> z = Some (SealedSegmentSizeMismatch n (length c))" by blast
  obtain r where opn: "open_segment i w = (r, w)" using open_segment_unchanged [OF w] by blast
  have new: "\<exists>sc. scanner_new f off w = (sc, w)" for f off
    using w by (simp add: scanner_new_def read_stream_def)
  show ?thesis
  proof (cases z)
    case None
    have "\<exists>r x. scan_segment C i expected (iss, w) = (r, iss @ x, w)"
    proof (cases r)
      case (Inl e)
      then show ?thesis by (simp add: scan_segment_def z None opn push_issue_def)
    next
      case (Inr y)
      obtain f off where y: "y = (f, off)" by (cases y)
      obtain sc where sc: "scanner_new f off w = (sc, w)" using new by blast
      show ?thesis
      proof (cases "fst (scan_all C INDEX_STRIDE sc)")
        case (Inl e)
        then show ?thesis by (simp add: scan_segment_def z None opn Inr y sc push_issue_def)
      next
        case sum: (Inr sum)
        show ?thesis
          by (cases "status sum = Clean")
             (simp_all add: scan_segment_def z None opn Inr y sc sum push_issue_def Let_def)
      qed
    qed
    then show ?thesis using bad None by blast
  next
    case (Some issue)
    then have "scan_segment C i expected (iss, w)
        = (failed_report i, iss @ [\<lparr>issue_file = Segment i, the_issue = issue\<rparr>], w)"
      by (simp add: scan_segment_def z push_issue_def)
    moreover have "\<forall>n c. expected = Some n \<and> content w (segment_path i) = Some c \<and> length c \<noteq> n
        \<longrightarrow> issue = SealedSegmentSizeMismatch n (length c)" using bad Some by simp
    ultimately show ?thesis by blast
  qed
qed

lemma scan_segments_issues:
  assumes w: "healthy w"
  shows "\<exists>rs x. scan_segments C st es (iss, w) = (rs, iss @ x, w)
    \<and> (\<forall>e info c. e \<in> set es \<longrightarrow> seals st (se_id e) = Some info \<longrightarrow> content w (segment_path (se_id e)) = Some c
        \<longrightarrow> length c \<noteq> unat (final_size info)
        \<longrightarrow> \<lparr>issue_file = Segment (se_id e),
              the_issue = SealedSegmentSizeMismatch (unat (final_size info)) (length c)\<rparr> \<in> set x)"
proof (induction es arbitrary: iss)
  case (Cons e es)
  obtain r x where x: "scan_segment C (se_id e) (map_option (\<lambda>info. unat (final_size info)) (seals st (se_id e)))
      (iss, w) = (r, iss @ x, w)"
    "\<forall>n c. map_option (\<lambda>info. unat (final_size info)) (seals st (se_id e)) = Some n
      \<and> content w (segment_path (se_id e)) = Some c \<and> length c \<noteq> n
      \<longrightarrow> x = [\<lparr>issue_file = Segment (se_id e), the_issue = SealedSegmentSizeMismatch n (length c)\<rparr>]"
    using scan_segment_issues [OF w, of C "se_id e" "map_option (\<lambda>info. unat (final_size info)) (seals st (se_id e))" iss]
    by (elim exE conjE) (rule that)
  from Cons.IH [of "iss @ x"] obtain rs y where "scan_segments C st es (iss @ x, w) = (rs, (iss @ x) @ y, w)"
    and y: "\<forall>e info c. e \<in> set es \<longrightarrow> seals st (se_id e) = Some info \<longrightarrow> content w (segment_path (se_id e)) = Some c
        \<longrightarrow> length c \<noteq> unat (final_size info)
        \<longrightarrow> \<lparr>issue_file = Segment (se_id e),
              the_issue = SealedSegmentSizeMismatch (unat (final_size info)) (length c)\<rparr> \<in> set y" by blast
  then have "scan_segments C st (e # es) (iss, w) = (r # rs, iss @ x @ y, w)" using x(1) by simp
  moreover have "\<lparr>issue_file = Segment (se_id d),
      the_issue = SealedSegmentSizeMismatch (unat (final_size info)) (length c)\<rparr> \<in> set (x @ y)"
    if "d \<in> set (e # es)" "seals st (se_id d) = Some info" "content w (segment_path (se_id d)) = Some c"
      "length c \<noteq> unat (final_size info)" for d info c
    using that x(2) y by (cases "d = e") simp_all
  ultimately show ?case by blast
qed simp

lemma unfixable_not_possible:
  assumes "fi \<in> set iss" and "create_fix_up fi = None"
  shows "\<exists>e. collect_fix_ups b iss = Inl e"
  using assms by (induction iss) (auto split: option.split sum.split)

text \<open>A directory whose issues opening would try to fix.\<close>

definition fixable :: "'f crates \<Rightarrow> world \<Rightarrow> bool" where
  "fixable C w \<longleftrightarrow> (\<exists>fxs. collect_fix_ups False (report_issues (fst (scan_store C w))) = Inr fxs)"

lemma opened_fixable: "open_store C trigger w = (Inr s, w') \<Longrightarrow> fixable C w"
  by (auto simp: fixable_def open_store_def attempt_recovery_def split: prod.splits sum.splits if_splits)

lemma fixable_sizes:
  assumes w: "healthy w" "base_dir_exists w"
    and c: "content w MANIFEST_FILE_NAME = Some (MANIFEST_MAGIC @ ops_bytes C ms @ mtail)"
    and ms: "run_ops ms = Some st" "\<forall>m \<in> set ms. op_writable C m"
    and mtail: "mtail = [] \<or> torn_piece C mtail \<and> length mtail < HEADER_LEN"
    and fx: "fixable C w"
    and i: "i \<in> set (ids_of st)" "seals st i = Some info" "content w (segment_path i) = Some d"
  shows "length d = unat (final_size info)"
proof (rule ccontr)
  assume bad: "length d \<noteq> unat (final_size info)"
  let ?bad = "\<lparr>issue_file = Segment i, the_issue = SealedSegmentSizeMismatch (unat (final_size info)) (length d)\<rparr>"
  obtain e where e: "e \<in> set (segments st)" "se_id e = i" using i(1) by auto
  then have ne: "segments st \<noteq> []" by auto
  define iss0 where "iss0 = (if mtail = [] then [] else [\<lparr>issue_file = Manifest,
    the_issue = ManifestTornTail (MAGIC_LEN + length (ops_bytes C ms))\<rparr>])"
  note scan = scan_store_files [OF w c ms ne mtail, folded iss0_def]
  have dir: "\<exists>ids. collect_segment_ids w = (Inr ids, w)"
    using w by (simp add: collect_segment_ids_def and_then_def read_dir_def)
  then obtain ids where ids: "collect_segment_ids w = (Inr ids, w)" by blast
  obtain rs x where "scan_segments C st (segments st)
      (find_missing_dead C st ids (find_orphans st ids iss0), w)
      = (rs, find_missing_dead C st ids (find_orphans st ids iss0) @ x, w)" and "?bad \<in> set x"
    using scan_segments_issues [OF w(1), of C st "segments st" "find_missing_dead C st ids (find_orphans st ids iss0)"]
      e i(2,3) bad by blast
  then obtain report where r: "scan_store C w = (report, w)" "?bad \<in> set (report_issues report)"
    unfolding scan scan_files_def by (simp add: ids)
  obtain e where "collect_fix_ups False (report_issues report) = Inl e"
    using unfixable_not_possible [OF r(2)] by (auto simp: create_fix_up_def)
  then show False using fx r(1) by (simp add: fixable_def)
qed

section \<open>A manifest operation that stops\<close>

text \<open>Worlds with the same files.\<close>

definition alike :: "world \<Rightarrow> world \<Rightarrow> bool" where
  "alike w w' \<longleftrightarrow> (\<forall>n. content w' n = content w n) \<and> base_dir_exists w' = base_dir_exists w
     \<and> (wf_world w \<longrightarrow> wf_world w')"

lemma alikeD:
  assumes "alike w w'"
  shows "content w' n = content w n" "base_dir_exists w' = base_dir_exists w" "wf_world w \<Longrightarrow> wf_world w'"
    "on_disk w' = on_disk w"
  using assms by (simp_all add: alike_def on_disk_def)

lemma alike_trans: "alike w w' \<Longrightarrow> alike w' w'' \<Longrightarrow> alike w w''"
  by (simp add: alike_def)

lemma image_files_kept:
  assumes img: "crash_image C ms st fs mtail tail w" and w: "healthy w'" "wf_world w'" "base_dir_exists w'"
    and manifest: "content w' MANIFEST_FILE_NAME = content w MANIFEST_FILE_NAME"
    and seg: "\<And>i. i \<in> set (ids_of st) \<Longrightarrow> content w' (segment_path i) = content w (segment_path i)"
    and names: "\<And>n c. content w' n = Some c \<Longrightarrow> n = MANIFEST_FILE_NAME \<or> n \<in> range segment_path"
  shows "crash_image C ms st fs mtail tail w'"
proof -
  have "\<forall>i \<in> set (ids_of st). (\<forall>f \<in> set (fs i). fits f) \<and> content w' (segment_path i)
      = Some (SEGMENT_MAGIC @ frames_bytes C (fs i) @ tail_of st tail i)"
    using image_segment [OF img] seg by simp
  moreover have "\<forall>n c. content w' n = Some c \<longrightarrow> n = MANIFEST_FILE_NAME \<or> n \<in> range segment_path"
    using names by blast
  ultimately show ?thesis using img w unfolding crash_image_def manifest by blast
qed

lemma alike_image:
  assumes "alike w w'" and "healthy w'" and "crash_image C ms st fs mtail tail w"
  shows "crash_image C ms st fs mtail tail w'"
  using assms(2,3) alikeD [OF assms(1)] unfolding crash_image_def by simp

lemma alike_entries: "entries w' = entries w \<Longrightarrow> base_dir_exists w' = base_dir_exists w \<Longrightarrow> alike w w'"
  by (simp add: alike_def wf_world_def)

lemma alike_refl [simp]: "alike w w"
  by (simp add: alike_def)

lemma alike_restarted [simp]: "alike w (restarted w') = alike w w'" "alike (restarted w) w' = alike w w'"
  by (simp_all add: alike_def)

lemma on_disk_restarted [simp]: "on_disk (restarted w) = on_disk w"
  by (simp add: on_disk_def)

text \<open>Any number of bytes of the buffer may have been written.\<close>

lemma flush_stops:
  assumes "content w (path f) = Some c" and "cur_position cur = length c" and "cursor_flush f (cur, w) = (r, cur1, w1)"
  shows "\<exists>k \<le> length (buffered cur). alike (put_content (path f) (c @ take k (buffered cur)) w) w1"
proof -
  let ?d = "buffered cur" and ?v = "\<lambda>k. put_content (path f) (c @ take k (buffered cur)) (spend w)"
  have "w1 = ?v (case next_outcome w of None \<Rightarrow> length ?d | Some k \<Rightarrow> k)"
    using assms by (auto simp: cursor_flush_def and_then_def write_all_at_def write_bytes_def split: option.splits)
  then obtain k where "w1 = ?v k" by blast
  then have w1: "w1 = ?v (min k (length ?d))" by (cases "k \<le> length ?d") simp_all
  have "alike (put_content (path f) (c @ take (min k (length ?d)) ?d) w) w1"
    unfolding w1 by (rule alike_entries) (simp_all add: put_content_def)
  then show ?thesis by (intro exI [of _ "min k (length ?d)"]) simp
qed

lemma sync_alike: "alike v (snd (sync_all g v))"
  by (rule alike_entries) (simp_all add: sync_all_def call_def split: option.split)

lemma write_op_stops:
  assumes c: "content w MANIFEST_FILE_NAME = Some (MANIFEST_MAGIC @ ops_bytes C ms)"
    and run: "write_op C manifest_handle m (cursor_new (MAGIC_LEN + length (ops_bytes C ms)), w) = (r, cur, w1)"
  obtains k where "k \<le> frame_len (op_frame C m)"
    and "alike (put_content MANIFEST_FILE_NAME
      (MANIFEST_MAGIC @ ops_bytes C ms @ take k (frame_bytes C (op_frame C m))) w) w1"
proof -
  let ?cur = "cursor_write C (EntryId 0) (encode C m) (cursor_new (MAGIC_LEN + length (ops_bytes C ms)))"
  have b: "buffered ?cur = frame_bytes C (op_frame C m)"
    "cur_position ?cur = length (MANIFEST_MAGIC @ ops_bytes C ms)"
    by (simp_all add: cursor_write_def cursor_new_def buffer_write_frame op_frame_def)
  obtain r2 cur2 w2 where f: "cursor_flush manifest_handle (?cur, w) = (r2, cur2, w2)" by (metis prod_cases3)
  have "content w (path manifest_handle) = Some (MANIFEST_MAGIC @ ops_bytes C ms)"
    using c by (simp add: manifest_handle_def)
  from flush_stops [OF this b(2) f] obtain k where k: "k \<le> frame_len (op_frame C m)"
    "alike (put_content MANIFEST_FILE_NAME
      (MANIFEST_MAGIC @ ops_bytes C ms @ take k (frame_bytes C (op_frame C m))) w) w2"
    by (auto simp: b(1) manifest_handle_def)
  have "alike w2 w1"
    using run f sync_alike [of w2 manifest_handle] by (auto simp: write_op_def split: sum.splits prod.splits)
  with k alike_trans show thesis by (intro that) blast+
qed

text \<open>If what is left can be fixed, the operation was written in full or not behind its header.\<close>

lemma stopped_op:
  assumes c: "content w MANIFEST_FILE_NAME = Some (MANIFEST_MAGIC @ ops_bytes C ms)" and dir: "base_dir_exists w"
    and ms: "run_ops ms = Some st" "\<forall>m \<in> set ms. op_writable C m" "op_writable C m"
    and run: "write_op C manifest_handle m (cursor_new (MAGIC_LEN + length (ops_bytes C ms)), w) = (r, cur, w1)"
    and fx: "fixable C (restarted w1)"
  obtains (cut) t where "t = [] \<or> torn_piece C t \<and> length t < HEADER_LEN"
      and "alike (put_content MANIFEST_FILE_NAME (MANIFEST_MAGIC @ ops_bytes C ms @ t) w) w1"
  | (whole) "alike (put_content MANIFEST_FILE_NAME (MANIFEST_MAGIC @ ops_bytes C (ms @ [m])) w) w1"
proof -
  let ?d = "frame_bytes C (op_frame C m)"
  obtain k where k: "k \<le> frame_len (op_frame C m)"
    "alike (put_content MANIFEST_FILE_NAME (MANIFEST_MAGIC @ ops_bytes C ms @ take k ?d) w) w1"
    by (rule write_op_stops [OF c run])
  have fg: "fits (op_frame C m)" using ms(3) by (simp add: op_writable_def)
  consider "k = 0" | "0 < k" "k < HEADER_LEN" | "HEADER_LEN \<le> k" "k < frame_len (op_frame C m)" | "k = frame_len (op_frame C m)"
    using k(1) by linarith
  then show thesis
  proof cases
    case 1
    then show ?thesis using k(2) by (intro cut [of "[]"]) simp_all
  next
    case 2
    have l: "k < frame_len (op_frame C m)" using 2(2) by (simp add: frame_len_def)
    then have "torn_piece C (take k ?d)" unfolding torn_piece_def using 2(1) fg
      by (intro exI [of _ "op_frame C m"] exI [of _ k]) simp
    then show ?thesis using k(2) 2(2) by (intro cut [of "take k ?d"]) (simp_all add: min_less_iff_disj)
  next
    case 3
    have w: "healthy (restarted w1)" "base_dir_exists (restarted w1)"
      "content (restarted w1) MANIFEST_FILE_NAME = Some (MANIFEST_MAGIC @ ops_bytes C ms @ take k ?d)"
      using alikeD(1,2) [OF k(2)] dir by simp_all
    show ?thesis using torn_manifest_scan [OF w ms 3] fx by (simp add: fixable_def empty_report_def create_fix_up_def auto_fix_def)
  next
    case 4
    then have "take k ?d = ?d" by simp
    then show ?thesis using k(2) by (intro whole) simp
  qed
qed

lemma commit_op_writes:
  assumes "commit_op C m (s, w) = (r, s1, w1)" and "manifest_file s = manifest_handle"
    and "manifest_cursor s = cursor_new off"
  obtains x cur where "write_op C manifest_handle m (cursor_new off, w) = (x, cur, w1)"
  using assms by (auto simp: commit_op_def split: prod.splits sum.splits)

section \<open>What opens again\<close>

text \<open>A directory opening can repair: a crash image whose segment ids leave one for the next segment.\<close>

definition recoverable :: "'f crates \<Rightarrow> (segment_id \<Rightarrow> frame list) \<Rightarrow> store_state \<Rightarrow> world \<Rightarrow> bool" where
  "recoverable C fs st w \<longleftrightarrow> (\<exists>ms mtail tail. crash_image C ms st fs mtail tail w) \<and> entries_ok fs st
     \<and> (\<forall>i \<in> set (ids_of st) \<union> on_disk w. next_segment_id i \<noteq> None)"

lemma recoverableI:
  "crash_image C ms st fs mtail tail w \<Longrightarrow> entries_ok fs st
    \<Longrightarrow> (\<And>i. i \<in> on_disk w \<Longrightarrow> next_segment_id i \<noteq> None) \<Longrightarrow> recoverable C fs st w"
  using ids_on_disk unfolding recoverable_def by blast

lemma recoverable_opens:
  assumes rc: "recoverable C fs st w" and ord: "order_ok C" and rec: "recovery_writable C"
  obtains s w' ms' where "open_store C trigger w = (Inr s, w')" and "store_ok C ms' fs [] (s, w')"
    and "segments (st_state s) = segments st" and "head_entry (st_state s) = head_entry st"
    and "metadata (st_state s) = metadata st" and "rollover_pending s = False"
proof -
  obtain ms mtail tail where img: "crash_image C ms st fs mtail tail w"
    using rc unfolding recoverable_def by blast
  let ?st = "with_dead (on_disk w - set (ids_of st)) st"
  have tr: "tracked ?st = on_disk w" by (rule tracked_with_dead [OF ids_on_disk [OF img]])
  have "tracked ?st \<noteq> {}" using image_world(5) [OF img] by (simp add: tracked_def)
  then have "max_segment_id ?st \<in> tracked ?st"
    using Max_in [of "tracked ?st"] by (simp add: max_segment_id_def Let_def tracked_def)
  then have "next_segment_id (max_segment_id ?st) \<noteq> None" using rc unfolding tr recoverable_def by blast
  moreover have "entries_ok fs st" using rc by (simp add: recoverable_def)
  ultimately show thesis using open_image [OF img _ ord rec, of trigger] that by fastforce
qed

lemma next_of_smaller: "i < j \<Longrightarrow> next_segment_id i \<noteq> None"
  by (auto simp: next_segment_id_def less_segment_id_def)

lemma store_ok_recoverable:
  assumes ok: "store_ok C ms fs pend (s, w)" and w1: "alike w w1" "healthy w1"
  shows "recoverable C fs (st_state s) w1"
proof (rule recoverableI)
  note D = store_okD [OF ok]
  show "crash_image C ms (st_state s) fs [] [] w1" by (rule alike_image [OF w1 D(1)])
  show "entries_ok fs (st_state s)" by (rule D(3))
  show "next_segment_id i \<noteq> None" if "i \<in> on_disk w1" for i
    using that D(2,10) next_of_smaller unfolding alikeD(4) [OF w1(1)] by metis
qed

section \<open>Operations on the manifest\<close>

lemma op_stops_image:
  assumes img: "crash_image C ms (st_state s) fs [] [] (restarted w)" and eok: "entries_ok fs (st_state s)"
    and f: "manifest_file s = manifest_handle"
    and cur: "manifest_cursor s = cursor_new (MAGIC_LEN + length (ops_bytes C ms))"
    and nxt: "\<And>i. i \<in> on_disk w \<Longrightarrow> next_segment_id i \<noteq> None" and m: "op_writable C m"
    and run: "commit_op C m (s, w) = (r, s1, w1)" and fx: "fixable C (restarted w1)"
  obtains (before) "recoverable C fs (st_state s) (restarted w1)"
  | (after) "alike (snd (committed C ms m (s, restarted w))) w1"
proof -
  note wd = image_world [OF img]
  have c: "content w MANIFEST_FILE_NAME = Some (MANIFEST_MAGIC @ ops_bytes C ms)" and dir: "base_dir_exists w"
    using wd(3,6) by simp_all
  show thesis
  proof (rule commit_op_writes [OF run f cur], rule stopped_op [OF c dir wd(7,8) m _ fx], assumption)
    fix t
    assume t: "t = [] \<or> torn_piece C t \<and> length t < HEADER_LEN"
      and a: "alike (put_content MANIFEST_FILE_NAME (MANIFEST_MAGIC @ ops_bytes C ms @ t) w) w1"
    let ?w = "put_content MANIFEST_FILE_NAME (MANIFEST_MAGIC @ ops_bytes C ms @ t) (restarted w)"
    have a': "alike ?w (restarted w1)" using a by simp
    have img': "crash_image C ms (st_state s) fs t [] ?w"
      using img t unfolding crash_image_def by auto
    have disk: "on_disk w1 = on_disk w"
      using alikeD(4) [OF a'] by (simp add: on_disk_def)
    have "recoverable C fs (st_state s) (restarted w1)"
      by (intro recoverableI [OF alike_image [OF a' _ img'] eok]) (simp_all add: disk nxt)
    then show ?thesis by (rule before)
  next
    assume "alike (put_content MANIFEST_FILE_NAME (MANIFEST_MAGIC @ ops_bytes C (ms @ [m])) w) w1"
    moreover have "alike (store_file n d (restarted w)) v = alike (put_content n d w) v" for n d v
      by (simp add: alike_def store_file_def wf_world_def put_content_def save_file_def)
    ultimately show ?thesis by (intro after) (simp add: committed_def del: map_append)
  qed
qed

lemma store_ok_next: "store_ok C ms fs pend (s, w) \<Longrightarrow> i \<in> on_disk w \<Longrightarrow> next_segment_id i \<noteq> None"
  using next_of_smaller store_okD(2,10) by metis

lemma op_stops:
  assumes ok: "store_ok C ms fs pend (s, restarted w)" and m: "op_writable C m"
    and run: "commit_op C m (s, w) = (r, s1, w1)" and fx: "fixable C (restarted w1)"
  obtains (before) "recoverable C fs (st_state s) (restarted w1)"
  | (after) "alike (snd (committed C ms m (s, restarted w))) w1"
proof -
  note D = store_okD [OF ok]
  have nxt: "next_segment_id i \<noteq> None" if "i \<in> on_disk w" for i
    using store_ok_next [OF ok] that by (simp add: on_disk_def)
  show thesis by (rule op_stops_image [OF D(1,3-5) nxt m run fx]) (blast intro: that)+
qed

lemma write_metadata_stops:
  assumes ok: "store_ok C ms fs pend (s, restarted w)" and m: "op_writable C (with_meta Metadata kvs)"
    and run: "write_metadata C kvs (s, w) = (r, s1, w1)"
    and fx: "fixable C (restarted w1)"
  obtains (before) "recoverable C fs (st_state s) (restarted w1)"
  | (after) s2 w2 where "write_metadata C kvs (s, restarted w) = (Inr (), s2, w2)" and "alike w2 w1"
  using op_stops [OF ok m run [unfolded write_metadata_def] fx] write_metadata_ok [OF ok m]
  by (metis prod.collapse)

lemma truncate_start_stops:
  assumes ok: "store_ok C ms fs pend (s, restarted w)"
    and m: "op_writable C (with_meta (TruncateStart (EntryId i) (to_evict (st_state s) (EntryId i))) kvs)"
    and run: "store_truncate_start C i kvs (s, w) = (r, s1, w1)"
    and fx: "fixable C (restarted w1)"
  obtains (before) "recoverable C fs (st_state s) (restarted w1)"
  | (after) s2 w2 where "store_truncate_start C i kvs (s, restarted w) = (Inr (), s2, w2)" and "alike w2 w1"
proof (cases "EntryId i < head_entry (st_state s)")
  case True
  then have "w1 = w" using run by (simp add: store_truncate_start_def Let_def)
  then show thesis using store_ok_recoverable [OF ok, of "restarted w1"] by (intro before) (simp add: alike_def)
next
  case False
  then have le: "head_entry (st_state s) \<le> EntryId i" by simp
  let ?m = "with_meta (TruncateStart (EntryId i) (to_evict (st_state s) (EntryId i))) kvs"
  obtain rc sc where c: "commit_op C ?m (s, w) = (rc, sc, w1)"
    using run False by (auto simp: store_truncate_start_def Let_def and_then_def update_store_def
        split: prod.splits sum.splits)
  from ok m c fx show thesis
  proof (cases rule: op_stops)
    case before
    then show ?thesis by (rule that(1))
  next
    case after
    obtain s2 w2 where r: "store_truncate_start C i kvs (s, restarted w) = (Inr (), s2, w2)"
      using truncate_start_run [OF ok le m] by blast
    note D = store_okD [OF ok]
    have v: "op_error (st_state s) (the_op ?m) = None"
      using le by (auto simp: with_meta_def to_evict_sealed intro!: op_valid_no_error)
    have "w2 = snd (committed C ms ?m (s, restarted w))"
      using r False commit_op_run [OF D(1,4,5) v]
      by (auto simp: store_truncate_start_def Let_def and_then_def update_store_def committed_def)
    then show ?thesis using r after by (intro that(2)) simp_all
  qed
qed

section \<open>Deleting dead segments\<close>

lemma delete_segment_stops:
  assumes "delete_segment i w = (r, w1)" and "wf_world w"
  shows "\<forall>n. n \<noteq> segment_path i \<longrightarrow> content w1 n = content w n"
    and "content w1 (segment_path i) \<in> {content w (segment_path i), None}"
    and "base_dir_exists w1 = base_dir_exists w" and "wf_world w1"
proof -
  have "w1 = spend w \<or> w1 = (spend w)\<lparr>entries := AList.delete (segment_path i) (entries w)\<rparr>
      \<and> content w (segment_path i) \<noteq> None"
    using assms(1)
    by (auto simp: delete_segment_def remove_file_def call_def split: option.splits if_splits)
  then consider "w1 = spend w"
    | c where "w1 = (spend w)\<lparr>entries := AList.delete (segment_path i) (entries w)\<rparr>"
      "content w (segment_path i) = Some c" by auto
  then have "(\<forall>n. n \<noteq> segment_path i \<longrightarrow> content w1 n = content w n)
    \<and> content w1 (segment_path i) \<in> {content w (segment_path i), None}
    \<and> base_dir_exists w1 = base_dir_exists w \<and> wf_world w1"
  proof cases
    case 1
    then show ?thesis using assms(2) by (simp add: wf_world_def)
  next
    case 2
    then show ?thesis using assms(2) wf_world_dir [OF assms(2) 2(2)]
      by (simp add: delete_conv' wf_world_def distinct_delete)
  qed
  then show "\<forall>n. n \<noteq> segment_path i \<longrightarrow> content w1 n = content w n"
    and "content w1 (segment_path i) \<in> {content w (segment_path i), None}"
    and "base_dir_exists w1 = base_dir_exists w" and "wf_world w1" by blast+
qed

lemma delete_stops:
  assumes ok: "store_ok C ms fs pend (s, restarted w)" and i: "i \<in> dead (st_state s)"
    and m: "op_writable C (bare (SegmentDeleted i))"
    and run: "and_then (on_world (delete_segment i)) (\<lambda>_. commit_op C (bare (SegmentDeleted i))) (s, w)
      = (Inl e, s1, w1)"
    and fx: "fixable C (restarted w1)"
  shows "\<exists>D. recoverable C fs (with_dead D (st_state s)) (restarted w1)"
proof -
  let ?m = "bare (SegmentDeleted i)"
  note D = store_okD [OF ok]
  note wd = image_world [OF D(1)]
  obtain y w2 where y: "delete_segment i w = (y, w2)" by fastforce
  have "wf_world w" using wd(2) by simp
  note w2 = delete_segment_stops [OF y this]
  have nin: "i \<notin> set (ids_of (st_state s))" using wd(4) i unfolding wf_state_def by blast
  have c2: "content w2 (segment_path j) = content w (segment_path j)" if "j \<in> set (ids_of (st_state s))" for j
    using w2(1) that nin by (metis segment_path_eq)
  have "content w n = Some c" if "content w2 n = Some c" for n c
    using w2(1,2) that by (cases "n = segment_path i") auto
  then have names: "n = MANIFEST_FILE_NAME \<or> n \<in> range segment_path" if "content w2 n = Some c" for n c
    using D(1) that unfolding crash_image_def by simp
  have manifest: "content w2 MANIFEST_FILE_NAME = content w MANIFEST_FILE_NAME" using w2(1) by simp
  have img: "crash_image C ms (st_state s) fs [] [] (restarted w2)"
  proof (rule image_files_kept [OF D(1)])
    show "n = MANIFEST_FILE_NAME \<or> n \<in> range segment_path" if "content (restarted w2) n = Some c" for n c
      using names [of n c] that by simp
  qed (use w2(3,4) wd(3) c2 manifest in simp_all)
  have sub: "on_disk w2 \<subseteq> on_disk w"
  proof
    fix j assume "j \<in> on_disk w2"
    then show "j \<in> on_disk w" using w2(1,2) by (cases "j = i") (auto simp: on_disk_def)
  qed
  have nxt: "next_segment_id j \<noteq> None" if "j \<in> on_disk w2" for j
    using store_ok_next [OF ok] that sub by (force simp: on_disk_def)
  show ?thesis
  proof (cases y)
    case (Inl e')
    then have "w1 = w2" using run y by (simp add: and_then_def on_world_def)
    moreover have "recoverable C fs (st_state s) (restarted w2)"
      using nxt by (intro recoverableI [OF img D(3)]) (simp add: on_disk_def)
    ultimately show ?thesis by (intro exI [of _ "dead (st_state s)"]) simp
  next
    case (Inr u)
    then have c: "commit_op C ?m (s, w2) = (Inl e, s1, w1)"
      using run y by (simp add: and_then_def on_world_def)
    show ?thesis
    proof (rule op_stops_image [OF img D(3-5) nxt m c fx])
      assume "recoverable C fs (st_state s) (restarted w1)"
      then show ?thesis by (intro exI [of _ "dead (st_state s)"]) simp
    next
      assume a: "alike (snd (committed C ms ?m (s, restarted w2))) w1"
      have del: "delete_segment i (restarted w) = (Inr (), restarted w2)"
        using steadyD [OF steady_delete_segment y [unfolded Inr]] by simp
      have v: "op_error (st_state s) (the_op ?m) = None" using i by (simp add: bare_def)
      obtain s3 w3 where "and_then (on_world (delete_segment i)) (\<lambda>_. commit_op C ?m) (s, restarted w)
          = (Inr (), s3, w3)" and s3: "store_ok C (ms @ [?m]) fs pend (s3, w3)"
        and st: "st_state s3 = with_dead (dead (st_state s) - {i}) (st_state s)"
        using delete_step [OF ok i m] by blast
      then have "commit_op C ?m (s, restarted w2) = (Inr (), s3, w3)"
        by (simp add: and_then_def on_world_def del)
      then have "w3 = snd (committed C ms ?m (s, restarted w2))"
        using commit_op_run [OF img D(4,5) v] by (metis Pair_inject snd_conv prod.collapse)
      then have "recoverable C fs (st_state s3) (restarted w1)"
        using a by (intro store_ok_recoverable [OF s3]) simp_all
      then show ?thesis unfolding st by blast
    qed
  qed
qed

lemma delete_all_stops:
  assumes "store_ok C ms fs pend (s, restarted w)" and "set is \<subseteq> dead (st_state s)" and "distinct is"
    and "recovery_writable C"
    and "for_each (\<lambda>i. and_then (on_world (delete_segment i)) (\<lambda>_. commit_op C (bare (SegmentDeleted i)))) is (s, w)
      = (r, s1, w1)"
    and "fixable C (restarted w1)"
  shows "\<exists>D. recoverable C fs (with_dead D (st_state s)) (restarted w1)"
  using assms
proof (induction "is" arbitrary: ms s w)
  case Nil
  then have "w1 = w" by (simp add: ok_def)
  then have "recoverable C fs (st_state s) (restarted w1)"
    using store_ok_recoverable [OF Nil.prems(1), of "restarted w1"] by simp
  then show ?case by (intro exI [of _ "dead (st_state s)"]) simp
next
  case (Cons i js)
  let ?body = "\<lambda>i. and_then (on_world (delete_segment i)) (\<lambda>_. commit_op C (bare (SegmentDeleted i)))"
  have wr: "op_writable C (bare (SegmentDeleted i))" using Cons.prems(4) by (simp add: recovery_writable_def)
  have i: "i \<in> dead (st_state s)" using Cons.prems(2) by simp
  obtain x s2 w2 where x: "?body i (s, w) = (x, s2, w2)" by (metis prod_cases3)
  show ?case
  proof (cases x)
    case (Inl e)
    then have "w1 = w2" using Cons.prems(5) x by (simp add: and_then_def [of "?body i"])
    then show ?thesis using delete_stops [OF Cons.prems(1) i wr] x Inl Cons.prems(6) by blast
  next
    case (Inr u)
    have "steady_store (?body i)" by (intro steady_rules)
    from steady_storeD [OF this x [unfolded Inr]]
    have "store_ok C (ms @ [bare (SegmentDeleted i)]) fs pend (s2, restarted w2)"
      and st: "st_state s2 = with_dead (dead (st_state s) - {i}) (st_state s)"
      using delete_step [OF Cons.prems(1) i wr] by auto
    moreover have "set js \<subseteq> dead (st_state s2)" "distinct js" using Cons.prems(2,3) by (auto simp: st)
    moreover have "for_each ?body js (s2, w2) = (r, s1, w1)"
      using Cons.prems(5) x Inr by (simp add: and_then_def [of "?body i"])
    ultimately have "\<exists>D. recoverable C fs (with_dead D (st_state s2)) (restarted w1)"
      using Cons.IH Cons.prems(4,6) by blast
    then show ?thesis by (simp add: st)
  qed
qed

lemma delete_dead_stops:
  assumes ok: "store_ok C ms fs pend (s, restarted w)" and ord: "order_ok C" and rec: "recovery_writable C"
    and run: "delete_dead_segments C (s, w) = (r, s1, w1)"
    and fx: "fixable C (restarted w1)"
  shows "\<exists>D. recoverable C fs (with_dead D (st_state s)) (restarted w1)"
proof -
  let ?is = "hash_order C (dead (st_state s))"
  obtain r2 s2 where "for_each (\<lambda>i. and_then (on_world (delete_segment i))
      (\<lambda>_. commit_op C (bare (SegmentDeleted i)))) ?is (s, w) = (r2, s2, w1)"
    using run by (auto simp: delete_dead_segments_def Let_def and_then_def [of "for_each _ _"]
        split: prod.splits sum.splits)
  from delete_all_stops [OF ok _ _ rec this fx] ord show ?thesis by simp
qed

section \<open>Writing a batch\<close>

lemma open_checked_stops: "alike w (snd (open_checked n m w))"
proof (rule alike_entries)
  show "base_dir_exists (snd (open_checked n m w)) = base_dir_exists w"
    by (simp add: open_checked_def fs_open_def call_def and_then_def check_magic_def map_err_def
        read_exact_def read_stream_def Let_def split: option.split sum.split prod.split)
qed (simp add: open_checked_entries)

lemma open_segment_stops: "alike w (snd (open_segment_rw i w))" "alike w (snd (open_segment i w))"
  by (simp_all add: open_segment_rw_def open_segment_def open_checked_stops)

lemma write_stops:
  assumes ok: "store_ok C ms fs pend (s, restarted w)" and roll: "rollover_pending s = False"
    and cont: "continues fs (st_state s) pend"
    and run: "write_batch C (batch_of pend) (s, w) = (r, s1, w1)"
  obtains k where "k \<le> length pend"
    and "recoverable C (fs(active_id s := fs (active_id s) @ take k pend)) (st_state s) (restarted w1)"
proof -
  let ?a = "active_id s" and ?st = "st_state s"
  note D = store_okD [OF ok] and A = store_ok_active [OF ok]
  note result = that
  have unwritten: "recoverable C (fs(?a := fs ?a @ take 0 pend)) ?st (restarted w1)" if "alike w w1"
  proof -
    have "fs(?a := fs ?a @ take 0 pend) = fs" by simp
    then show ?thesis
      using store_ok_recoverable [OF ok, of "restarted w1"] that by (simp only:) simp
  qed
  obtain m where m: "length pend = Suc m" using cont by (cases pend) (auto simp: continues_def)
  have pne: "pend \<noteq> []" using m by auto
  obtain y s2 w2 where y: "active_file (s, w) = (y, s2, w2)" by (metis prod_cases3)
  have a2: "alike w w2"
    using y open_segment_stops(1) [of w ?a]
    by (auto simp: active_file_def and_then_def on_world_def split: option.splits sum.splits prod.splits)
  show thesis
  proof (cases y)
    case (Inl e)
    then have "w1 = w2" using run y roll m pne
      by (simp add: write_batch_def batch_of_def and_then_def last_frame_id_def)
    then have "alike w w1" using a2 by simp
    then show ?thesis by (intro result [OF le0 unwritten])
  next
    case (Inr f)
    have f: "path f = segment_path ?a" "active_cursor s2 = active_cursor s"
      using y Inr D(9) open_checked_Inr
      by (fastforce simp: active_file_def and_then_eq_Inr on_world_def open_segment_rw_def
          split: option.splits prod.splits)+
    obtain z cur1 where z: "cursor_flush f (active_cursor s2, w2) = (z, cur1, w1)"
      using run y Inr roll m pne
      by (auto simp: write_batch_def batch_of_def and_then_def last_frame_id_def flush_active_def
          update_store_def split: sum.splits prod.splits)
    let ?c = "SEGMENT_MAGIC @ frames_bytes C (fs ?a)"
    have "content w2 (path f) = Some ?c" using A(3) alikeD(1) [OF a2] f(1) by simp
    moreover have "cur_position (active_cursor s2) = length ?c" "buffered (active_cursor s2) = frames_bytes C pend"
      using D(7) f(2) by simp_all
    ultimately obtain j where j: "j \<le> length (frames_bytes C pend)"
      "alike (put_content (segment_path ?a) (?c @ take j (frames_bytes C pend)) w2) w1"
      using flush_stops [OF _ _ z] f(1) by auto
    have fits: "\<forall>f \<in> set pend. fits f" using cont by (simp add: continues_def)
    obtain n tail where n: "n \<le> length pend"
      "take j (frames_bytes C pend) = frames_bytes C (take n pend) @ tail" "tail = [] \<or> torn_piece C tail"
      using take_frames_bytes [OF fits j(1)] by metis
    have fitn: "\<forall>f \<in> set (take n pend). fits f" using fits by (auto dest: in_set_takeD)
    let ?w = "put_content (segment_path ?a) (SEGMENT_MAGIC @ frames_bytes C (fs ?a @ take n pend) @ tail) (restarted w)"
    have "alike ?w w1"
      using j(2) alikeD(1-3) [OF a2] n(2) image_world(2,3) [OF D(1)] by (simp add: alike_def)
    then have a: "alike ?w (restarted w1)" by simp
    have img: "crash_image C ms ?st (fs(?a := fs ?a @ take n pend)) [] tail ?w"
      by (rule image_active_content [OF D(1,6) fitn n(3) A(4)])
    have "on_disk (restarted w1) = tracked ?st"
      using alikeD(4) [OF a] D(2) A(2) by (simp add: on_disk_put tracked_def)
    then have "recoverable C (fs(?a := fs ?a @ take n pend)) ?st (restarted w1)"
      using D(10) next_of_smaller
      by (intro recoverableI [OF alike_image [OF a _ img] entries_ok_take [OF ok cont]]) (simp, metis)
    then show ?thesis using n(1) by (rule result [rotated])
  qed
qed

text \<open>With a rollover: the segment file, the manifest and then the batch.\<close>

lemma rollover_stops:
  assumes ok: "store_ok C ms fs pend (s, restarted w)" and roll: "rollover_pending s"
    and ne: "fs (active_id s) \<noteq> []" and cont: "continues fs (st_state s) pend"
    and nxt: "next_segment_id (next_seg_id s) \<noteq> None"
    and wr: "op_writable C (bare (rollover_op s (fst (hd pend))))"
    and size: "MAGIC_LEN + length (frames_bytes C (fs (active_id s))) < 2 ^ 64"
    and run: "do_rollover C (fst (hd pend)) (s, w) = (Inl e, s1, w1)"
    and fx: "fixable C (restarted w1)"
  obtains (before) "recoverable C fs (st_state s) (restarted w1)"
  | (after) s2 w2 where "do_rollover C (fst (hd pend)) (s, restarted w) = (Inr (), s2\<lparr>rollover_pending := True\<rparr>, w2)"
      and "alike w2 w1"
proof -
  let ?i = "next_seg_id s" and ?st = "st_state s" and ?m = "bare (rollover_op s (fst (hd pend)))"
  note result = that
  note D = store_okD [OF ok]
  have i: "?i \<notin> set (ids_of ?st)" using D(10) by (auto simp: tracked_def)
  obtain y wc where y: "create_segment_file ?i w = (y, wc)" by fastforce
  have "create_segment_file ?i ((restarted w)\<lparr>faults := faults w\<rparr>) = (y, wc)" using y by simp
  note img = failed_create_image [OF D(1) i this]
  have nx: "next_segment_id j \<noteq> None" if "j \<in> on_disk wc" for j
  proof -
    have "j \<in> on_disk (restarted w) \<union> {?i}" using img(3) that by (auto simp: on_disk_def)
    then show ?thesis using store_ok_next [OF ok] nxt by blast
  qed
  show thesis
  proof (cases y)
    case (Inl e')
    then have w1: "w1 = wc" using run y by (simp add: do_rollover_def and_then_def on_world_def)
    have "recoverable C fs ?st (restarted wc)"
      by (intro recoverableI [OF img(1) D(3)] nx) (simp add: on_disk_def)
    then show ?thesis unfolding w1 [symmetric] by (rule before)
  next
    case (Inr h)
    have create: "create_segment_file ?i (restarted w) = (Inr h, restarted wc)"
      by (rule steadyD [OF steady_files(8) y [unfolded Inr]])
    obtain x s3 where c: "commit_op C ?m (s, wc) = (x, s3, w1)"
      using run y Inr by (auto simp: do_rollover_def and_then_def on_world_def
          split: prod.splits sum.splits option.splits)
    from rollover_ready [OF ok roll ne cont nxt wr size] obtain s2 w2 where
      r: "do_rollover C (fst (hd pend)) (s, restarted w) = (Inr (), s2\<lparr>rollover_pending := True\<rparr>, w2)" by metis
    then obtain s4 where c4: "commit_op C ?m (s, restarted wc) = (Inr (), s4, w2)"
      by (auto simp: do_rollover_def and_then_eq_Inr on_world_def create split: option.splits)
    then have "op_error ?st (the_op ?m) = None"
      by (auto simp: commit_op_def apply_manifest_op_result split: prod.splits sum.splits option.splits)
    then have w2: "w2 = snd (committed C ms ?m (s, restarted wc))"
      using commit_op_run [OF img(1) D(4,5), of ?m] c4 by (metis Pair_inject snd_conv prod.collapse)
    show ?thesis
    proof (rule op_stops_image [OF img(1) D(3-5) nx wr c fx])
      assume "recoverable C fs ?st (restarted w1)"
      then show ?thesis by (rule result(1))
    next
      assume "alike (snd (committed C ms ?m (s, restarted wc))) w1"
      then show ?thesis using r w2 by (intro result(2)) simp_all
    qed
  qed
qed

lemma rolling_write_stops:
  assumes ok: "store_ok C ms fs pend (s, restarted w)" and roll: "rollover_pending s"
    and ne: "fs (active_id s) \<noteq> []" and cont: "continues fs (st_state s) pend"
    and nxt: "next_segment_id (next_seg_id s) \<noteq> None"
    and wr: "op_writable C (bare (rollover_op s (fst (hd pend))))"
    and size: "MAGIC_LEN + length (frames_bytes C (fs (active_id s))) < 2 ^ 64"
    and run: "write_batch C (batch_of pend) (s, w) = (r, s1, w1)"
    and fx: "fixable C (restarted w1)"
  obtains (before) "recoverable C fs (st_state s) (restarted w1)"
  | (after) k st' where "k \<le> length pend" and "recoverable C (fs(next_seg_id s := take k pend)) st' (restarted w1)"
      and "segments st' = segments (st_state s) @ [\<lparr>se_id = next_seg_id s, se_first = fst (hd pend)\<rparr>]"
      and "head_entry st' = head_entry (st_state s)" and "metadata st' = metadata (st_state s)"
proof -
  let ?i = "next_seg_id s" and ?m = "bare (rollover_op s (fst (hd pend)))"
  note result = that
  have pne: "pend \<noteq> []" using cont by (simp add: continues_def)
  obtain s2 w2 where r: "do_rollover C (fst (hd pend)) (s, restarted w) = (Inr (), s2\<lparr>rollover_pending := True\<rparr>, w2)"
    "store_ok C (ms @ [?m]) (fs(?i := [])) pend (s2, w2)" "continues (fs(?i := [])) (st_state s2) pend"
    "rollover_pending s2 = False" "active_id s2 = ?i"
    "segments (st_state s2) = segments (st_state s) @ [\<lparr>se_id = ?i, se_first = fst (hd pend)\<rparr>]"
    "head_entry (st_state s2) = head_entry (st_state s)" "metadata (st_state s2) = metadata (st_state s)"
    by (rule rollover_ready [OF ok roll ne cont nxt wr size])
  obtain y s0 w0 where y: "do_rollover C (fst (hd pend)) (s, w) = (y, s0, w0)" by (metis prod_cases3)
  show thesis
  proof (cases y)
    case (Inl e)
    obtain m where "length pend = Suc m" using pne by (cases pend) auto
    then have "w1 = w0" using run y Inl roll pne
      by (simp add: write_batch_def batch_of_def and_then_def last_frame_id_def)
    note stop = rollover_stops [OF ok roll ne cont nxt wr size y [unfolded Inl], folded this, OF fx]
    show ?thesis
    proof (rule stop)
      assume "recoverable C fs (st_state s) (restarted w1)"
      then show ?thesis by (rule result(1))
    next
      fix s3 w3
      assume "do_rollover C (fst (hd pend)) (s, restarted w) = (Inr (), s3\<lparr>rollover_pending := True\<rparr>, w3)"
        and a: "alike w3 w1"
      then have "alike w2 (restarted w1)" using r(1) by simp
      from store_ok_recoverable [OF r(2) this]
      have "recoverable C (fs(?i := take 0 pend)) (st_state s2) (restarted w1)" by simp
      then show ?thesis by (rule result(2) [OF le0 _ r(6-8)])
    qed
  next
    case (Inr u)
    have "do_rollover C (fst (hd pend)) (s, restarted w) = (Inr u, s0, restarted w0)"
      by (rule steady_storeD [OF steady_do_rollover y [unfolded Inr]])
    then have s0: "s0 = s2\<lparr>rollover_pending := True\<rparr>" "w2 = restarted w0" using r(1) by simp_all
    have "s2\<lparr>rollover_pending := False\<rparr> = s2" using r(4) by (cases s2) simp
    then have "write_batch C (batch_of pend) (s2, w0) = (r, s1, w1)"
      using write_batch_after_rollover [OF roll pne, of C w s0 w0] y Inr run by (simp add: s0(1))
    from write_stops [OF r(2) [unfolded s0(2)] r(4,3) this]
    obtain k where "k \<le> length pend"
      "recoverable C ((fs(?i := []))(?i := (fs(?i := [])) ?i @ take k pend)) (st_state s2) (restarted w1)"
      unfolding r(5) by blast
    then show ?thesis by (intro result(2) [OF _ _ r(6-8)]) simp_all
  qed
qed

section \<open>Truncation at the end\<close>

lemma rollback_offset_stops: "alike w (snd (rollback_offset t start i w))"
proof -
  obtain r w1 where opn: "open_segment t w = (r, w1)" by fastforce
  have a: "alike w w1" using open_segment_stops(2) [of w t] opn by simp
  show ?thesis
  proof (cases r)
    case (Inl e)
    then show ?thesis using a by (simp add: rollback_offset_def and_then_def opn)
  next
    case (Inr x)
    obtain f off where x: "x = (f, off)" by (cases x)
    obtain sc where "scanner_new f start w1 = (sc, spend w1)"
      by (cases "next_outcome w1") (simp_all add: scanner_new_def read_stream_def Let_def)
    then have "snd (rollback_offset t start i w) = spend w1"
      by (simp add: rollback_offset_def and_then_def opn Inr x split: sum.split)
    moreover have "alike w (spend w1)" using a by (simp add: alike_def)
    ultimately show ?thesis by simp
  qed
qed

lemma cut_file_stops:
  assumes wf: "wf_world w" and c: "content w p = Some c" and n: "n \<le> length c"
    and run: "and_then (open_checked p magic) (\<lambda>(f, _). and_then (set_len f n) (\<lambda>_. sync_all f)) w = (r, w1)"
  obtains (no) "alike w w1" and "r \<noteq> Inr ()"
  | (yes) "alike (put_content p (take n c) w) w1"
proof -
  note result = that
  obtain y w2 where opn: "open_checked p magic w = (y, w2)" by fastforce
  have a: "alike w w2" using open_checked_stops [of w p magic] opn by simp
  show thesis
  proof (cases y)
    case (Inl e)
    then have "w1 = w2" "r = Inl e" using run opn by (simp_all add: and_then_def)
    with a show ?thesis by (intro result(1)) simp_all
  next
    case (Inr x)
    obtain f off where x: "x = (f, off)" by (cases x)
    have f: "path f = p"
      using opn open_checked_Inr unfolding Inr x by fastforce
    obtain z w3 where z: "set_len f n w2 = (z, w3)" by fastforce
    show ?thesis
    proof (cases z)
      case (Inl e)
      then have w3: "w3 = spend w2" using z by (auto simp: set_len_def call_def split: option.splits)
      have "w1 = w3" "r = Inl e" using run opn Inr x z Inl by (simp_all add: and_then_def)
      moreover have "alike w w3" using a by (simp add: w3 alike_def)
      ultimately show ?thesis by (intro result(1)) simp_all
    next
      case z': (Inr u)
      have "content w2 (path f) = Some c" using c alikeD(1) [OF a] f by simp
      then have w3: "w3 = put_content p (take n c) (give_up p n (spend w2))"
        using z z' n f by (auto simp: set_len_def call_def split: option.splits)
      obtain q w4 where sy: "sync_all f w3 = (q, w4)" by fastforce
      then have "entries w4 = entries w3" "base_dir_exists w4 = base_dir_exists w3"
        by (auto simp: sync_all_def call_def split: option.splits)
      moreover have "w1 = w4" using run opn Inr x z z' sy by (simp add: and_then_def)
      ultimately have a1: "alike w3 w1" by (simp add: alike_entries)
      have "alike (put_content p (take n c) w2) w3"
        unfolding w3 by (rule alike_entries) (simp_all add: put_content_def)
      moreover have "alike (put_content p (take n c) w) (put_content p (take n c) w2)"
        using alikeD(1-3) [OF a] wf wf_world_dir [OF wf c] by (simp add: alike_def)
      ultimately show ?thesis using a1 alike_trans by (intro result(2)) blast
    qed
  qed
qed

lemma cut_segment_stops:
  assumes "wf_world w" and "content w (segment_path t) = Some c" and "n \<le> length c" and "cut_segment t n w = (r, w1)"
  obtains (no) "alike w w1" and "r \<noteq> Inr ()"
  | (yes) "alike (put_content (segment_path t) (take n c) w) w1"
  using cut_file_stops [OF assms(1-3) assms(4) [unfolded cut_segment_def open_segment_rw_def]] by blast

text \<open>The first entries of the last segment.\<close>

lemma entries_ok_prefix:
  assumes eok: "entries_ok fs st" and wf: "wf_state st" and ids: "ids_of st = pre @ [t]"
    and fr: "fs t = keep @ lost"
  shows "entries_ok (fs(t := keep)) st"
proof -
  have dis: "distinct (ids_of st)" using wf by (simp add: wf_state_def)
  then have same: "map (fs(t := keep)) pre = map fs pre" by (auto simp: ids)
  have all: "concat (map fs (ids_of st)) = concat (map (fs(t := keep)) (ids_of st)) @ lost"
    unfolding ids map_append concat_append same by (simp add: fr)
  have sub: "set ((fs(t := keep)) j) \<subseteq> set (fs j)" for j by (auto simp: fr)
  have "sorted_wrt (<) (map fst (concat (map (fs(t := keep)) (ids_of st))))"
    using eok unfolding entries_ok_def entries_sorted_def all by (simp add: sorted_wrt_append)
  moreover have "\<forall>j \<in> set (butlast (ids_of st)). (fs(t := keep)) j \<noteq> []"
    using eok dis by (auto simp: entries_ok_def entries_sorted_def ids)
  ultimately have "entries_sorted (fs(t := keep)) (ids_of st)" by (simp add: entries_sorted_def)
  then show ?thesis using eok sub unfolding entries_ok_def by blast
qed

lemma rollback_target_live:
  assumes "rollback_target st i = Some (t, post)"
  shows "t \<in> set (ids_of st)"
proof -
  let ?p = "\<lambda>e. eid (se_first e) \<le> eid i"
  have ne: "segments st \<noteq> []" and t: "t = se_id (segments st ! (partition_point ?p (segments st) - 1))"
    using assms by (auto simp: rollback_target_def Let_def split: if_splits)
  have "partition_point ?p (segments st) - 1 < length (segments st)"
    using ne partition_point_le [of ?p "segments st"] by (cases "segments st") auto
  then show ?thesis unfolding t by simp
qed

lemma image_manifest_tail:
  assumes "crash_image C ms st fs mtail tail w" and "t = [] \<or> torn_piece C t \<and> length t < HEADER_LEN"
  shows "crash_image C ms st fs t tail (put_content MANIFEST_FILE_NAME (MANIFEST_MAGIC @ ops_bytes C ms @ t) w)"
  using assms unfolding crash_image_def by auto

lemma image_segment_put:
  assumes "crash_image C ms st fs mtail [] w" and "i \<in> set (ids_of st)" and "\<forall>f \<in> set new. fits f"
    and "\<And>info. seals st i = Some info \<Longrightarrow> unat (final_size info) = MAGIC_LEN + length (frames_bytes C new)"
  shows "crash_image C ms st (fs(i := new)) mtail [] (put_content (segment_path i) (SEGMENT_MAGIC @ frames_bytes C new) w)"
proof -
  have seals: "\<forall>j info. seals st j = Some info \<longrightarrow>
      unat (final_size info) = MAGIC_LEN + length (frames_bytes C ((fs(i := new)) j))"
  proof (intro allI impI)
    fix j info
    assume "seals st j = Some info"
    then show "unat (final_size info) = MAGIC_LEN + length (frames_bytes C ((fs(i := new)) j))"
      using assms(1) assms(4) [of info] unfolding crash_image_def by (cases "j = i") simp_all
  qed
  have segs: "\<forall>j \<in> set (ids_of st). (\<forall>f \<in> set ((fs(i := new)) j). fits f)
      \<and> content (put_content (segment_path i) (SEGMENT_MAGIC @ frames_bytes C new) w) (segment_path j)
        = Some (SEGMENT_MAGIC @ frames_bytes C ((fs(i := new)) j) @ tail_of st [] j)"
    using image_segment [OF assms(1)] assms(3) by (auto simp: tail_of_def)
  show ?thesis using assms(1) seals segs unfolding crash_image_def by auto
qed

text \<open>The segment file cut, with or without the header of the operation: either nothing was cut, or the
  segment is the active one; a sealed segment of another size does not open.\<close>

lemma cut_stops:
  assumes ok: "store_ok C ms fs pend (s, w)" and ids: "ids_of (st_state s) = pre @ t # post"
    and fr: "fs t = ps @ (EntryId i, q) # qs"
    and mt: "mt = [] \<or> torn_piece C mt \<and> length mt < HEADER_LEN"
    and a: "alike (put_content MANIFEST_FILE_NAME (MANIFEST_MAGIC @ ops_bytes C ms @ mt)
      (put_content (segment_path t) (SEGMENT_MAGIC @ frames_bytes C (ps @ [(EntryId i, q)])) w)) w1"
    and w1: "healthy w1" and fx: "fixable C w1"
  shows "recoverable C fs (st_state s) w1
    \<or> post = [] \<and> recoverable C (fs(t := ps @ [(EntryId i, q)])) (st_state s) w1"
proof -
  let ?st = "st_state s" and ?kept = "ps @ [(EntryId i, q)]"
  note D = store_okD [OF ok]
  note wd = image_world [OF D(1)]
  let ?w = "put_content MANIFEST_FILE_NAME (MANIFEST_MAGIC @ ops_bytes C ms @ mt)
      (put_content (segment_path t) (SEGMENT_MAGIC @ frames_bytes C ?kept) w)"
  have t: "t \<in> set (ids_of ?st)" by (simp add: ids)
  have fits: "\<forall>f \<in> set ?kept. fits f" using image_segment(2) [OF D(1) t] by (auto simp: fr)
  have whole: "qs = []" if "seals ?st t = Some info" for info
  proof -
    have c: "base_dir_exists w1" "content w1 MANIFEST_FILE_NAME = Some (MANIFEST_MAGIC @ ops_bytes C ms @ mt)"
      "content w1 (segment_path t) = Some (SEGMENT_MAGIC @ frames_bytes C ?kept)"
      using alikeD(1,2) [OF a] wd(3) by simp_all
    have "length (SEGMENT_MAGIC @ frames_bytes C ?kept) = unat (final_size info)"
      by (rule fixable_sizes [OF w1 c(1,2) wd(7,8) mt fx t that c(3)])
    also have "\<dots> = MAGIC_LEN + length (frames_bytes C (fs t))"
      using D(1) that unfolding crash_image_def by blast
    finally have "length (frames_bytes C qs) = 0" by (simp add: fr)
    then show ?thesis by (cases qs) (simp_all add: frame_len_def HEADER_LEN_def)
  qed
  have size: "unat (final_size info) = MAGIC_LEN + length (frames_bytes C ?kept)" if "seals ?st t = Some info" for info
  proof -
    have "unat (final_size info) = MAGIC_LEN + length (frames_bytes C (fs t))"
      using D(1) that unfolding crash_image_def by blast
    then show ?thesis using whole [OF that] by (simp add: fr)
  qed
  have img1: "crash_image C ms ?st (fs(t := ?kept)) [] []
      (put_content (segment_path t) (SEGMENT_MAGIC @ frames_bytes C ?kept) w)"
    by (rule image_segment_put [OF D(1) t fits size])
  have img: "crash_image C ms ?st (fs(t := ?kept)) mt [] w1"
    by (rule alike_image [OF a w1 image_manifest_tail [OF img1 mt]])
  have "on_disk w1 = on_disk w"
  proof -
    have "content w1 (segment_path j) = None \<longleftrightarrow> content w (segment_path j) = None" for j
      using alikeD(1) [OF a] image_segment(1) [OF D(1) t] by simp
    then show ?thesis by (simp add: on_disk_def)
  qed
  then have nxt: "next_segment_id j \<noteq> None" if "j \<in> on_disk w1" for j
    using store_ok_next [OF ok] that by simp
  show ?thesis
  proof (cases "qs = []")
    case True
    then have "fs(t := ?kept) = fs" using fr by (simp add: fun_upd_idem_iff)
    then show ?thesis using recoverableI [OF img] D(3) nxt by simp
  next
    case False
    then have "seals ?st t = None" using whole by (cases "seals ?st t") auto
    then have "t \<notin> set (butlast (ids_of ?st))" using wd(4) unfolding wf_state_def by blast
    then have post: "post = []" by (cases post) (simp_all add: ids butlast_append)
    then have "entries_ok (fs(t := ?kept)) ?st"
      using ids by (intro entries_ok_prefix [where fs = fs and lost = qs, OF D(3) wd(4)]) (simp_all add: fr)
    then show ?thesis using recoverableI [OF img] nxt post by simp
  qed
qed

lemma alike_stored:
  "alike (store_file n d (store_file m c w)) v = alike (put_content n d (put_content m c w)) v"
  by (simp add: alike_def store_file_def wf_world_def put_content_def save_file_def)

text \<open>The two writes of a rollback: the cut of the segment and the operation in the manifest.\<close>

lemma cut_and_commit_stops:
  assumes img: "crash_image C ms st fs [] [] w" and a: "alike w wa"
    and seg: "content w (segment_path t) = Some (SEGMENT_MAGIC @ frames_bytes C (kept @ lost))"
    and f: "manifest_file s = manifest_handle"
    and cur: "manifest_cursor s = cursor_new (MAGIC_LEN + length (ops_bytes C ms))" and m: "op_writable C m"
    and run: "and_then (on_world (cut_segment t (MAGIC_LEN + length (frames_bytes C kept))))
      (\<lambda>_. commit_op C m) (s, wa) = (r, s1, w1)" and fx: "fixable C (restarted w1)"
  obtains (uncut) "alike w w1"
  | (partly) mt where "mt = [] \<or> torn_piece C mt \<and> length mt < HEADER_LEN"
      and "alike (put_content MANIFEST_FILE_NAME (MANIFEST_MAGIC @ ops_bytes C ms @ mt)
        (put_content (segment_path t) (SEGMENT_MAGIC @ frames_bytes C kept) w)) w1"
  | (whole) "alike (put_content MANIFEST_FILE_NAME (MANIFEST_MAGIC @ ops_bytes C (ms @ [m]))
        (put_content (segment_path t) (SEGMENT_MAGIC @ frames_bytes C kept) w)) w1"
proof -
  note result = that
  let ?n = "MAGIC_LEN + length (frames_bytes C kept)" and ?c = "SEGMENT_MAGIC @ frames_bytes C (kept @ lost)"
  let ?w = "put_content (segment_path t) (SEGMENT_MAGIC @ frames_bytes C kept) w"
  note wd = image_world [OF img]
  have wa: "wf_world wa" "content wa (segment_path t) = Some ?c" "?n \<le> length ?c"
    using alikeD(1,3) [OF a] wd(2) seg by simp_all
  have tk: "take ?n ?c = SEGMENT_MAGIC @ frames_bytes C kept" by simp
  have cut: "alike ?w wb" if "alike (put_content (segment_path t) (take ?n ?c) wa) wb" for wb
    using that alikeD(1-3) [OF a] wa(1) wd(2,3) unfolding tk by (simp add: alike_def)
  obtain z wb where z: "cut_segment t ?n wa = (z, wb)" by fastforce
  show thesis
  proof (cases z)
    case (Inl e)
    then have w1: "w1 = wb" using run z by (simp add: and_then_def on_world_def)
    show ?thesis
    proof (rule cut_segment_stops [OF wa z])
      assume "alike wa wb"
      then show ?thesis using a alike_trans w1 by (intro result(1)) blast
    next
      assume "alike (put_content (segment_path t) (take ?n ?c) wa) wb"
      then have "alike ?w wb" by (rule cut)
      moreover have "alike (put_content MANIFEST_FILE_NAME (MANIFEST_MAGIC @ ops_bytes C ms @ []) ?w) ?w"
        using wd(2,3,6) by (simp add: alike_def)
      ultimately have "alike (put_content MANIFEST_FILE_NAME (MANIFEST_MAGIC @ ops_bytes C ms @ []) ?w) w1"
        unfolding w1 by (rule alike_trans [rotated])
      then show ?thesis by (rule result(2) [rotated]) simp
    qed
  next
    case (Inr u)
    then have com: "commit_op C m (s, wb) = (r, s1, w1)" using run z by (simp add: and_then_def on_world_def)
    have "alike (put_content (segment_path t) (take ?n ?c) wa) wb"
      by (rule cut_segment_stops [OF wa z]) (use Inr in simp_all)
    then have b: "alike ?w wb" by (rule cut)
    have manifest: "content wb MANIFEST_FILE_NAME = Some (MANIFEST_MAGIC @ ops_bytes C ms)" "base_dir_exists wb"
      using alikeD(1,2) [OF b] wd(3,6) by simp_all
    have again: "alike (put_content MANIFEST_FILE_NAME d ?w) w1" if "alike (put_content MANIFEST_FILE_NAME d wb) w1" for d
      using that alikeD(1-3) [OF b] wd(2,3) by (simp add: alike_def)
    show ?thesis
      by (rule commit_op_writes [OF com f cur], rule stopped_op [OF manifest wd(7,8) m _ fx], assumption)
         (use again result(2,3) in blast)+
  qed
qed

lemma truncate_end_steps:
  assumes "last_entry s = Some l" and "EntryId i < l" and "rollback_target (st_state s) (EntryId i) = Some (t, post)"
    and "start_offset (st_index s) t (EntryId i) = MAGIC_LEN"
    and "rollback_offset t MAGIC_LEN (EntryId i) w = (Inr n, wa)" and "store_truncate_end C i (s, w) = (r, s1, w1)"
  obtains x s3 where "and_then (on_world (cut_segment t n))
    (\<lambda>_. commit_op C (bare (TruncateEnd t (of_nat n) post))) (s, wa) = (x, s3, w1)"
proof -
  let ?two = "and_then (on_world (cut_segment t n)) (\<lambda>_. commit_op C (bare (TruncateEnd t (of_nat n) post)))"
  obtain x s3 w3 where x: "?two (s, wa) = (x, s3, w3)" by (metis prod_cases3)
  have more: "\<not> l \<le> EntryId i" using assms(2) by simp
  obtain g where "store_truncate_end C i (s, w) = and_then ?two (\<lambda>_. update_store g) (s, wa)"
    using assms(1,3,4) more unfolding and_then_assoc
    by (simp add: store_truncate_end_def Let_def on_world_def [of "rollback_offset t MAGIC_LEN (EntryId i)"]
        and_then_def [of "\<lambda>(s, w). case rollback_offset t MAGIC_LEN (EntryId i) w of (r, w') \<Rightarrow> (r, s, w')"] assms(5))
  then have "w3 = w1" using assms(6) x by (cases x) (simp_all add: and_then_def [of ?two] update_store_def)
  with x show thesis by (intro that) simp
qed

lemma truncate_end_stops:
  assumes ok: "store_ok C ms fs pend (s, restarted w)"
    and fit: "\<And>t post. rollback_target (st_state s) (EntryId i) = Some (t, post) \<Longrightarrow>
      start_offset (st_index s) t (EntryId i) = MAGIC_LEN \<and> (\<forall>off. op_writable C (bare (TruncateEnd t off post)))"
    and run: "store_truncate_end C i (s, w) = (r, s1, w1)"
    and fx: "fixable C (restarted w1)"
  obtains (before) "recoverable C fs (st_state s) (restarted w1)"
  | (after) s2 w2 where "store_truncate_end C i (s, restarted w) = (Inr (), s2, w2)" and "alike w2 w1"
  | (cut) pre t ps q qs where "ids_of (st_state s) = pre @ [t]" and "fs t = ps @ (EntryId i, q) # qs"
      and "recoverable C (fs(t := ps @ [(EntryId i, q)])) (st_state s) (restarted w1)"
proof -
  let ?st = "st_state s"
  note result = that
  note D = store_okD [OF ok]
  note wd = image_world [OF D(1)]
  have unchanged: thesis if "alike w w1"
    using store_ok_recoverable [OF ok, of "restarted w1"] that by (intro result(1)) simp
  consider (early) "w1 = w"
    | (runs) l t post where "last_entry s = Some l" "EntryId i < l" "rollback_target ?st (EntryId i) = Some (t, post)"
    using run by (cases "last_entry s"; cases "rollback_target ?st (EntryId i)")
      (auto simp: store_truncate_end_def Let_def not_le [symmetric] split: if_splits)
  then show thesis
  proof cases
    case early
    then show ?thesis by (intro unchanged) simp
  next
    case runs
    note l = runs(1,2) and target = runs(3)
    note start = conjunct1 [OF fit [OF target]]
    have more: "\<not> l \<le> EntryId i" using l(2) by simp
    obtain y wa where y: "rollback_offset t MAGIC_LEN (EntryId i) w = (y, wa)" by fastforce
    have a: "alike w wa" using rollback_offset_stops [of w t MAGIC_LEN "EntryId i"] y by simp
    show ?thesis
    proof (cases y)
      case (Inl e)
      then have "w1 = wa" using run l(1) more target start y
        by (simp add: store_truncate_end_def and_then_def on_world_def)
      then show ?thesis using a by (intro unchanged) simp
    next
      case y': (Inr n)
      have read: "rollback_offset t MAGIC_LEN (EntryId i) (restarted w) = (Inr n, restarted wa)"
        by (rule steadyD [OF steady_rollback_offset y [unfolded y']])
      have t: "t \<in> set (ids_of ?st)" by (rule rollback_target_live [OF target])
      then obtain pre post' where ids': "ids_of ?st = pre @ t # post'" by (meson split_list)
      have "EntryId i \<in> fst ` set (fs t)"
        using rollback_offset_missing [OF ok t] read by force
      then obtain q where q: "(EntryId i, q) \<in> set (fs t)" by force
      then obtain ps qs where fr: "fs t = ps @ (EntryId i, q) # qs" by (meson split_list)
      have "post = post'" using rollback_target_found [OF wd(4) D(3) ids' q] target by simp
      then have ids: "ids_of ?st = pre @ t # post" using ids' by simp
      let ?kept = "ps @ [(EntryId i, q)]" and ?m = "bare (TruncateEnd t (of_nat n) post)"
      have wm: "op_writable C ?m" using fit [OF target] by blast
      have n: "n = MAGIC_LEN + length (frames_bytes C ?kept)"
        using rollback_offset_read [where p = q, OF ok t fr, of MAGIC_LEN] read by simp
      have c: "content (restarted w) (segment_path t) = Some (SEGMENT_MAGIC @ frames_bytes C (?kept @ qs))"
        using image_segment(1) [OF D(1) t] by (simp add: tail_of_def fr)
      have a': "alike (restarted w) wa" using a by simp
      obtain x s3 where x: "and_then (on_world (cut_segment t n)) (\<lambda>_. commit_op C ?m) (s, wa) = (x, s3, w1)"
        by (rule truncate_end_steps [OF l target start y [unfolded y'] run])
      let ?m' = "bare (TruncateEnd t (of_nat (MAGIC_LEN + length (frames_bytes C ?kept))) post)"
      show ?thesis
      proof (rule cut_and_commit_stops [OF D(1) a' c D(4,5) wm [unfolded n] x [unfolded n] fx])
        assume "alike (restarted w) w1"
        then show ?thesis by (intro unchanged) simp
      next
        fix mt
        assume "mt = [] \<or> torn_piece C mt \<and> length mt < HEADER_LEN"
          and "alike (put_content MANIFEST_FILE_NAME (MANIFEST_MAGIC @ ops_bytes C ms @ mt)
            (put_content (segment_path t) (SEGMENT_MAGIC @ frames_bytes C ?kept) (restarted w))) w1"
        from cut_stops [OF ok ids fr this(1), of "restarted w1"] this(2) fx result(1) result(3) ids fr
        show ?thesis by (metis alike_restarted(1) restarted_simps(1))
      next
        assume whole: "alike (put_content MANIFEST_FILE_NAME (MANIFEST_MAGIC @ ops_bytes C (ms @ [?m']))
            (put_content (segment_path t) (SEGMENT_MAGIC @ frames_bytes C ?kept) (restarted w))) w1"
        obtain s2 w2 where r: "store_truncate_end C i (s, restarted w) = (Inr (), s2, w2)"
          and w2: "w2 = store_file MANIFEST_FILE_NAME (MANIFEST_MAGIC @ ops_bytes C (ms @ [?m']))
            (store_file (segment_path t) (SEGMENT_MAGIC @ frames_bytes C ?kept) (restarted w))"
          using truncate_end_run [OF ok l ids fr start refl wm [unfolded n]] by blast
        have "alike w2 w1" using whole by (simp only: w2 alike_stored)
        with r show ?thesis by (rule result(2))
      qed
    qed
  qed
qed

end
