(* ===== verification/Reopening.thy ===== *)
theory Reopening
  imports Store_Stops
begin

text \<open>
  Opening a store whose recovery (\<^verbatim>\<open>src/recovery.rs\<close>) the device stops, and opening it again, any number of
  times. Each fix-up that stops leaves a directory that can be fixed or one with a torn manifest
  operation, and no number of further attempts opens the latter; so when the store opens in the end, it
  is the one a single recovery would have found.
\<close>

section \<open>Fix-ups that stop\<close>

lemma steady_io_error [steady_rules]: "steady_io m \<Longrightarrow> steady restarted (io_error m)"
  unfolding io_error_def by (rule steady_map_err)

lemma steady_append_op [steady_rules]: "steady restarted (append_manifest_op C p)"
proof -
  have "steady_io (\<lambda>w. case write_op C f m (cursor_new off, w) of (r, _, w') \<Rightarrow> (r, w'))" for f m off
  proof (rule steadyI)
    fix w a t
    assume r: "(case write_op C f m (cursor_new off, w) of (r, _, w') \<Rightarrow> (r, w')) = (Inr a, t)"
    obtain x cur w1 where x: "write_op C f m (cursor_new off, w) = (x, cur, w1)" by (metis prod_cases3)
    then have "write_op C f m (cursor_new off, w) = (Inr (), cur, t)" using r by simp
    from steady_write_op [OF this]
    show "(case write_op C f m (cursor_new off, restarted w) of (r, _, w') \<Rightarrow> (r, w')) = (Inr a, restarted t)"
      by simp
  qed
  then show ?thesis
    unfolding append_manifest_op_def case_prod_unfold by (intro steady_rules)
qed

lemma steady_fix_up [steady_rules]: "steady restarted (apply_fix_up C a)"
  by (cases a; simp add: truncate_manifest_def truncate_segment_def create_active_segment_def
      dead_segment_missing_def orphan_found_def case_prod_unfold; intro steady_rules)

text \<open>A recovery from one condition to another, with what holds where it stops.\<close>

definition repairs :: "'f crates \<Rightarrow> (world \<Rightarrow> bool) \<Rightarrow> (world \<Rightarrow> bool) \<Rightarrow> (world \<Rightarrow> bool) \<Rightarrow> unit recovering \<Rightarrow> bool" where
  "repairs C H P Q m \<longleftrightarrow> (\<forall>w r w1. P (restarted w) \<longrightarrow> m w = (r, w1) \<longrightarrow>
     (case r of Inr _ \<Rightarrow> Q (restarted w1) | Inl _ \<Rightarrow> fixable C (restarted w1) \<longrightarrow> H (restarted w1)))"

lemma repairsI:
  assumes "steady restarted m"
    and "\<And>w. P w \<Longrightarrow> \<exists>w'. m w = (Inr (), w') \<and> Q w'"
    and "\<And>w e w1. P (restarted w) \<Longrightarrow> m w = (Inl e, w1) \<Longrightarrow> fixable C (restarted w1) \<Longrightarrow> H (restarted w1)"
  shows "repairs C H P Q m"
  unfolding repairs_def
proof (intro allI impI)
  fix w r w1
  assume p: "P (restarted w)" and r: "m w = (r, w1)"
  show "case r of Inr _ \<Rightarrow> Q (restarted w1) | Inl _ \<Rightarrow> fixable C (restarted w1) \<longrightarrow> H (restarted w1)"
  proof (cases r)
    case (Inl e)
    then show ?thesis using assms(3) [OF p] r by simp
  next
    case (Inr a)
    then show ?thesis using assms(2) [OF p] steadyD [OF assms(1), of w] r by fastforce
  qed
qed

lemma repairsD:
  assumes "repairs C H P Q m" and "P (restarted w)" and "m w = (r, w1)" and "r = Inr () \<or> fixable C (restarted w1)"
  shows "Q (restarted w1) \<or> H (restarted w1)"
  using assms unfolding repairs_def by (cases r) fastforce+

lemma repairs_nothing: "repairs C H P P (for_each f [])"
  by (simp add: repairs_def ok_def)

lemma repairs_and_then:
  assumes "repairs C H P Q m" and "repairs C H Q R n"
  shows "repairs C H P R (and_then m (\<lambda>_. n))"
  unfolding repairs_def
proof (intro allI impI)
  fix w r w1
  assume p: "P (restarted w)" and r: "and_then m (\<lambda>_. n) w = (r, w1)"
  obtain x w2 where x: "m w = (x, w2)" by fastforce
  then have "case x of Inr _ \<Rightarrow> Q (restarted w2) | Inl _ \<Rightarrow> fixable C (restarted w2) \<longrightarrow> H (restarted w2)"
    using assms(1) p unfolding repairs_def by blast
  then show "case r of Inr _ \<Rightarrow> R (restarted w1) | Inl _ \<Rightarrow> fixable C (restarted w1) \<longrightarrow> H (restarted w1)"
    using assms(2) r x unfolding repairs_def by (cases x) (auto simp: and_then_def)
qed

lemma repairs_single: "repairs C H P Q (f x) \<Longrightarrow> repairs C H P Q (for_each f [x])"
  using repairs_and_then [OF _ repairs_nothing [of C H Q f]] by simp

lemma repairs_append:
  "repairs C H P Q (for_each f xs) \<Longrightarrow> repairs C H Q R (for_each f ys) \<Longrightarrow> repairs C H P R (for_each f (xs @ ys))"
  unfolding for_each_append by (rule repairs_and_then)

section \<open>The fix-ups of a crash image\<close>

text \<open>A crash image on the way: the dead segments, what stands behind the manifest's operations and
  behind the frames of the active segment.\<close>

definition between :: "'f crates \<Rightarrow> (segment_id \<Rightarrow> frame list) \<Rightarrow> store_state \<Rightarrow> segment_id set
    \<Rightarrow> segment_id set \<Rightarrow> bytes \<Rightarrow> bytes \<Rightarrow> world \<Rightarrow> bool" where
  "between C fs st X D mtail tail w \<longleftrightarrow>
     (\<exists>ms. crash_image C ms (with_dead D st) fs mtail tail w) \<and> on_disk w = X"

definition halfway :: "'f crates \<Rightarrow> (segment_id \<Rightarrow> frame list) \<Rightarrow> store_state \<Rightarrow> segment_id set \<Rightarrow> world \<Rightarrow> bool" where
  "halfway C fs st X w \<longleftrightarrow> (\<exists>D mtail tail. between C fs st X D mtail tail w)"

lemma betweenI: "crash_image C ms (with_dead D st) fs mtail tail w \<Longrightarrow> on_disk w = X
    \<Longrightarrow> between C fs st X D mtail tail w"
  unfolding between_def by blast

lemma betweenE:
  assumes "between C fs st X D mtail tail w"
  obtains ms where "crash_image C ms (with_dead D st) fs mtail tail w" and "on_disk w = X"
  using assms unfolding between_def by blast

lemma halfwayI: "between C fs st X D mtail tail w \<Longrightarrow> halfway C fs st X w"
  unfolding halfway_def by blast

lemma alike_halfway:
  assumes "between C fs st X D mtail tail w" and "alike w w1" and "healthy w1"
  shows "halfway C fs st X w1"
  using assms(1) alike_image [OF assms(2,3)] alikeD(4) [OF assms(2)] unfolding between_def halfway_def by metis

lemma io_error_Inl: "io_error m w = (Inl e, w1) \<Longrightarrow> \<exists>e'. m w = (Inl e', w1)"
  by (auto simp: io_error_def map_err_def split: prod.splits sum.splits)

lemma io_error_and_then: "io_error (and_then m f) = and_then (io_error m) (\<lambda>a. io_error (f a))"
  by (rule ext) (simp add: io_error_def map_err_def and_then_def split: prod.split sum.split)

lemma truncations:
  "truncate_manifest n = io_error (and_then (open_checked MANIFEST_FILE_NAME MANIFEST_MAGIC)
     (\<lambda>(f, _). and_then (set_len f n) (\<lambda>_. sync_all f)))"
  "truncate_segment i n = io_error (and_then (open_checked (segment_path i) SEGMENT_MAGIC)
     (\<lambda>(f, _). and_then (set_len f n) (\<lambda>_. sync_all f)))"
  by (simp_all add: truncate_manifest_def truncate_segment_def open_manifest_rw_def open_segment_rw_def
      io_error_and_then case_prod_unfold)

lemma repairs_manifest:
  "repairs C (halfway C fs st X) (\<lambda>w. crash_image C ms (with_dead D st) fs mtail tail w \<and> on_disk w = X)
    (between C fs st X D [] tail) (apply_fix_up C (TruncateManifest (MAGIC_LEN + length (ops_bytes C ms))))"
proof (rule repairsI [OF steady_fix_up])
  let ?n = "MAGIC_LEN + length (ops_bytes C ms)"
  show "\<exists>w'. apply_fix_up C (TruncateManifest ?n) w = (Inr (), w') \<and> between C fs st X D [] tail w'"
    if "crash_image C ms (with_dead D st) fs mtail tail w \<and> on_disk w = X" for w
    using image_cut_manifest [OF conjunct1 [OF that]] that betweenI by (metis apply_fix_up.simps(1))
next
  let ?n = "MAGIC_LEN + length (ops_bytes C ms)"
  fix w e w1
  assume w: "crash_image C ms (with_dead D st) fs mtail tail (restarted w) \<and> on_disk (restarted w) = X"
    and r: "apply_fix_up C (TruncateManifest ?n) w = (Inl e, w1)"
  note img = conjunct1 [OF w]
  note wd = image_world [OF img]
  obtain e' where e': "and_then (open_checked MANIFEST_FILE_NAME MANIFEST_MAGIC)
      (\<lambda>(f, _). and_then (set_len f ?n) (\<lambda>_. sync_all f)) w = (Inl e', w1)"
    using r io_error_Inl unfolding apply_fix_up.simps truncations by blast
  have c: "content w MANIFEST_FILE_NAME = Some (MANIFEST_MAGIC @ ops_bytes C ms @ mtail)" "wf_world w"
    using wd(2,6) by simp_all
  have before: "between C fs st X D mtail tail (restarted w)" using w by (intro betweenI [OF img]) simp
  show "halfway C fs st X (restarted w1)"
  proof (rule cut_file_stops [OF c(2,1) _ e'])
    assume "alike w w1"
    then show ?thesis by (intro alike_halfway [OF before]) simp_all
  next
    let ?w = "put_content MANIFEST_FILE_NAME (MANIFEST_MAGIC @ ops_bytes C ms @ []) (restarted w)"
    assume "alike (put_content MANIFEST_FILE_NAME (take ?n (MANIFEST_MAGIC @ ops_bytes C ms @ mtail)) w) w1"
    then have a: "alike ?w (restarted w1)" by simp
    have "between C fs st X D [] tail ?w"
      using w by (intro betweenI [OF image_manifest_tail [OF img]]) (simp_all add: on_disk_def)
    then show ?thesis by (rule alike_halfway [OF _ a]) simp
  qed simp
qed

lemma repairs_segment:
  assumes i: "i = last (ids_of st)"
  shows "repairs C (halfway C fs st X) (between C fs st X D [] tail) (between C fs st X D [] [])
    (apply_fix_up C (TruncateSegment i (MAGIC_LEN + length (frames_bytes C (fs i)))))"
proof (rule repairsI [OF steady_fix_up])
  let ?n = "MAGIC_LEN + length (frames_bytes C (fs i))"
  show "\<exists>w'. apply_fix_up C (TruncateSegment i ?n) w = (Inr (), w') \<and> between C fs st X D [] [] w'"
    if between: "between C fs st X D [] tail w" for w
  proof -
    obtain ms where img: "crash_image C ms (with_dead D st) fs [] tail w" and d: "on_disk w = X"
      by (rule betweenE [OF between])
    have i': "i = last (ids_of (with_dead D st))" using i by simp
    show ?thesis using image_cut_segment [OF img i'] d betweenI by (metis apply_fix_up.simps(2))
  qed
next
  let ?n = "MAGIC_LEN + length (frames_bytes C (fs i))"
  fix w e w1
  assume w: "between C fs st X D [] tail (restarted w)" and r: "apply_fix_up C (TruncateSegment i ?n) w = (Inl e, w1)"
  obtain ms where img: "crash_image C ms (with_dead D st) fs [] tail (restarted w)" and d: "on_disk (restarted w) = X"
    by (rule betweenE [OF w])
  note wd = image_world [OF img]
  obtain e' where e': "and_then (open_checked (segment_path i) SEGMENT_MAGIC)
      (\<lambda>(f, _). and_then (set_len f ?n) (\<lambda>_. sync_all f)) w = (Inl e', w1)"
    using r io_error_Inl unfolding apply_fix_up.simps truncations by blast
  have act: "active_segment_id st = Some i" and mem: "i \<in> set (ids_of (with_dead D st))"
    using wd(4,5) i last_in_set [of "ids_of st"] by (simp_all add: wf_state_def)
  have c: "content w (segment_path i) = Some (SEGMENT_MAGIC @ frames_bytes C (fs i) @ tail)" "wf_world w"
    using image_segment(1) [OF img mem] act wd(2) by (simp_all add: tail_of_def)
  show "halfway C fs st X (restarted w1)"
  proof (rule cut_file_stops [OF c(2,1) _ e'])
    assume "alike w w1"
    then show ?thesis by (intro alike_halfway [OF w]) simp_all
  next
    let ?w = "put_content (segment_path i) (SEGMENT_MAGIC @ frames_bytes C (fs i)) (restarted w)"
    assume "alike (put_content (segment_path i) (take ?n (SEGMENT_MAGIC @ frames_bytes C (fs i) @ tail)) w) w1"
    then have a: "alike ?w (restarted w1)" by simp
    have "crash_image C ms (with_dead D st) fs [] [] ?w"
      using img act mem by (auto simp: crash_image_def tail_of_def)
    moreover have "on_disk ?w = X" using d c(1) by (auto simp: on_disk_def)
    ultimately have "between C fs st X D [] [] ?w" by (rule betweenI)
    then show ?thesis by (rule alike_halfway [OF _ a]) simp
  qed simp
qed

text \<open>Appending an operation that only changes the dead segments.\<close>

lemma append_op_stops:
  assumes c: "content w MANIFEST_FILE_NAME = Some (MANIFEST_MAGIC @ ops_bytes C ms)"
    and w: "base_dir_exists w" "wf_world w"
    and ms: "run_ops ms = Some st" "\<forall>m \<in> set ms. op_writable C m" "op_writable C (bare p)"
    and run: "append_manifest_op C p w = (r, w1)" and fx: "fixable C (restarted w1)"
  obtains (cut) t where "t = [] \<or> torn_piece C t \<and> length t < HEADER_LEN"
      and "alike (put_content MANIFEST_FILE_NAME (MANIFEST_MAGIC @ ops_bytes C ms @ t) w) w1"
  | (whole) "alike (put_content MANIFEST_FILE_NAME (MANIFEST_MAGIC @ ops_bytes C (ms @ [bare p])) w) w1"
proof -
  note result = that
  let ?off = "MAGIC_LEN + length (ops_bytes C ms)"
  have unchanged: thesis if "alike w w1"
    using that c w by (intro result(1) [of "[]"]) (simp_all add: alike_def)
  obtain y w2 where y: "open_manifest_rw w = (y, w2)" by fastforce
  have a2: "alike w w2" using open_checked_stops [of w MANIFEST_FILE_NAME MANIFEST_MAGIC] y
    by (simp add: open_manifest_rw_def)
  note eqns = append_manifest_op_def and_then_def io_error_def map_err_def metadata_len_def call_def manifest_handle_def
  show thesis
  proof (cases y)
    case (Inl e)
    then have "w1 = w2" using run y by (simp add: eqns)
    then show ?thesis using a2 unchanged by simp
  next
    case (Inr x)
    then have x: "x = (manifest_handle, MAGIC_LEN)"
      using y open_checked_Inr unfolding open_manifest_rw_def manifest_handle_def by (cases x) fastforce
    have a: "alike w (spend w2)" using a2 by (simp add: alike_def)
    have c2: "content (spend w2) MANIFEST_FILE_NAME = Some (MANIFEST_MAGIC @ ops_bytes C ms)" "base_dir_exists (spend w2)"
      using alikeD(1,2) [OF a] c w(1) by (simp_all only:)
    show ?thesis
    proof (cases "next_outcome w2")
      case (Some k)
      then have "w1 = spend w2" using run y c2(1) by (simp add: eqns Inr x)
      then show ?thesis using a unchanged by simp
    next
      case None
      obtain z cur w3 where z: "write_op C manifest_handle (bare p) (cursor_new ?off, spend w2) = (z, cur, w3)"
        by (metis prod_cases3)
      have "w1 = w3" using run y c2(1) z None by (cases z) (simp_all add: eqns Inr x)
      then have fx3: "fixable C (restarted w3)" and "w1 = w3" using fx by simp_all
      have put: "alike (put_content MANIFEST_FILE_NAME d w) w1" if "alike (put_content MANIFEST_FILE_NAME d (spend w2)) w3" for d
        using that alikeD(1-3) [OF a] w \<open>w1 = w3\<close> by (simp add: alike_def)
      show ?thesis
        by (rule stopped_op [OF c2 ms z fx3]) (use put result in blast)+
    qed
  qed
qed

lemma repairs_append_op:
  assumes wr: "op_writable C (bare p)" and err: "op_error (with_dead D st) p = None"
    and st: "snd (apply_op p (with_dead D st)) = with_dead D' st" and dis: "set (ids_of st) \<inter> D' = {}"
  shows "repairs C (halfway C fs st X) (between C fs st X D [] tail) (between C fs st X D' [] tail)
    (append_manifest_op C p)"
proof (rule repairsI [OF steady_append_op])
  fix w
  assume "between C fs st X D [] tail w"
  then obtain ms where img: "crash_image C ms (with_dead D st) fs [] tail w" and d: "on_disk w = X"
    by (rule betweenE)
  have wf: "wf_state (snd (apply_op p (with_dead D st)))"
    using image_world(4) [OF img] dis unfolding st by (simp add: wf_state_def)
  obtain w' where "append_manifest_op C p w = (Inr (), w')"
    "crash_image C (ms @ [bare p]) (with_dead D' st) fs [] tail w'" "on_disk w' = on_disk w"
    by (rule image_append [OF img wr err wf, unfolded st]) simp_all
  then show "\<exists>w'. append_manifest_op C p w = (Inr (), w') \<and> between C fs st X D' [] tail w'"
    using d betweenI by metis
next
  fix w e w1
  assume w: "between C fs st X D [] tail (restarted w)" and r: "append_manifest_op C p w = (Inl e, w1)"
    and fx: "fixable C (restarted w1)"
  obtain ms where img: "crash_image C ms (with_dead D st) fs [] tail (restarted w)" and d: "on_disk (restarted w) = X"
    by (rule betweenE [OF w])
  note wd = image_world [OF img]
  have c: "content w MANIFEST_FILE_NAME = Some (MANIFEST_MAGIC @ ops_bytes C ms)" "base_dir_exists w" "wf_world w"
    using wd(2,3,6) by simp_all
  let ?w = "\<lambda>t. put_content MANIFEST_FILE_NAME (MANIFEST_MAGIC @ ops_bytes C ms @ t) (restarted w)"
  show "halfway C fs st X (restarted w1)"
  proof (rule append_op_stops [OF c wd(7,8) wr r fx])
    fix t
    assume t: "t = [] \<or> torn_piece C t \<and> length t < HEADER_LEN"
      and "alike (put_content MANIFEST_FILE_NAME (MANIFEST_MAGIC @ ops_bytes C ms @ t) w) w1"
    then have a: "alike (?w t) (restarted w1)" by simp
    have "between C fs st X D t tail (?w t)"
      using d by (intro betweenI [OF image_manifest_tail [OF img t]]) (simp add: on_disk_def)
    then show ?thesis by (rule alike_halfway [OF _ a]) simp
  next
    let ?v = "put_content MANIFEST_FILE_NAME (MANIFEST_MAGIC @ ops_bytes C (ms @ [bare p])) (restarted w)"
    assume "alike (put_content MANIFEST_FILE_NAME (MANIFEST_MAGIC @ ops_bytes C (ms @ [bare p])) w) w1"
    then have a: "alike ?v (restarted w1)" by (simp del: map_append)
    have "run_ops (ms @ [bare p]) = Some (with_dead D' st)"
      using run_ops_snoc [OF wd(7), of "bare p"] err st by (simp add: bare_def apply_manifest_op_result)
    moreover have "wf_state (with_dead D' st)" using wd(4) dis by (simp add: wf_state_def)
    ultimately have "crash_image C (ms @ [bare p]) (with_dead D' st) fs [] tail ?v"
      using img wr unfolding crash_image_def by (auto simp: tail_of_def)
    then have "between C fs st X D' [] tail ?v" using d by (intro betweenI) (simp_all add: on_disk_def)
    then show ?thesis by (rule alike_halfway [OF _ a]) simp
  qed
qed

lemma repairs_orphans:
  assumes "recovery_writable C" and "set is \<inter> set (ids_of st) = {}" and "set (ids_of st) \<inter> D = {}"
  shows "repairs C (halfway C fs st X) (between C fs st X D [] tail) (between C fs st X (D \<union> set is) [] tail)
    (for_each (\<lambda>i. apply_fix_up C (OrphanFound i)) is)"
  using assms(2,3)
proof (induction "is" arbitrary: D)
  case Nil
  then show ?case by (simp add: repairs_def)
next
  case (Cons i js)
  have "repairs C (halfway C fs st X) (between C fs st X D [] tail) (between C fs st X (insert i D) [] tail)
      (apply_fix_up C (OrphanFound i))"
    unfolding apply_fix_up.simps orphan_found_def
    by (rule repairs_append_op) (use assms(1) Cons.prems in \<open>simp_all add: recovery_writable_def\<close>)
  moreover have "repairs C (halfway C fs st X) (between C fs st X (insert i D) [] tail)
      (between C fs st X (insert i D \<union> set js) [] tail) (for_each (\<lambda>i. apply_fix_up C (OrphanFound i)) js)"
    using Cons.prems by (intro Cons.IH) auto
  ultimately show ?case using repairs_and_then by simp
qed

lemma repairs_missing:
  assumes "recovery_writable C" and "set is \<subseteq> D" and "distinct is" and "set (ids_of st) \<inter> D = {}"
  shows "repairs C (halfway C fs st X) (between C fs st X D [] tail) (between C fs st X (D - set is) [] tail)
    (for_each (\<lambda>i. apply_fix_up C (DeadSegmentMissing i)) is)"
  using assms(2-4)
proof (induction "is" arbitrary: D)
  case Nil
  then show ?case by (simp add: repairs_def)
next
  case (Cons i js)
  have "repairs C (halfway C fs st X) (between C fs st X D [] tail) (between C fs st X (D - {i}) [] tail)
      (apply_fix_up C (DeadSegmentMissing i))"
    unfolding apply_fix_up.simps dead_segment_missing_def
    by (rule repairs_append_op)
       (use assms(1) Cons.prems in \<open>auto simp: recovery_writable_def segment_deleted_def\<close>)
  moreover have "repairs C (halfway C fs st X) (between C fs st X (D - {i}) [] tail)
      (between C fs st X (D - {i} - set js) [] tail) (for_each (\<lambda>i. apply_fix_up C (DeadSegmentMissing i)) js)"
    using Cons.prems by (intro Cons.IH) auto
  moreover have "D - {i} - set js = D - set (i # js)" by auto
  ultimately show ?case using repairs_and_then by simp
qed

lemma recovery_stops:
  assumes img: "crash_image C ms st fs mtail tail (restarted w)" and wr: "recovery_writable C" and ord: "order_ok C"
    and iss: "report_issues report = image_issues C ms st fs mtail tail (restarted w)"
    and run: "attempt_recovery C report b w = (r, w1)" and fx: "r = Inr () \<or> fixable C (restarted w1)"
  shows "halfway C fs st (on_disk w) (restarted w1)"
proof -
  let ?f = "\<lambda>fx. apply_fix_up C (action fx)" and ?w = "restarted w" and ?X = "on_disk w"
  let ?i = "last (ids_of st)" and ?D = "dead st \<union> set (orphans st ?w)"
  let ?H = "halfway C fs st ?X" and ?M = "?D - set (missing_dead C st ?w)"
  have live: "set (ids_of st) \<inter> dead st = {}" using image_world(4) [OF img] by (simp add: wf_state_def)
  have orph: "set (orphans st ?w) \<inter> set (ids_of st) = {}" by (auto simp: orphans_def tracked_def)
  have miss: "set (missing_dead C st ?w) \<subseteq> ?D" "distinct (missing_dead C st ?w)"
    using ord by (auto simp: missing_dead_def)
  have manifest: "repairs C ?H (\<lambda>w. crash_image C ms (with_dead (dead st) st) fs mtail tail w \<and> on_disk w = ?X)
      (between C fs st ?X (dead st) [] tail) (for_each ?f (if mtail = [] then [] else
        [\<lparr>phase = ManifestFileClean, approval_required = False,
          action = TruncateManifest (MAGIC_LEN + length (ops_bytes C ms))\<rparr>]))"
  proof (cases "mtail = []")
    case True
    then show ?thesis by (auto simp: repairs_def intro: betweenI)
  next
    case False
    then show ?thesis unfolding if_not_P [OF False] by (intro repairs_single) (simp only: fix_up.select_convs repairs_manifest)
  qed
  have orphans: "repairs C ?H (between C fs st ?X (dead st) [] tail) (between C fs st ?X ?D [] tail)
      (for_each ?f (map (\<lambda>i. \<lparr>phase = ManifestAppends, approval_required = False, action = OrphanFound i\<rparr>)
        (orphans st ?w)))"
    unfolding for_each_map fix_up.select_convs by (rule repairs_orphans [OF wr orph live])
  have missing: "repairs C ?H (between C fs st ?X ?D [] tail) (between C fs st ?X ?M [] tail)
      (for_each ?f (map (\<lambda>i. \<lparr>phase = ManifestAppends, approval_required = False, action = DeadSegmentMissing i\<rparr>)
        (missing_dead C st ?w)))"
    unfolding for_each_map fix_up.select_convs
    by (rule repairs_missing [OF wr miss]) (use live orph in blast)
  have segment: "repairs C ?H (between C fs st ?X ?M [] tail) (between C fs st ?X ?M [] [])
      (for_each ?f (if tail = [] then [] else
          [\<lparr>phase = SegmentFileClean, approval_required = False,
            action = TruncateSegment ?i (MAGIC_LEN + length (frames_bytes C (fs ?i)))\<rparr>]))"
  proof (cases "tail = []")
    case True
    then show ?thesis by (simp add: repairs_nothing del: for_each.simps)
  next
    case False
    then show ?thesis unfolding if_not_P [OF False]
      by (intro repairs_single) (simp only: fix_up.select_convs repairs_segment [OF refl])
  qed
  have all: "repairs C ?H (\<lambda>w. crash_image C ms (with_dead (dead st) st) fs mtail tail w \<and> on_disk w = ?X)
      (between C fs st ?X ?M [] []) (for_each ?f (image_fixes C ms st fs mtail tail ?w))"
    unfolding image_fixes_def by (intro repairs_append [OF manifest] repairs_append [OF orphans]
        repairs_append [OF missing] segment)
  have "for_each ?f (image_fixes C ms st fs mtail tail ?w) w = (r, w1)"
    using run by (simp add: attempt_recovery_def iss collect_image_fixes image_fixes_sorted)
  from repairsD [OF all _ this fx] show ?thesis using img halfwayI by auto
qed

section \<open>Opening until it succeeds\<close>

lemma recoverable_stops:
  assumes rc: "recoverable C fs st w" and wr: "recovery_writable C" and ord: "order_ok C"
    and scan: "scan_store C w = (report, w0)" and run: "attempt_recovery C report b (w0\<lparr>faults := flts\<rparr>) = (r, w1)"
    and fx: "r = Inr () \<or> fixable C (restarted w1)"
  obtains D where "recoverable C fs (with_dead D st) (restarted w1)"
proof -
  obtain ms mtail tail where img: "crash_image C ms st fs mtail tail w"
    using rc unfolding recoverable_def by blast
  have r: "w0 = w" "report_issues report = image_issues C ms st fs mtail tail w"
    using scan scan_image [OF img] by auto
  have w: "restarted (w0\<lparr>faults := flts\<rparr>) = w" using image_world(1) [OF img] by (simp add: healthy_def r(1))
  have "halfway C fs st (on_disk (w0\<lparr>faults := flts\<rparr>)) (restarted w1)"
    by (rule recovery_stops [OF _ wr ord _ run fx]) (use img r(2) in \<open>simp_all add: w\<close>)
  moreover have "on_disk (w0\<lparr>faults := flts\<rparr>) = on_disk w" by (simp add: on_disk_def r(1))
  ultimately obtain D mt t where "between C fs st (on_disk w) D mt t (restarted w1)"
    unfolding halfway_def by auto
  then obtain ms1 where img1: "crash_image C ms1 (with_dead D st) fs mt t (restarted w1)"
    and d: "on_disk (restarted w1) = on_disk w" by (rule betweenE)
  have "recoverable C fs (with_dead D st) (restarted w1)"
  proof (rule recoverableI [OF img1])
    show "entries_ok fs (with_dead D st)" using rc by (simp add: recoverable_def entries_ok_def)
    show "next_segment_id i \<noteq> None" if "i \<in> on_disk (restarted w1)" for i
      using rc that unfolding recoverable_def d by blast
  qed
  then show thesis by (rule that)
qed

text \<open>A scan of a device that works changes nothing.\<close>

lemma scan_unchanged:
  assumes w: "healthy w"
  shows "snd (scan_store C w) = w"
proof -
  have "snd (open_manifest_read w) = w"
    by (cases "content w MANIFEST_FILE_NAME") (simp_all add: open_manifest_read_def open_checked_healthy [OF w])
  then obtain o1 where opn: "open_manifest_read w = (o1, w)" by (metis prod.collapse)
  have new: "\<exists>sc. scanner_new f off w = (sc, w)" for f off
    using w by (simp add: scanner_new_def read_stream_def)
  have files: "snd (scan_files C iss r w) = w" for iss r
  proof -
    obtain x where ids: "collect_segment_ids w = (x, w)"
      using w by (cases "base_dir_exists w") (simp_all add: collect_segment_ids_def and_then_def read_dir_def)
    have "snd (snd (scan_segments C st es (iss, w))) = w" for st es iss
      using scan_segments_issues [OF w, of C st es iss] by auto
    then show ?thesis by (cases x) (simp_all add: scan_files_def ids Let_def split: prod.split, metis snd_conv)
  qed
  have "snd (scan_replay C off iss w) = w" for off iss
  proof (cases o1)
    case (Inr x)
    obtain f k where x: "x = (f, k)" by (cases x)
    obtain sc where "scanner_new f off w = (sc, w)" using new by blast
    then show ?thesis using files
      by (auto simp: scan_replay_def opn Inr x replay_def split: sum.split replay_error.split)
  qed (simp add: scan_replay_def opn)
  then show ?thesis
  proof (cases o1)
    case (Inr x)
    obtain f k where x: "x = (f, k)" by (cases x)
    obtain sc where "scanner_new f k w = (sc, w)" using new by blast
    with \<open>\<And>off iss. snd (scan_replay C off iss w) = w\<close> show ?thesis using w
      by (cases "base_dir_exists w")
         (auto simp: scan_store_def opn Inr x dir_exists_def split: sum.split scan_status.split)
  qed (use w in \<open>cases "base_dir_exists w"; simp add: scan_store_def opn dir_exists_def\<close>)
qed

text \<open>A store opened after any number of attempts: in each the issues are found, and the device stops the
  recovery, or it completes and the process ends.\<close>

inductive reopened :: "'f crates \<Rightarrow> nat \<Rightarrow> world \<Rightarrow> store \<Rightarrow> world \<Rightarrow> bool" for C trigger where
  opened: "open_store C trigger w = (Inr s, w') \<Longrightarrow> reopened C trigger w s w'"
| attempt: "scan_store C w = (report, w0) \<Longrightarrow> attempt_recovery C report False (w0\<lparr>faults := flts\<rparr>) = (r, w1) \<Longrightarrow>
    reopened C trigger (restarted w1) s w' \<Longrightarrow> reopened C trigger w s w'"

text \<open>Where the issues have no fix, no attempt changes anything.\<close>

lemma reopened_fixable: "reopened C trigger w s w' \<Longrightarrow> healthy w \<Longrightarrow> fixable C w"
proof (induction rule: reopened.induct)
  case (opened w s w')
  then show ?case by (intro opened_fixable)
next
  case (attempt w report w0 flts r w1 s w')
  have w0: "w0 = w" using scan_unchanged [OF attempt(5), of C] attempt(1) by simp
  show ?case
  proof (rule ccontr)
    assume stuck: "\<not> fixable C w"
    then obtain e where "collect_fix_ups False (report_issues report) = Inl e"
      using attempt(1) by (cases "collect_fix_ups False (report_issues report)") (auto simp: fixable_def)
    then have "restarted w1 = w" using attempt(2,5) by (auto simp: attempt_recovery_def err_def healthy_def w0)
    then show False using attempt(4,5) stuck by simp
  qed
qed

lemma recoverable_reopens:
  assumes "reopened C trigger w s w'" and "recoverable C fs st w" and "order_ok C" and "recovery_writable C"
  shows "\<exists>ms. store_ok C ms fs [] (s, w') \<and> segments (st_state s) = segments st
    \<and> head_entry (st_state s) = head_entry st \<and> metadata (st_state s) = metadata st \<and> rollover_pending s = False"
  using assms
proof (induction arbitrary: st rule: reopened.induct)
  case (opened w s w')
  obtain s2 w2 ms where "open_store C trigger w = (Inr s2, w2)" "store_ok C ms fs [] (s2, w2)"
    "segments (st_state s2) = segments st" "head_entry (st_state s2) = head_entry st"
    "metadata (st_state s2) = metadata st" "rollover_pending s2 = False"
    by (rule recoverable_opens [OF opened(2-4), of trigger])
  then show ?case using opened(1) by auto
next
  case (attempt w report w0 flts r w1 s w')
  have "r = Inr () \<or> fixable C (restarted w1)" using reopened_fixable [OF attempt(3)] by simp
  from recoverable_stops [OF attempt(5,7,6,1,2) this] obtain D where
    "recoverable C fs (with_dead D st) (restarted w1)" .
  from attempt(4) [OF this attempt(6,7)] show ?case by simp
qed

section \<open>What a stopped recovery leaves\<close>

text \<open>The recovery of a torn manifest whose first call fails.\<close>

lemma first_fix_stops:
  assumes img: "crash_image C ms st fs mtail tail w" and torn: "mtail \<noteq> []"
  shows "attempt_recovery C (fst (scan_store C w)) b (w\<lparr>faults := [Some k]\<rparr>) = (Inl (Err (IoError DeviceFault)), w)"
proof -
  obtain off rest where "image_fixes C ms st fs mtail tail w = \<lparr>phase = ManifestFileClean,
      approval_required = False, action = TruncateManifest off\<rparr> # rest"
    using torn by (simp add: image_fixes_def)
  moreover have "attempt_recovery C (fst (scan_store C w)) b
      = for_each (\<lambda>fx. apply_fix_up C (action fx)) (image_fixes C ms st fs mtail tail w)"
    by (simp only: scan_image [OF img] fst_conv scan_report.select_convs attempt_recovery_def collect_image_fixes
        image_fixes_sorted sum.case)
  moreover have "restarted w = w" using image_world(1) [OF img] by (simp add: healthy_def)
  ultimately show ?thesis
    by (simp add: truncate_manifest_def and_then_def io_error_def map_err_def open_manifest_rw_def
        open_checked_def fs_open_def call_def next_outcome_def spend_def)
qed

lemma unfixable_closed:
  assumes "\<not> fixable C w" and "healthy w"
  shows "\<exists>e. open_store C trigger w = (Inl e, w)"
proof -
  obtain report where scan: "scan_store C w = (report, w)"
    using scan_unchanged [OF assms(2), of C] by (cases "scan_store C w") simp
  then obtain e where e: "collect_fix_ups False (report_issues report) = Inl e"
    using assms(1) by (cases "collect_fix_ups False (report_issues report)") (auto simp: fixable_def)
  then have "report_issues report \<noteq> []" by auto
  then show ?thesis using scan e by (simp add: open_store_def attempt_recovery_def err_def)
qed

text \<open>C6: Recovery can be stopped and repeated: whatever faults stop the recovery of a crash image, and
  wherever, the next opening either finds every whole frame of every live segment, the head and the
  metadata, or refuses the directory and leaves it as it is, and the latter only if the recovery did not
  complete.\<close>

theorem stopped_recovery_reopens:
  assumes img: "crash_image C ms st fs mtail tail w" and eok: "entries_ok fs st"
    and nxt: "\<forall>i \<in> on_disk w. next_segment_id i \<noteq> None" and ord: "order_ok C" and rec: "recovery_writable C"
    and scan: "scan_store C w = (report, w0)"
    and run: "attempt_recovery C report b (w0\<lparr>faults := flts\<rparr>) = (r, w1)"
  shows "(\<exists>s w2 ms'. open_store C trigger (restarted w1) = (Inr s, w2) \<and> store_ok C ms' fs [] (s, w2)
      \<and> segments (st_state s) = segments st \<and> head_entry (st_state s) = head_entry st
      \<and> metadata (st_state s) = metadata st)
    \<or> r \<noteq> Inr () \<and> (\<exists>e. open_store C trigger (restarted w1) = (Inl e, restarted w1))"
proof (cases "r = Inr () \<or> fixable C (restarted w1)")
  case True
  have "recoverable C fs st w" using nxt by (intro recoverableI [OF img eok]) blast
  from recoverable_stops [OF this rec ord scan run True] obtain D where
    "recoverable C fs (with_dead D st) (restarted w1)" .
  then obtain s w2 ms' where "open_store C trigger (restarted w1) = (Inr s, w2)" "store_ok C ms' fs [] (s, w2)"
    "segments (st_state s) = segments (with_dead D st)" "head_entry (st_state s) = head_entry (with_dead D st)"
    "metadata (st_state s) = metadata (with_dead D st)" "rollover_pending s = False"
    by (rule recoverable_opens [OF _ ord rec, where trigger = trigger])
  then show ?thesis by auto
next
  case False
  then show ?thesis using unfixable_closed [of C "restarted w1" trigger] by simp
qed

theorem stopped_recovery_reopens_witness:
  "\<exists>w s w2 ms. attempt_recovery sample (fst (scan_store sample w)) False (w\<lparr>faults := [Some 0]\<rparr>)
      = (Inl (Err (IoError DeviceFault)), w)
    \<and> open_store sample 1000 w = (Inr s, w2) \<and> store_ok sample ms batch_frames [] (s, w2)"
proof -
  obtain s w f where ok: "store_ok sample [first_op] batch_frames next_batch (s, w)" by (rule writing_store)
  note D = store_okD [OF ok]
  let ?m = "with_meta Metadata [(1 :: u8, [5 :: u8])]"
  have wm: "op_writable sample ?m"
    by (rule sample_writable) (simp add: with_meta_def encode_sample_simps)
  have "5 < HEADER_LEN" by (simp add: HEADER_LEN_def)
  from commit_op_cut_image [OF ok wm this] obtain w1 where
    c: "crash_image sample [first_op] (st_state s) batch_frames (take 5 (frame_bytes sample (op_frame sample ?m))) [] w1"
    "on_disk w1 = tracked (st_state s)" by blast
  have nxt: "\<forall>i \<in> on_disk w1. next_segment_id i \<noteq> None" using store_ok_next [OF ok] unfolding c(2) D(2) by blast
  have a: "attempt_recovery sample (fst (scan_store sample w1)) False (w1\<lparr>faults := [Some 0]\<rparr>)
      = (Inl (Err (IoError DeviceFault)), w1)" by (rule first_fix_stops [OF c(1)]) simp
  obtain report where scan: "scan_store sample w1 = (report, w1)" using scan_image [OF c(1)] by simp
  have w1: "restarted w1 = w1" using image_world(1) [OF c(1)] by (simp add: healthy_def)
  obtain s2 w2 where o: "open_store sample 1000 w1 = (Inr s2, w2)"
    using reopens [OF c D(3) sample_order sample_recovery_writable next_after_tracked [OF ok], of 1000] by blast
  from stopped_recovery_reopens [OF c(1) D(3) nxt sample_order sample_recovery_writable scan a [unfolded scan fst_conv],
      of 1000] o obtain ms where "store_ok sample ms batch_frames [] (s2, w2)" unfolding w1 by auto
  with a o show ?thesis by blast
qed

end
