(* ===== verification/Reader_Claims.thy ===== *)
theory Reader_Claims
  imports Reader_Laws Store_Truncate
begin

text \<open>
  What \<^verbatim>\<open>scan\<close> and its reader promise (\<^verbatim>\<open>src/store.rs\<close>): no entry at or after the one asked for is
  missed, a store that was just opened yields exactly those, and a store that was written to since
  may yield earlier ones.
\<close>

section \<open>Where a scan starts\<close>

abbreviation all_frames :: "(segment_id \<Rightarrow> frame list) \<Rightarrow> store_state \<Rightarrow> frame list" where
  "all_frames fs st \<equiv> concat (map fs (ids_of st))"

definition scan_bound :: "store \<Rightarrow> u64 \<Rightarrow> entry_id" where
  "scan_bound s i = EntryId (max i (first_entry_id s))"

text \<open>The mark the index gives for an entry, and the segments before it.\<close>

definition chosen :: "index_position list \<Rightarrow> entry_id \<Rightarrow> index_position \<Rightarrow> bool" where
  "chosen ms t m \<longleftrightarrow> m \<in> set ms \<and> checkpoint m \<le> t
     \<and> (\<forall>n \<in> set ms. checkpoint n \<le> t \<longrightarrow> checkpoint n \<le> checkpoint m)"

lemma entry_find_chosen:
  assumes "wf_entry_index ix"
  shows "case entry_find ix t of None \<Rightarrow> \<forall>m \<in> set (entry_marks ix). t < checkpoint m
    | Some m \<Rightarrow> chosen (entry_marks ix) t m"
proof -
  let ?ms = "filter (\<lambda>m. checkpoint m \<le> t) (entry_marks ix)"
  have f: "entry_find ix t = floor_of checkpoint (entry_marks ix) t" by (rule entry_find_floor [OF assms])
  show ?thesis
  proof (cases "?ms = []")
    case True
    then show ?thesis by (simp add: f floor_of_def filter_empty_conv not_le)
  next
    case False
    have "sorted_wrt (<) (map checkpoint (entry_marks ix))"
      using assms by (simp add: wf_entry_index_def ascending_marks_def entry_marks_def)
    then have srt: "sorted_wrt (\<lambda>a b. checkpoint a < checkpoint b) ?ms"
      by (simp add: sorted_wrt_map sorted_wrt_filter)
    have "checkpoint n \<le> checkpoint (last ?ms)" if "n \<in> set ?ms" for n
      by (rule sorted_key_last [OF srt that])
    moreover have "last ?ms \<in> set ?ms" using False by (rule last_in_set)
    ultimately show ?thesis using False by (auto simp: f floor_of_def chosen_def)
  qed
qed

lemma frames_before:
  assumes "sorted_wrt (<) (map fst (all_frames fs st))" and "ids_of st = pre @ i # post"
    and "g \<in> set (fs i)"
  shows "f \<in> set (concat (map fs pre)) \<Longrightarrow> fst f < fst g" "f \<in> set (concat (map fs post)) \<Longrightarrow> fst g < fst f"
  using assms(1,3) unfolding assms(2) by (auto simp: sorted_wrt_append)

text \<open>A scan that starts nowhere has nothing to yield; any other stands in a segment, with the frames
  before the bound skipped, and no segment before it has an entry at or after the bound.\<close>

lemma scan_bound_above:
  assumes ok: "store_ok C ms fs pend (s, w)"
    and last: "case last_entry_id s of None \<Rightarrow> True | Some l \<Rightarrow> l < eid (scan_bound s i)"
    and f: "f \<in> set (all_frames fs (st_state s))"
  shows "fst f < scan_bound s i"
proof -
  obtain j where j: "last_entry s = Some j" "fst f \<le> j"
    using store_okD(13) [OF ok] f unfolding last_ok_def by blast
  have le: "eid (head_entry (st_state s)) \<le> eid (scan_bound s i)"
    by (simp add: scan_bound_def first_entry_id_def)
  have "eid j < eid (scan_bound s i)"
  proof (cases "eid j < eid (head_entry (st_state s))")
    case True
    then show ?thesis using le by (rule less_le_trans)
  next
    case False
    then show ?thesis using last j(1) by (simp add: last_entry_id_def)
  qed
  then have "j < scan_bound s i" by simp
  with j(2) show ?thesis by simp
qed

lemma scan_from_seeks:
  assumes ok: "store_ok C ms fs pend (s, w)"
    and last: "\<not> (case last_entry_id s of None \<Rightarrow> True | Some l \<Rightarrow> l < eid (scan_bound s i))"
    and start: "scan_start s (scan_bound s i) = Some (seg, off)" and seg: "seg \<in> set (ids_of (st_state s))"
  shows "\<exists>sc. scan_from s i w = (Inr (Some (seg, sc)), w)
    \<and> awaits C (dropWhile (\<lambda>f. fst f < scan_bound s i) (fs seg)) [] sc \<and> stream_end sc = None
    \<and> (\<forall>g \<in> set (fs seg). fits g)"
proof -
  obtain sc where sc: "open_segment seg w
      = (Inr (\<lparr>path = segment_path seg, cursor_at = MAGIC_LEN\<rparr>, MAGIC_LEN), w)"
    "scanner_new \<lparr>path = segment_path seg, cursor_at = MAGIC_LEN\<rparr> off w = (sc, w)"
    "awaits C (fs seg) [] sc" "stream_end sc = None" "\<forall>g \<in> set (fs seg). fits g"
    by (rule image_scanner [OF store_okD(1) [OF ok] seg])
  obtain sc' where "seek_to_id (scan_bound s i) sc = (Inr (), sc')"
    "awaits C (dropWhile (\<lambda>f. fst f < scan_bound s i) (fs seg)) [] sc'" "stream_end sc' = None"
    using seek_to_id_awaits [OF sc(3,5), of "scan_bound s i"] sc(4) by auto
  then show ?thesis
    using last start sc(1,2,5) unfolding scan_bound_def scan_from_def Let_def by auto
qed

lemma scan_from_starts:
  fixes i :: u64
  assumes ok: "store_ok C ms fs pend (s, w)"
  defines "t \<equiv> scan_bound s i" and "st \<equiv> st_state s"
  obtains (nothing) "scan_from s i w = (Inr None, w)" "\<forall>f \<in> set (all_frames fs st). fst f < t"
  | (at) pre seg post sc where "scan_from s i w = (Inr (Some (seg, sc)), w)"
      "ids_of st = pre @ seg # post" "awaits C (dropWhile (\<lambda>f. fst f < t) (fs seg)) [] sc"
      "stream_end sc = None" "\<forall>f \<in> set (concat (map fs pre)). fst f < t" "\<forall>g \<in> set (fs seg). fits g"
      "(\<forall>m \<in> set (entry_marks (st_index s)). t < checkpoint m) \<and> pre = []
        \<or> (\<exists>m. chosen (entry_marks (st_index s)) t m \<and> segment m = seg)"
proof -
  note D = store_okD [OF ok]
  note wd = image_world [OF D(1)]
  have srt: "sorted_wrt (<) (map fst (all_frames fs st))"
    using D(3) by (simp add: entries_ok_def entries_sorted_def st_def)
  have wix: "wf_entry_index (st_index s)" using D(12) by (simp add: index_ok_def)
  show thesis
  proof (cases "case last_entry_id s of None \<Rightarrow> True | Some l \<Rightarrow> l < eid t")
    case True
    have "\<forall>f \<in> set (all_frames fs st). fst f < t"
      using scan_bound_above [OF ok, of i] True unfolding t_def st_def by blast
    moreover have "scan_from s i w = (Inr None, w)"
      using True unfolding t_def scan_bound_def scan_from_def Let_def by simp
    ultimately have "scan_from s i w = (Inr None, w)" "\<forall>f \<in> set (all_frames fs st). fst f < t"
      by blast+
    then show thesis by (rule nothing)
  next
    case False
    have go: "\<exists>sc. scan_from s i w = (Inr (Some (seg, sc)), w)
        \<and> awaits C (dropWhile (\<lambda>f. fst f < t) (fs seg)) [] sc \<and> stream_end sc = None
        \<and> (\<forall>g \<in> set (fs seg). fits g)"
      if "scan_start s t = Some (seg, off)" "ids_of st = pre @ seg # post" for seg off pre post
      using scan_from_seeks [OF ok False [unfolded t_def] that(1) [unfolded t_def]] that(2)
      unfolding t_def st_def by simp
    show thesis
    proof (cases "entry_find (st_index s) t")
      case None
      have "segments (st_state s) \<noteq> []" by (rule wd(5))
      then obtain e es where es: "segments (st_state s) = e # es" by (cases "segments (st_state s)") auto
      have start: "scan_start s t = Some (se_id e, MAGIC_LEN)" using None es by (simp add: scan_start_def)
      have ids: "ids_of st = [] @ se_id e # map se_id es" by (simp add: es st_def)
      have "\<forall>m \<in> set (entry_marks (st_index s)). t < checkpoint m"
        using entry_find_chosen [OF wix, of t] None by simp
      then show thesis using go [OF start ids] ids by (elim exE conjE) (rule at, auto)
    next
      case (Some m)
      have ch: "chosen (entry_marks (st_index s)) t m" using entry_find_chosen [OF wix, of t] Some by simp
      then have m: "segment m \<in> set (ids_of st)" "mark_ok C fs m" "checkpoint m \<le> t"
        using D(12) unfolding index_ok_def chosen_def st_def by blast+
      obtain pre post where ids: "ids_of st = pre @ segment m # post" using split_list [OF m(1)] by blast
      obtain k where k: "k < length (fs (segment m))" "checkpoint m = fst (fs (segment m) ! k)"
        using m(2) unfolding mark_ok_def by blast
      have "fst f < t" if "f \<in> set (concat (map fs pre))" for f
        using frames_before(1) [OF srt ids nth_mem [OF k(1)] that] k(2) m(3) by simp
      then have before: "\<forall>f \<in> set (concat (map fs pre)). fst f < t" by blast
      have start: "scan_start s t = Some (segment m, byte_offset m)" using Some by (simp add: scan_start_def)
      obtain sc where "scan_from s i w = (Inr (Some (segment m, sc)), w)"
        "awaits C (dropWhile (\<lambda>f. fst f < t) (fs (segment m))) [] sc" "stream_end sc = None"
        "\<forall>g \<in> set (fs (segment m)). fits g"
        using go [OF start ids] by blast
      then show thesis using ids before ch by (intro at [of "segment m" sc pre post]) blast+
    qed
  qed
qed

section \<open>What a scan yields\<close>

lemma drain_scan:
  assumes ok: "store_ok C ms fs pend (s, w)" and ids: "ids_of (st_state s) = pre @ seg # post"
    and "awaits C (dropWhile p (fs seg)) [] sc" and "stream_end sc = None" and "\<forall>g \<in> set (fs seg). fits g"
  shows "drain (Suc (length (all_frames fs (st_state s)))) s (Some (seg, sc)) w
      = Some (Inr (dropWhile p (fs seg) @ concat (map fs post)))"
proof (rule drain_reads [OF store_okD(1) [OF ok] ids assms(3,4)])
  show "\<forall>g \<in> set (dropWhile p (fs seg)). fits g" using assms(5) by (auto dest: set_dropWhileD)
  have "length (dropWhile p (fs seg)) \<le> length (fs seg)" by (rule length_dropWhile_le)
  then show "length (dropWhile p (fs seg) @ concat (map fs post)) < Suc (length (all_frames fs (st_state s)))"
    unfolding ids by simp
qed

text \<open>C16: A scan misses nothing: read to its end, the reader yields a final piece of the entries of the
  store, in order and each exactly once, and every entry left out lies before the one asked for (or the
  log head, if that is later). As many calls of \<^verbatim>\<open>next\<close> as there are entries, and one, end it.\<close>

theorem scan_misses_nothing:
  assumes ok: "store_ok C ms fs pend (s, w)"
  shows "\<exists>rd xs ys. scan_from s i w = (Inr rd, w) \<and> all_frames fs (st_state s) = xs @ ys
    \<and> drain (Suc (length (all_frames fs (st_state s)))) s rd w = Some (Inr ys)
    \<and> (\<forall>f \<in> set xs. fst f < scan_bound s i)"
proof (cases rule: scan_from_starts [OF ok, of i, case_names nothing at])
  case nothing
  then show ?thesis
    by (intro exI [of _ None] exI [of _ "all_frames fs (st_state s)"] exI [of _ "[]"])
      (simp add: drain_None del: drain.simps)
next
  case (at pre seg post sc)
  let ?p = "\<lambda>f. fst f < scan_bound s i"
  have "all_frames fs (st_state s)
      = (concat (map fs pre) @ takeWhile ?p (fs seg)) @ (dropWhile ?p (fs seg) @ concat (map fs post))"
    unfolding at(2) by simp
  moreover have "\<forall>f \<in> set (concat (map fs pre) @ takeWhile ?p (fs seg)). ?p f"
    using at(5) set_takeWhileD [of _ ?p "fs seg"] by fastforce
  ultimately show ?thesis using at(1) drain_scan [OF ok at(2-4,6)] by blast
qed

theorem scan_misses_nothing_witness:
  "\<exists>s w rd xs ys. scan_from s 2 w = (Inr rd, w) \<and> first_batch @ next_batch = xs @ ys
    \<and> drain 4 s rd w = Some (Inr ys) \<and> (EntryId 2, [9, 9]) \<in> set ys"
proof -
  obtain s w m fs where s: "store_ok sample [first_op, m] fs [] (s, w)"
    "segments (st_state s) = [\<lparr>se_id = SegmentId 1, se_first = EntryId 0\<rparr>,
      \<lparr>se_id = SegmentId 2, se_first = EntryId 1\<rparr>]"
    "fs (SegmentId 1) = first_batch" "fs (SegmentId 2) = next_batch"
    "head_entry (st_state s) = EntryId 0" by (rule rolled_store)
  have all: "all_frames fs (st_state s) = first_batch @ next_batch" by (simp add: s(2-4))
  have n: "Suc (length (first_batch @ next_batch)) = 4" by (simp add: first_batch_def next_batch_def)
  have b: "scan_bound s 2 = EntryId 2" by (simp add: scan_bound_def first_entry_id_def s(5))
  obtain rd xs ys where r: "scan_from s 2 w = (Inr rd, w)" "first_batch @ next_batch = xs @ ys"
    "drain 4 s rd w = Some (Inr ys)" "\<forall>f \<in> set xs. fst f < EntryId 2"
    using scan_misses_nothing [OF s(1), of 2] unfolding all n b by blast
  have "(EntryId 2, [9, 9]) \<in> set (xs @ ys)" unfolding r(2) [symmetric] by (simp add: next_batch_def)
  moreover have "(EntryId 2, [9, 9]) \<notin> set xs" using r(4) by auto
  ultimately have "(EntryId 2, [9, 9]) \<in> set ys" by simp
  with r(1-3) show ?thesis by blast
qed

section \<open>A store that was just opened\<close>

lemma sorted_cut:
  "sorted_wrt (<) (map fst xs) \<Longrightarrow> dropWhile (\<lambda>f. fst f < (t :: entry_id)) xs = filter (\<lambda>f. t \<le> fst f) xs"
proof (induction xs)
  case (Cons x xs)
  show ?case
  proof (cases "fst x < t")
    case False
    then have "\<forall>f \<in> set xs. t \<le> fst f" using Cons.prems by (auto intro: order_trans less_imp_le)
    with False show ?thesis by (auto simp: not_less)
  qed (use Cons in auto)
qed simp

text \<open>With every segment's first entry in the index, no later segment starts before the bound.\<close>

lemma later_segments:
  assumes ok: "store_ok C ms fs pend (s, w)" and full: "index_full fs (st_state s) (st_index s)"
    and ids: "ids_of (st_state s) = pre @ seg # post"
    and start: "(\<forall>m \<in> set (entry_marks (st_index s)). t < checkpoint m) \<and> pre = []
      \<or> (\<exists>m. chosen (entry_marks (st_index s)) t m \<and> segment m = seg)"
  shows "\<forall>f \<in> set (concat (map fs post)). t \<le> fst f"
proof
  fix f assume "f \<in> set (concat (map fs post))"
  then obtain q where q: "q \<in> set post" "f \<in> set (fs q)" by auto
  note D = store_okD [OF ok]
  have srt: "sorted_wrt (<) (map fst (all_frames fs (st_state s)))"
    using D(3) by (simp add: entries_ok_def entries_sorted_def)
  have ne: "fs q \<noteq> []" using q(2) by auto
  have "q \<in> set (ids_of (st_state s))" unfolding ids using q(1) by simp
  then obtain m where m: "m \<in> set (entry_marks (st_index s))" "segment m = q"
    "checkpoint m = fst (hd (fs q))"
    by (rule index_full_first [OF full _ ne])
  have hd: "hd (fs q) \<in> set (concat (map fs post))" using q(1) hd_in_set [OF ne] by auto
  have "sorted_wrt (<) (map fst (fs q))"
    using srt q(1) split_list [OF q(1)] unfolding ids by (auto simp: sorted_wrt_append)
  then have le: "fst (hd (fs q)) \<le> fst f" using q(2) ne by (cases "fs q") auto
  show "t \<le> fst f"
  proof (rule ccontr)
    assume "\<not> t \<le> fst f"
    then have low: "checkpoint m \<le> t" using le m(3) by simp
    from start show False
    proof
      assume "(\<forall>m \<in> set (entry_marks (st_index s)). t < checkpoint m) \<and> pre = []"
      then show False using m(1) low by auto
    next
      assume "\<exists>n. chosen (entry_marks (st_index s)) t n \<and> segment n = seg"
      then obtain n where n: "chosen (entry_marks (st_index s)) t n" "segment n = seg" by blast
      then have "n \<in> set (entry_marks (st_index s))" "checkpoint m \<le> checkpoint n"
        using m(1) low unfolding chosen_def by blast+
      then obtain k where "k < length (fs seg)" "checkpoint n = fst (fs seg ! k)"
        using D(12) n(2) unfolding index_ok_def mark_ok_def by blast
      then have "checkpoint n < fst (hd (fs q))"
        using frames_before(2) [OF srt ids nth_mem hd] by simp
      then show False using \<open>checkpoint m \<le> checkpoint n\<close> m(3) by simp
    qed
  qed
qed

lemma scan_exact:
  assumes ok: "store_ok C ms fs pend (s, w)" and full: "index_full fs (st_state s) (st_index s)"
  shows "\<exists>rd. scan_from s i w = (Inr rd, w)
    \<and> drain (Suc (length (all_frames fs (st_state s)))) s rd w
      = Some (Inr (filter (\<lambda>f. scan_bound s i \<le> fst f) (all_frames fs (st_state s))))"
proof -
  let ?t = "scan_bound s i"
  have srt: "sorted_wrt (<) (map fst (all_frames fs (st_state s)))"
    using store_okD(3) [OF ok] by (simp add: entries_ok_def entries_sorted_def)
  show ?thesis
  proof (cases rule: scan_from_starts [OF ok, of i, case_names nothing at])
    case nothing
    note n = this
    then have "filter (\<lambda>f. ?t \<le> fst f) (all_frames fs (st_state s)) = []"
      by (simp add: filter_empty_conv not_le del: set_concat)
    then show ?thesis using n by (intro exI [of _ None]) (simp add: drain_None del: drain.simps)
  next
    case (at pre seg post sc)
    have "\<forall>f \<in> set (concat (map fs post)). ?t \<le> fst f" by (rule later_segments [OF ok full at(2,7)])
    then have post: "filter (\<lambda>f. ?t \<le> fst f) (concat (map fs post)) = concat (map fs post)"
      by (simp only: filter_id_conv)
    have pre: "filter (\<lambda>f. ?t \<le> fst f) (concat (map fs pre)) = []"
      using at(5) by (simp add: filter_empty_conv not_le del: set_concat)
    have "sorted_wrt (<) (map fst (fs seg))"
      using srt unfolding at(2) by (simp add: sorted_wrt_append)
    then have "filter (\<lambda>f. ?t \<le> fst f) (all_frames fs (st_state s))
        = dropWhile (\<lambda>f. fst f < ?t) (fs seg) @ concat (map fs post)"
      unfolding at(2) map_append concat_append filter_append pre list.map concat.simps post
      by (simp add: sorted_cut)
    with drain_scan [OF ok at(2-4,6)] at(1) show ?thesis by auto
  qed
qed

text \<open>C7: A store that was just opened, after a crash or not, can be read back completely: for every entry
  id, scanning from it yields exactly the whole frames on disk with that id or a later one (or from the
  log head on, if that is later), in order, with the payloads that were written, and nothing else.\<close>

theorem opened_scan_exact:
  assumes "crash_image C ms st fs mtail tail w" and "entries_ok fs st" and "order_ok C"
    and "recovery_writable C"
    and "next_segment_id (max_segment_id (with_dead (on_disk w - set (ids_of st)) st)) \<noteq> None"
  shows "\<exists>s w'. open_store C trigger w = (Inr s, w')
    \<and> (\<forall>i. \<exists>rd. scan_from s i w' = (Inr rd, w')
        \<and> drain (Suc (length (all_frames fs st))) s rd w'
          = Some (Inr (filter (\<lambda>f. EntryId (max i (eid (head_entry st))) \<le> fst f) (all_frames fs st))))"
proof -
  obtain s w' where s: "open_store C trigger w = (Inr s, w')"
    "store_ok C (ms @ recovery_ops C st w) fs [] (s, w')"
    "st_state s = with_dead (on_disk w - set (ids_of st)) st" "index_full fs (st_state s) (st_index s)"
    using open_image [OF assms, of trigger] by blast
  have "all_frames fs (st_state s) = all_frames fs st" "first_entry_id s = eid (head_entry st)"
    by (simp_all add: s(3) first_entry_id_def)
  then have "\<exists>rd. scan_from s i w' = (Inr rd, w') \<and> drain (Suc (length (all_frames fs st))) s rd w'
      = Some (Inr (filter (\<lambda>f. EntryId (max i (eid (head_entry st))) \<le> fst f) (all_frames fs st)))" for i
    using scan_exact [OF s(2,4), of i] by (simp only: scan_bound_def)
  with s(1) show ?thesis by blast
qed

theorem opened_scan_exact_witness:
  "\<exists>s w' rd. open_store sample 1000 crashed_world = (Inr s, w') \<and> scan_from s 2 w' = (Inr rd, w')
    \<and> drain 2 s rd w' = Some (Inr [(EntryId 3, [7])])"
proof -
  have disk: "on_disk crashed_world = {SegmentId 1, SegmentId 2}"
    by (auto simp: on_disk_def crashed_world_def split: if_splits)
  have ids: "set (ids_of fresh_state) = {SegmentId 1}" by (simp add: fresh_state_def)
  have dd: "on_disk crashed_world - set (ids_of fresh_state) = {SegmentId 2}"
    unfolding disk ids by auto
  have "entries_ok crashed_frames fresh_state"
    by (simp add: entries_ok_def entries_sorted_def fresh_state_def crashed_frames_def)
  moreover have "next_segment_id (max_segment_id (with_dead {SegmentId 2} fresh_state)) \<noteq> None"
    by (simp add: max_segment_id_def fresh_state_def next_segment_id_def)
  moreover have all: "all_frames crashed_frames fresh_state = [(EntryId 3, [7])]"
    by (simp add: fresh_state_def crashed_frames_def)
  ultimately obtain s w' where s: "open_store sample 1000 crashed_world = (Inr s, w')"
    "\<forall>i. \<exists>rd. scan_from s i w' = (Inr rd, w')
        \<and> drain (Suc (length [(EntryId 3, [7 :: u8])])) s rd w'
          = Some (Inr (filter (\<lambda>f. EntryId (max i (eid (head_entry fresh_state))) \<le> fst f)
              [(EntryId 3, [7])]))"
    using opened_scan_exact [OF crashed_world_image _ sample_order sample_recovery_writable, of 1000]
    unfolding dd all by blast
  have f: "filter (\<lambda>f. EntryId (max 2 (eid (head_entry fresh_state))) \<le> fst f) [(EntryId 3, [7 :: u8])]
      = [(EntryId 3, [7])]" by (simp add: fresh_state_def)
  have n: "Suc (length [(EntryId 3, [7 :: u8])]) = 2" by simp
  show ?thesis using s(1) s(2) [rule_format, of 2] unfolding f n by blast
qed

section \<open>A store that was written to\<close>

text \<open>C37: Writing does not extend the index, so a scan of a store that has rolled over since it was opened
  may yield entries before the one asked for: when the index holds nothing and the first segment ends
  before the bound, the scan yields every entry of all later segments.\<close>

theorem stale_index_scan:
  assumes ok: "store_ok C ms fs pend (s, w)" and none: "entry_marks (st_index s) = []"
    and ids: "ids_of (st_state s) = i # is" and "\<forall>f \<in> set (fs i). fst f < scan_bound s k"
    and some: "\<exists>f \<in> set (all_frames fs (st_state s)). scan_bound s k \<le> fst f"
  shows "\<exists>rd. scan_from s k w = (Inr rd, w)
    \<and> drain (Suc (length (all_frames fs (st_state s)))) s rd w = Some (Inr (concat (map fs is)))"
proof (cases rule: scan_from_starts [OF ok, of k, case_names nothing at])
  case nothing
  then show ?thesis using some by (meson leD)
next
  case (at pre seg post sc)
  then have "pre = []" using none by (auto simp: chosen_def)
  then have "seg = i" "post = is" using at(2) ids by simp_all
  moreover have "dropWhile (\<lambda>f. fst f < scan_bound s k) (fs i) = []"
    using assms(4) by (simp add: dropWhile_eq_Nil_conv)
  ultimately show ?thesis using drain_scan [OF ok at(2-4,6)] at(1) by auto
qed

theorem stale_index_scan_witness:
  "\<exists>s w rd. first_entry_id s = 0 \<and> scan_from s 2 w = (Inr rd, w)
    \<and> drain 4 s rd w = Some (Inr [(EntryId 1, [8]), (EntryId 2, [9, 9])])"
proof -
  obtain s w m fs where s: "store_ok sample [first_op, m] fs [] (s, w)"
    "segments (st_state s) = [\<lparr>se_id = SegmentId 1, se_first = EntryId 0\<rparr>,
      \<lparr>se_id = SegmentId 2, se_first = EntryId 1\<rparr>]"
    "fs (SegmentId 1) = first_batch" "fs (SegmentId 2) = next_batch"
    "head_entry (st_state s) = EntryId 0" "entry_marks (st_index s) = []" by (rule rolled_store)
  have first: "first_entry_id s = 0" by (simp add: first_entry_id_def s(5))
  have all: "all_frames fs (st_state s) = first_batch @ next_batch" by (simp add: s(2-4))
  have n: "Suc (length (first_batch @ next_batch)) = 4" by (simp add: first_batch_def next_batch_def)
  have b: "scan_bound s 2 = EntryId 2" by (simp add: scan_bound_def first)
  have ids: "ids_of (st_state s) = SegmentId 1 # [SegmentId 2]" by (simp add: s(2))
  have "\<forall>f \<in> set (fs (SegmentId 1)). fst f < scan_bound s 2" by (simp add: b s(3) first_batch_def)
  moreover have "\<exists>f \<in> set (all_frames fs (st_state s)). scan_bound s 2 \<le> fst f"
    unfolding all b by (simp add: next_batch_def)
  moreover have "concat (map fs [SegmentId 2]) = [(EntryId 1, [8]), (EntryId 2, [9, 9])]"
    by (simp add: s(4) next_batch_def)
  ultimately show ?thesis
    using stale_index_scan [OF s(1,6) ids, of 2] first unfolding all n by metis
qed

section \<open>The loop of next\<close>

text \<open>Rounds of the loop beyond the number of segments behind the current one change nothing.\<close>

lemma next_from_rounds:
  assumes wf: "wf_state (st_state s)"
  shows "ids_of (st_state s) = pre @ i # post \<Longrightarrow> length post < n \<Longrightarrow> length post < m \<Longrightarrow>
    next_from n s (Some (i, sc)) w = next_from m s (Some (i, sc)) w"
proof (induction post arbitrary: pre i n m sc w)
  case Nil
  then obtain n' m' where n: "n = Suc n'" "m = Suc m'" by (cases n; cases m) auto
  have after: "segment_after i (segments (st_state s)) = None"
    using segment_after_ids [OF wf Nil.prems(1)] by simp
  show ?case unfolding n next_from.simps after option.case ..
next
  case (Cons j post)
  obtain n' m' where n: "n = Suc n'" "m = Suc m'" "length post < n'" "length post < m'"
    using Cons.prems(2,3) by (cases n; cases m) auto
  have after: "segment_after i (segments (st_state s)) = Some j"
    using segment_after_ids [OF wf Cons.prems(1)] by simp
  have ids: "ids_of (st_state s) = (pre @ [i]) @ j # post" using Cons.prems(1) by simp
  have ih: "next_from n' s (Some (j, sc')) w' = next_from m' s (Some (j, sc')) w'" for sc' w'
    by (rule Cons.IH [OF ids n(3,4)])
  show ?case unfolding n(1,2) next_from.simps after option.case ih ..
qed

lemma segment_after_absent: "i \<notin> set (map se_id es) \<Longrightarrow> segment_after i es = None"
  by (induction es) auto

text \<open>C17: The loop of \<^verbatim>\<open>next\<close> ends, on any file contents and under any faults, after at most one round
  for each segment of the store and one more: allowing more rounds changes neither what it returns nor
  the reader it leaves.\<close>

theorem next_ends:
  assumes wf: "wf_state (st_state s)" and n: "length (segments (st_state s)) < n"
  shows "next_from n s rd w = reader_next s rd w"
proof (cases rd)
  case None
  then show ?thesis using n by (cases n) (simp_all add: reader_next_def)
next
  case (Some p)
  obtain i sc where p: "p = (i, sc)" by (cases p)
  show ?thesis
  proof (cases "i \<in> set (ids_of (st_state s))")
    case True
    then obtain pre post where ids: "ids_of (st_state s) = pre @ i # post" by (meson split_list)
    have "length post < length (segments (st_state s))" using arg_cong [OF ids, of length] by simp
    then show ?thesis
      unfolding reader_next_def Some p by (intro next_from_rounds [OF wf ids]) (use n in simp_all)
  next
    case False
    obtain m where m: "n = Suc m" using n by (cases n) auto
    have after: "segment_after i (segments (st_state s)) = None" by (rule segment_after_absent [OF False])
    show ?thesis unfolding reader_next_def Some p m next_from.simps after option.case ..
  qed
qed

theorem next_ends_witness:
  "\<exists>s sc w. wf_state (st_state s) \<and> segments (st_state s) \<noteq> []
    \<and> next_from 7 s (Some (SegmentId 1, sc)) w = reader_next s (Some (SegmentId 1, sc)) w"
proof -
  obtain s w f where s: "store_ok sample [first_op] batch_frames next_batch (s, w)"
    "st_state s = fresh_state" by (rule writing_store)
  have wf: "wf_state (st_state s)" using image_world(4) [OF store_okD(1) [OF s(1)]] .
  have "length (segments (st_state s)) < 7" by (simp add: s(2) fresh_state_def)
  moreover have "segments (st_state s) \<noteq> []" by (simp add: s(2) fresh_state_def)
  ultimately show ?thesis using next_ends [OF wf, of 7] wf by blast
qed

end
