(* ===== verification/Store_Runs.thy ===== *)
theory Store_Runs
  imports Log_Spec Reopening Reader_Claims
begin

text \<open>
  Runs of a store: every sequence of the public operations of \<^verbatim>\<open>src/store.rs\<close>, with the process ending
  and the store being opened again in between or in the middle of a write, does what the log of
  \<open>Log_Spec\<close> allows, and reading the store gives the entries of that log.
\<close>

section \<open>Steps of the program\<close>

text \<open>A store that is being used: the batch being built, the store and the world. A step calls the
  operation as the code defines it. The guards are the contract of the caller (ids ascend across the
  lifetime of the store, a payload is shorter than \<open>2 ^ 32\<close>), that ids, offsets and encoded operations
  fit their fields, and for a rollback that no checkpoint but the first precedes the entry.\<close>

type_synonym session = "store_writer \<times> store \<times> world"

definition ascends :: "store_writer \<Rightarrow> store \<Rightarrow> entry_id \<Rightarrow> bool" where
  "ascends wr s i \<longleftrightarrow> (case batch_last wr of
     Some l \<Rightarrow> l < i
   | None \<Rightarrow> active_first_entry s \<le> i \<and> (\<forall>l. last_entry s = Some l \<longrightarrow> l < i))"

definition roll_fits :: "'f crates \<Rightarrow> store_writer \<Rightarrow> store \<Rightarrow> bool" where
  "roll_fits C wr s \<longleftrightarrow> (rollover_pending s \<longrightarrow> next_segment_id (next_seg_id s) \<noteq> None
     \<and> cur_position (active_cursor s) < 2 ^ 64
     \<and> (\<forall>i. batch_first wr = Some i \<longrightarrow> op_writable C (bare (rollover_op s i))))"

definition rollback_fits :: "'f crates \<Rightarrow> store \<Rightarrow> entry_id \<Rightarrow> bool" where
  "rollback_fits C s i \<longleftrightarrow> (\<forall>t post. rollback_target (st_state s) i = Some (t, post) \<longrightarrow>
     start_offset (st_index s) t i = MAGIC_LEN \<and> (\<forall>off. op_writable C (bare (TruncateEnd t off post))))"

text \<open>The operation of a request, called with the batch being built, and its guard.\<close>

fun perform :: "'f crates \<Rightarrow> store_writer \<Rightarrow> request \<Rightarrow> unit on_store" where
  "perform C wr Write = and_then (write_batch C wr) (\<lambda>_. ok ())"
| "perform C wr (TruncateStartAt i kvs) = store_truncate_start C i kvs"
| "perform C wr (TruncateEndAt i) = store_truncate_end C i"
| "perform C wr (SetMetadata kvs) = write_metadata C kvs"
| "perform C wr DeleteDead = and_then (delete_dead_segments C) (\<lambda>_. ok ())"
| "perform C wr _ = ok ()"

fun call_fits :: "'f crates \<Rightarrow> store_writer \<Rightarrow> store \<Rightarrow> request \<Rightarrow> bool" where
  "call_fits C wr s Write = roll_fits C wr s"
| "call_fits C wr s (TruncateStartAt i kvs) = (batch_count wr = 0
     \<and> op_writable C (with_meta (TruncateStart (EntryId i) (to_evict (st_state s) (EntryId i))) kvs))"
| "call_fits C wr s (TruncateEndAt i) = (batch_count wr = 0 \<and> rollback_fits C s (EntryId i))"
| "call_fits C wr s (SetMetadata kvs) = (batch_count wr = 0 \<and> op_writable C (with_meta Metadata kvs))"
| "call_fits C wr s DeleteDead = (batch_count wr = 0)"
| "call_fits C wr s _ = False"

text \<open>A call that succeeds; a call that a working device refuses, with an error or a failing \<^verbatim>\<open>expect\<close>,
  after which the process goes on with the store the call left; a call in which the device fails in any way and the process ends, whatever
  it returned; a process that ends between two calls. The store is then opened again, where the device
  may stop the recovery any number of times before it succeeds. Writing consumes the batch, and so does
  a new process.\<close>

inductive store_step :: "'f crates \<Rightarrow> nat \<Rightarrow> session \<Rightarrow> request \<Rightarrow> session \<Rightarrow> bool" for C trigger where
  pushes: "ascends wr s (EntryId i) \<Longrightarrow> length p < 2 ^ 32 \<Longrightarrow> push C i p (wr, s) = (wr', s') \<Longrightarrow>
    store_step C trigger (wr, s, w) (Push i p) (wr', s', w)"
| calls: "call_fits C wr s r \<Longrightarrow> perform C wr r (s, w) = (Inr (), s', w') \<Longrightarrow>
    store_step C trigger (wr, s, w) r (if r = Write then writer_new else wr, s', w')"
| refused: "call_fits C wr s r \<Longrightarrow> perform C wr r (s, w) = (Inl e, s', w') \<Longrightarrow>
    store_step C trigger (wr, s, w) (Refused r) (if r = Write then writer_new else wr, s', w')"
| stops: "call_fits C wr s r \<Longrightarrow> perform C wr r (s, w\<lparr>faults := flts\<rparr>) = (res, s1, w1) \<Longrightarrow>
    reopened C trigger (restarted w1) s' w' \<Longrightarrow>
    store_step C trigger (wr, s, w) (Stopped r) (writer_new, s', w')"
| restarts: "reopened C trigger w s' w' \<Longrightarrow>
    store_step C trigger (wr, s, w) Restart (writer_new, s', w')"

text \<open>What the crates are relied on for: a set is iterated in some order of its elements, and the
  operations recovery and creation write are encoded in less than \<open>2 ^ 32\<close> bytes and decoded again. A
  session starts with a store created in an empty directory.\<close>

definition crates_ok :: "'f crates \<Rightarrow> bool" where
  "crates_ok C \<longleftrightarrow> order_ok C \<and> recovery_writable C \<and> op_writable C first_op"

lemma crates_okD: "crates_ok C \<Longrightarrow> order_ok C" "crates_ok C \<Longrightarrow> recovery_writable C"
  by (simp_all add: crates_ok_def)

definition session_start :: "'f crates \<Rightarrow> nat \<Rightarrow> session \<Rightarrow> bool" where
  "session_start C trigger a \<longleftrightarrow> (case a of (wr, s, w) \<Rightarrow> wr = writer_new
     \<and> (\<exists>w0. empty_dir w0 \<and> open_or_create C trigger w0 = (Inr s, w)))"

abbreviation store_run :: "'f crates \<Rightarrow> nat \<Rightarrow> request list \<Rightarrow> session \<Rightarrow> bool" where
  "store_run C trigger \<equiv> run (session_start C trigger) (store_step C trigger)"

section \<open>The relation to the log\<close>

definition live_frames :: "(segment_id \<Rightarrow> frame list) \<Rightarrow> store_state \<Rightarrow> frame list" where
  "live_frames fs st = filter (\<lambda>f. head_entry st \<le> fst f) (all_frames fs st)"

definition same_log :: "log \<Rightarrow> (segment_id \<Rightarrow> frame list) \<Rightarrow> store_state \<Rightarrow> bool" where
  "same_log l fs st \<longleftrightarrow> log_entries l = live_frames fs st \<and> log_head l = head_entry st
     \<and> log_meta l = map_of (metadata st)"

definition holds :: "'f crates \<Rightarrow> log \<Rightarrow> session \<Rightarrow> bool" where
  "holds C l a \<longleftrightarrow> (case a of (wr, s, w) \<Rightarrow> wr = batch_of (log_pending l) \<and> (\<exists>ms fs.
     store_ok C ms fs (log_pending l) (s, w) \<and> same_log l fs (st_state s)
     \<and> (log_pending l \<noteq> [] \<longrightarrow> continues fs (st_state s) (log_pending l))
     \<and> (rollover_pending s \<longrightarrow> fs (active_id s) \<noteq> [])))"

lemma holdsI:
  assumes "store_ok C ms fs pend (s, w)" and "same_log l fs (st_state s)" and "log_pending l = pend"
    and "wr = batch_of pend" and "pend \<noteq> [] \<Longrightarrow> continues fs (st_state s) pend"
    and "rollover_pending s \<Longrightarrow> fs (active_id s) \<noteq> []"
  shows "holds C l (wr, s, w)"
  using assms unfolding holds_def by auto

lemma holdsE:
  assumes "holds C l (wr, s, w)"
  obtains ms fs where "store_ok C ms fs (log_pending l) (s, w)" and "same_log l fs (st_state s)"
    and "wr = batch_of (log_pending l)"
    and "log_pending l \<noteq> [] \<Longrightarrow> continues fs (st_state s) (log_pending l)"
    and "rollover_pending s \<Longrightarrow> fs (active_id s) \<noteq> []"
  using assms unfolding holds_def by auto

lemma writer_new_parts [simp]:
  "batch_last writer_new = None" "batch_first writer_new = None" "batch_count writer_new = 0"
  by (simp_all add: writer_new_def)

lemma batch_of_parts [simp]: "batch_of [] = writer_new" "batch_count (batch_of pend) = length pend"
  "batch_first (batch_of pend) = (if pend = [] then None else Some (fst (hd pend)))"
  "batch_last (batch_of pend) = last_frame_id pend"
  by (simp_all add: batch_of_def writer_new_def last_frame_id_def)

text \<open>Opening again, with nothing pending.\<close>

lemma reopened_holds:
  assumes o: "open_store C trigger w = (Inr s', w')" and img: "crash_image C ms st fs mtail tail w"
    and disk: "on_disk w = tracked st" and eok: "entries_ok fs st" and ord: "order_ok C"
    and wr: "recovery_writable C" and nxt: "next_segment_id (max_segment_id st) \<noteq> None"
    and l: "same_log l fs st" "log_pending l = []"
  shows "holds C l (writer_new, s', w')"
proof -
  obtain s2 w2 where r: "open_store C trigger w = (Inr s2, w2)" "store_ok C ms fs [] (s2, w2)"
    "st_state s2 = st" "rollover_pending s2 = False"
    using reopens [OF img disk eok ord wr nxt, of trigger] by blast
  then have "s' = s2" "w' = w2" using o by simp_all
  with r l show ?thesis by (intro holdsI [where pend = "[]" and fs = fs and ms = ms]) simp_all
qed

section \<open>Each step is a step of the log\<close>

lemma continues_snoc:
  assumes ok: "store_ok C ms fs pend (s, w)" and cont: "pend \<noteq> [] \<Longrightarrow> continues fs (st_state s) pend"
    and asc: "ascends (batch_of pend) s i" and len: "length p < 2 ^ 32"
  shows "continues fs (st_state s) (pend @ [(i, p)])"
    and "\<forall>f \<in> set (all_frames fs (st_state s) @ pend). fst f < i"
proof -
  let ?all = "all_frames fs (st_state s)"
  note D = store_okD [OF ok]
  have srt: "sorted_wrt (\<lambda>f g. fst f < fst g) (?all @ pend)"
  proof (cases "pend = []")
    case True
    then show ?thesis using D(3) by (simp add: entries_ok_def entries_sorted_def sorted_wrt_map)
  next
    case False
    from cont [OF this] show ?thesis by (simp add: continues_def sorted_wrt_map flip: map_append)
  qed
  have low: "fst f < i" if f: "f \<in> set (?all @ pend)" for f
  proof (cases "pend = []")
    case True
    then obtain l where "last_entry s = Some l" "fst f \<le> l" using D(13) f by (auto simp: last_ok_def)
    with asc True show ?thesis by (auto simp: ascends_def last_frame_id_def)
  next
    case False
    then have "fst f \<le> fst (last pend)" using sorted_key_last [OF srt f] by simp
    moreover have "fst (last pend) < i" using asc False by (simp add: ascends_def last_frame_id_def)
    ultimately show ?thesis by simp
  qed
  then show "\<forall>f \<in> set (?all @ pend). fst f < i" by blast
  have first: "se_first (last (segments (st_state s))) \<le> i"
  proof (cases "pend = []")
    case True
    with asc D(8) show ?thesis by (simp add: ascends_def last_frame_id_def)
  next
    case False
    then have "se_first (last (segments (st_state s))) \<le> fst (last pend)" "fst (last pend) < i"
      using cont low by (simp_all add: continues_def)
    then show ?thesis by simp
  qed
  have "\<forall>f \<in> set pend. fits f \<and> se_first (last (segments (st_state s))) \<le> fst f"
    using cont by (cases "pend = []") (simp_all add: continues_def)
  moreover have "sorted_wrt (\<lambda>f g. fst f < fst g) (?all @ pend @ [(i, p)])"
    using srt low by (auto simp: sorted_wrt_append)
  ultimately show "continues fs (st_state s) (pend @ [(i, p)])"
    using first len by (auto simp: continues_def fits_def sorted_wrt_map simp flip: map_append)
qed

lemma pushes_refine:
  assumes h: "holds C l (wr, s, w)" and asc: "ascends wr s (EntryId i)" and len: "length p < 2 ^ 32"
    and run: "push C i p (wr, s) = (wr', s')"
  shows "\<exists>l'. log_step l (Push i p) l' \<and> holds C l' (wr', s', w)"
proof -
  let ?pend = "log_pending l" and ?f = "(EntryId i, p)"
  obtain ms fs where ok: "store_ok C ms fs ?pend (s, w)" and same: "same_log l fs (st_state s)"
    and wr: "wr = batch_of ?pend" and cont: "?pend \<noteq> [] \<Longrightarrow> continues fs (st_state s) ?pend"
    and roll: "rollover_pending s \<Longrightarrow> fs (active_id s) \<noteq> []"
    by (rule holdsE [OF h]) blast
  have r: "wr' = batch_of (?pend @ [?f])" "store_ok C ms fs (?pend @ [?f]) (s', w)"
    "st_state s' = st_state s" "rollover_pending s' = rollover_pending s" "active_id s' = active_id s"
    using push_ok [OF ok, of i p] run unfolding wr by simp_all
  note c = continues_snoc [OF ok cont asc [unfolded wr] len]
  have "set (log_entries l) \<subseteq> set (all_frames fs (st_state s))"
    using same by (auto simp: same_log_def live_frames_def)
  then have "log_step l (Push i p) (l\<lparr>log_pending := ?pend @ [?f]\<rparr>)"
    using c(2) by (intro log_step.pushed) auto
  moreover have "holds C (l\<lparr>log_pending := ?pend @ [?f]\<rparr>) (wr', s', w)"
    using r c(1) same roll
    by (intro holdsI [where pend = "?pend @ [?f]" and fs = fs and ms = ms]) (simp_all add: same_log_def)
  ultimately show ?thesis by blast
qed

lemma same_log_append:
  assumes "same_log l fs st" and "all_frames fs' st' = all_frames fs st @ new"
    and "head_entry st' = head_entry st" and "metadata st' = metadata st"
  shows "same_log (log_append new l) fs' st'"
  using assms(1,3,4) unfolding same_log_def live_frames_def assms(2)
  by (simp add: log_append_def)

lemma writes_refine:
  assumes h: "holds C l (wr, s, w)" and fit: "roll_fits C wr s"
    and run: "write_batch C wr (s, w) = (Inr c, s', w')"
  shows "\<exists>l'. log_step l Write l' \<and> holds C l' (writer_new, s', w')"
proof (intro exI conjI, rule log_step.written)
  let ?pend = "log_pending l" and ?l = "log_append (log_pending l) l"
  obtain ms fs where ok: "store_ok C ms fs ?pend (s, w)" and same: "same_log l fs (st_state s)"
    and wr: "wr = batch_of ?pend" and cont: "?pend \<noteq> [] \<Longrightarrow> continues fs (st_state s) ?pend"
    and roll: "rollover_pending s \<Longrightarrow> fs (active_id s) \<noteq> []"
    by (rule holdsE [OF h]) blast
  note D = store_okD [OF ok]
  note wd = image_world(4,5) [OF D(1)]
  have p: "log_pending ?l = []" by (simp add: log_append_def)
  consider "?pend = []" | "?pend \<noteq> []" "rollover_pending s = False" | "?pend \<noteq> []" "rollover_pending s" by blast
  then show "holds C ?l (writer_new, s', w')"
  proof cases
    case 1
    then have "s' = s" "w' = w" using run wr by (simp_all add: write_batch_def ok_def)
    with ok same roll 1 show ?thesis
      by (intro holdsI [where pend = "[]" and fs = fs and ms = ms]) (simp_all add: log_append_def same_log_def)
  next
    case 2
    let ?fs = "fs(active_id s := fs (active_id s) @ ?pend)"
    have r: "store_ok C ms ?fs [] (s', w')" "st_state s' = st_state s" "active_id s' = active_id s"
      using write_batch_run [OF ok 2(2) cont [OF 2(1)]] run unfolding wr by auto
    have "same_log ?l ?fs (st_state s')" unfolding r(2)
      by (rule same_log_append [OF same frames_append [OF wd store_ok_active(1) [OF ok]] refl refl])
    with r 2(1) p show ?thesis by (intro holdsI [where pend = "[]" and fs = ?fs and ms = ms]) simp_all
  next
    case 3
    let ?i = "next_seg_id s" and ?fs = "fs(next_seg_id s := ?pend)"
    have fit': "next_segment_id ?i \<noteq> None" "op_writable C (bare (rollover_op s (fst (hd ?pend))))"
      "MAGIC_LEN + length (frames_bytes C (fs (active_id s))) < 2 ^ 64"
      using fit 3 D(7) by (simp_all add: roll_fits_def wr)
    obtain ms' where r: "store_ok C ms' ?fs [] (s', w')" "active_id s' = ?i"
      "segments (st_state s') = segments (st_state s) @ [\<lparr>se_id = ?i, se_first = fst (hd ?pend)\<rparr>]"
      "head_entry (st_state s') = head_entry (st_state s)" "metadata (st_state s') = metadata (st_state s)"
      using write_batch_rolls [OF ok 3(2) roll [OF 3(2)] cont [OF 3(1)] fit'] run unfolding wr by auto
    have "?i \<notin> set (ids_of (st_state s))" using D(10) by (auto simp: tracked_def)
    then have "map ?fs (ids_of (st_state s)) = map fs (ids_of (st_state s))" by (auto simp: image_iff)
    then have "all_frames ?fs (st_state s') = all_frames fs (st_state s) @ ?pend"
      by (simp only: r(3) map_append) simp
    then have "same_log ?l ?fs (st_state s')" by (rule same_log_append [OF same _ r(4,5)])
    with r(1,2) 3(1) p show ?thesis by (intro holdsI [where pend = "[]" and fs = ?fs and ms = ms']) simp_all
  qed
qed

lemma batch_runs:
  assumes ok: "store_ok C ms fs pend (s, w)" and wr: "wr = batch_of pend"
    and cont: "pend \<noteq> [] \<Longrightarrow> continues fs (st_state s) pend"
    and roll: "rollover_pending s \<Longrightarrow> fs (active_id s) \<noteq> []" and fit: "roll_fits C wr s"
  shows "\<exists>c s' w'. write_batch C wr (s, w) = (Inr c, s', w')"
proof (cases "pend = []")
  case True
  then show ?thesis by (simp add: wr write_batch_def ok_def)
next
  case ne: False
  show ?thesis
  proof (cases "rollover_pending s")
    case True
    have "next_segment_id (next_seg_id s) \<noteq> None" "op_writable C (bare (rollover_op s (fst (hd pend))))"
      "MAGIC_LEN + length (frames_bytes C (fs (active_id s))) < 2 ^ 64"
      using fit True ne store_okD(7) [OF ok] by (simp_all add: roll_fits_def wr)
    from write_batch_rolls [OF ok True roll [OF True] cont [OF ne] this] show ?thesis unfolding wr by blast
  next
    case False
    then have "rollover_pending s = False" by simp
    from write_batch_run [OF ok this cont [OF ne]] show ?thesis unfolding wr by blast
  qed
qed

text \<open>Truncation drops whole segments whose entries are all before the new head.\<close>

lemma filter_concat_filter:
  "\<forall>i \<in> set is. \<not> Q i \<longrightarrow> (\<forall>f \<in> set (fs i). \<not> P f) \<Longrightarrow>
     filter P (concat (map fs (filter Q is))) = filter P (concat (map fs is))"
  by (induction "is") (auto simp: filter_empty_conv)

lemma truncates_refine:
  assumes h: "holds C l (wr, s, w)" and b: "batch_count wr = 0"
    and wm: "op_writable C (with_meta (TruncateStart (EntryId i) (to_evict (st_state s) (EntryId i))) kvs)"
    and run: "store_truncate_start C i kvs (s, w) = (Inr (), s', w')"
  shows "\<exists>l'. log_step l (TruncateStartAt i kvs) l' \<and> holds C l' (wr, s', w')"
proof -
  let ?ev = "to_evict (st_state s) (EntryId i)"
  obtain ms fs where ok: "store_ok C ms fs (log_pending l) (s, w)" and same: "same_log l fs (st_state s)"
    and wr: "wr = batch_of (log_pending l)" and roll: "rollover_pending s \<Longrightarrow> fs (active_id s) \<noteq> []"
    by (rule holdsE [OF h]) blast
  have p: "log_pending l = []" using b wr by simp
  have le: "head_entry (st_state s) \<le> EntryId i"
    using run by (auto simp: store_truncate_start_def Let_def split: if_splits)
  obtain ms' where r: "store_ok C ms' fs (log_pending l) (s', w')"
    "segments (st_state s') = filter (\<lambda>e. se_id e \<notin> set ?ev) (segments (st_state s))"
    "head_entry (st_state s') = EntryId i"
    "metadata (st_state s') = fold set_pair kvs (metadata (st_state s))"
    "active_id s' = active_id s" "rollover_pending s' = rollover_pending s"
    using truncate_start_run [OF ok le wm] run by auto
  let ?l = "log_set kvs (l\<lparr>log_entries := filter (\<lambda>f. EntryId i \<le> fst f) (log_entries l), log_head := EntryId i\<rparr>)"
  have ids: "ids_of (st_state s') = filter (\<lambda>j. j \<notin> set ?ev) (ids_of (st_state s))"
    by (simp add: r(2) filter_map o_def)
  have "\<not> EntryId i \<le> fst f" if "j \<in> set ?ev" "f \<in> set (fs j)" for j f
    using not_evicted [OF store_okD(3) [OF ok] that(2)] that(1) by blast
  then have "filter (\<lambda>f. EntryId i \<le> fst f) (all_frames fs (st_state s'))
      = filter (\<lambda>f. EntryId i \<le> fst f) (all_frames fs (st_state s))"
    unfolding ids by (intro filter_concat_filter) blast
  moreover have "filter (\<lambda>f. EntryId i \<le> fst f) (log_entries l)
      = filter (\<lambda>f. EntryId i \<le> fst f) (all_frames fs (st_state s))"
    using same le by (auto simp: same_log_def live_frames_def intro!: filter_cong)
  ultimately have "same_log ?l fs (st_state s')"
    using same by (simp add: same_log_def live_frames_def log_set_def r(3,4) map_of_set_pairs)
  with r(1,5,6) p wr roll have "holds C ?l (wr, s', w')"
    by (intro holdsI [where pend = "[]" and fs = fs and ms = ms']) (simp_all add: log_set_def)
  moreover have "log_step l (TruncateStartAt i kvs) ?l"
    using le same by (intro log_step.head_moved) (simp add: same_log_def)
  ultimately show ?thesis by blast
qed

lemma rolls_back_refine:
  assumes h: "holds C l (wr, s, w)" and b: "batch_count wr = 0" and fit: "rollback_fits C s (EntryId i)"
    and run: "store_truncate_end C i (s, w) = (Inr (), s', w')"
  shows "\<exists>l'. log_step l (TruncateEndAt i) l' \<and> holds C l' (wr, s', w')"
proof (intro exI conjI, rule log_step.rolled_back)
  let ?l = "l\<lparr>log_entries := filter (\<lambda>f. fst f \<le> EntryId i) (log_entries l)\<rparr>"
  obtain ms fs where ok: "store_ok C ms fs (log_pending l) (s, w)" and same: "same_log l fs (st_state s)"
    and wr: "wr = batch_of (log_pending l)" and roll: "rollover_pending s \<Longrightarrow> fs (active_id s) \<noteq> []"
    by (rule holdsE [OF h]) blast
  note D = store_okD [OF ok]
  have p: "log_pending l = []" using b wr by simp
  show "holds C ?l (wr, s', w')"
  proof (cases "\<exists>m. last_entry s = Some m \<and> EntryId i < m")
    case False
    then have "(case last_entry s of None \<Rightarrow> True | Some m \<Rightarrow> m \<le> EntryId i)"
      by (auto split: option.split simp: not_less)
    then have "s' = s" "w' = w" using run by (simp_all add: store_truncate_end_def Let_def)
    moreover have "fst f \<le> EntryId i" if "f \<in> set (log_entries l)" for f
    proof -
      have "f \<in> set (all_frames fs (st_state s))"
        using that same by (simp add: same_log_def live_frames_def)
      then obtain m where "last_entry s = Some m" "fst f \<le> m" using D(13) unfolding last_ok_def by blast
      with False show ?thesis by force
    qed
    then have "filter (\<lambda>f. fst f \<le> EntryId i) (log_entries l) = log_entries l" by (intro filter_True) blast
    ultimately show ?thesis using ok same wr roll p
      by (intro holdsI [where pend = "[]" and fs = fs and ms = ms]) (simp_all add: same_log_def)
  next
    case True
    then obtain m where m: "last_entry s = Some m" "EntryId i < m" by blast
    obtain pre t post ps q qs where ids: "ids_of (st_state s) = pre @ t # post"
      and fr: "fs t = ps @ (EntryId i, q) # qs"
      and target: "rollback_target (st_state s) (EntryId i) = Some (t, post)"
      by (rule truncate_end_finds [OF ok m run])
    let ?fs = "fs(t := ps @ [(EntryId i, q)])"
    have f: "start_offset (st_index s) t (EntryId i) = MAGIC_LEN"
      "op_writable C (bare (TruncateEnd t off post))" for off
      using fit target by (simp_all add: rollback_fits_def)
    obtain ms' where r: "store_ok C ms' ?fs [] (s', w')" "ids_of (st_state s') = pre @ [t]"
      "head_entry (st_state s') = head_entry (st_state s)"
      "metadata (st_state s') = metadata (st_state s)" "rollover_pending s' = False"
      using truncate_end_run [OF ok m ids fr f(1) refl f(2)] run by auto
    have "distinct (ids_of (st_state s))" using image_world(4) [OF D(1)] by (simp add: wf_state_def)
    from rollback_order(3) [where fs = fs, OF D(3) ids fr this]
    have all: "all_frames ?fs (st_state s') = filter (\<lambda>f. fst f \<le> EntryId i) (all_frames fs (st_state s))"
      unfolding r(2) ..
    have "same_log ?l ?fs (st_state s')"
      using same unfolding same_log_def live_frames_def all r(3,4) by (simp add: conj_commute)
    with r(1,5) p wr show ?thesis
      by (intro holdsI [where pend = "[]" and fs = ?fs and ms = ms']) simp_all
  qed
qed

lemma sets_metadata_refine:
  assumes h: "holds C l (wr, s, w)" and b: "batch_count wr = 0" and wm: "op_writable C (with_meta Metadata kvs)"
    and run: "write_metadata C kvs (s, w) = (Inr (), s', w')"
  shows "\<exists>l'. log_step l (SetMetadata kvs) l' \<and> holds C l' (wr, s', w')"
proof (intro exI conjI, rule log_step.meta_set)
  let ?m = "with_meta Metadata kvs"
  obtain ms fs where ok: "store_ok C ms fs (log_pending l) (s, w)" and same: "same_log l fs (st_state s)"
    and wr: "wr = batch_of (log_pending l)" and roll: "rollover_pending s \<Longrightarrow> fs (active_id s) \<noteq> []"
    by (rule holdsE [OF h]) blast
  have p: "log_pending l = []" using b wr by simp
  note r = write_metadata_ok [OF ok wm]
  have c: "committed C ms ?m (s, w) = (s', w')" using r run by simp
  have parts: "active_id s' = active_id s" "rollover_pending s' = rollover_pending s"
    "st_state s' = snd (apply_manifest_op ?m (st_state s))"
    using c by (auto simp: committed_def)
  then have st: "segments (st_state s') = segments (st_state s)"
    "head_entry (st_state s') = head_entry (st_state s)"
    "metadata (st_state s') = fold set_pair kvs (metadata (st_state s))"
    by (simp_all add: apply_manifest_op_result with_meta_def ok_def)
  have "same_log (log_set kvs l) fs (st_state s')"
    using same st by (simp add: same_log_def live_frames_def log_set_def map_of_set_pairs)
  then show "holds C (log_set kvs l) (wr, s', w')"
    using r c parts p wr roll
    by (intro holdsI [where pend = "[]" and fs = fs and ms = "ms @ [?m]"]) (simp_all add: log_set_def)
qed

lemma deletes_refine:
  assumes h: "holds C l (wr, s, w)" and b: "batch_count wr = 0" and ord: "order_ok C"
    and rec: "recovery_writable C" and run: "delete_dead_segments C (s, w) = (Inr n, s', w')"
  shows "\<exists>l'. log_step l DeleteDead l' \<and> holds C l' (wr, s', w')"
proof (intro exI conjI, rule log_step.deleted)
  obtain ms fs where ok: "store_ok C ms fs (log_pending l) (s, w)" and same: "same_log l fs (st_state s)"
    and wr: "wr = batch_of (log_pending l)" and roll: "rollover_pending s \<Longrightarrow> fs (active_id s) \<noteq> []"
    by (rule holdsE [OF h]) blast
  have p: "log_pending l = []" using b wr by simp
  obtain ms' where r: "store_ok C ms' fs (log_pending l) (s', w')" "st_state s' = with_dead {} (st_state s)"
    "rollover_pending s' = rollover_pending s"
    using delete_dead_run [OF ok ord rec] run by auto
  have "active_id s' = active_id s" using store_okD(6) [OF r(1)] store_okD(6) [OF ok] r(2) by simp
  moreover have "same_log l fs (st_state s')" using same r(2) by (simp add: same_log_def live_frames_def)
  ultimately show "holds C l (wr, s', w')" using r(1,3) p wr roll
    by (intro holdsI [where pend = "[]" and fs = fs and ms = ms']) simp_all
qed

text \<open>A call that stops: the directory it leaves opens to the log before the call or after it.\<close>

lemma recovered_holds:
  assumes rc: "recoverable C fs st w1" and opn: "reopened C trigger w1 s' w'"
    and ord: "order_ok C" and rec: "recovery_writable C"
    and l: "same_log l fs st" "log_pending l = []"
  shows "holds C l (writer_new, s', w')"
proof -
  obtain ms where r: "store_ok C ms fs [] (s', w')" "segments (st_state s') = segments st"
    "head_entry (st_state s') = head_entry st" "metadata (st_state s') = metadata st" "rollover_pending s' = False"
    using recoverable_reopens [OF opn rc ord rec] by blast
  have "same_log l fs (st_state s')" using l(1) r(2-4) by (simp add: same_log_def live_frames_def)
  then show ?thesis using r(1,5) l(2) by (intro holdsI [where pend = "[]" and fs = fs and ms = ms]) simp_all
qed

lemma restarts_refine:
  assumes h: "holds C l (wr, s, w)" and ord: "order_ok C" and rec: "recovery_writable C"
    and run: "reopened C trigger w s' w'"
  shows "\<exists>l'. log_step l Restart l' \<and> holds C l' (writer_new, s', w')"
proof (intro exI conjI, rule log_step.restarted)
  obtain ms fs where ok: "store_ok C ms fs (log_pending l) (s, w)" and same: "same_log l fs (st_state s)"
    by (rule holdsE [OF h]) blast
  have "recoverable C fs (st_state s) w"
    by (rule store_ok_recoverable [OF ok alike_refl image_world(1) [OF store_okD(1) [OF ok]]])
  then show "holds C (l\<lparr>log_pending := []\<rparr>) (writer_new, s', w')"
    by (rule recovered_holds [OF _ run ord rec]) (use same in \<open>simp_all add: same_log_def\<close>)
qed

lemma stopped_after_holds:
  assumes h: "holds C l' (wr', s2, w2)" and step: "log_step l r l'" and a: "alike w2 w1"
    and opn: "reopened C trigger (restarted w1) s' w'" and ord: "order_ok C" and rec: "recovery_writable C"
  shows "\<exists>l'. log_step l (Stopped r) l' \<and> holds C l' (writer_new, s', w')"
proof (intro exI conjI, rule log_step.stopped_after [OF step])
  obtain ms fs where ok: "store_ok C ms fs (log_pending l') (s2, w2)" and same: "same_log l' fs (st_state s2)"
    by (rule holdsE [OF h]) blast
  have "recoverable C fs (st_state s2) (restarted w1)" by (rule store_ok_recoverable [OF ok]) (use a in simp_all)
  then show "holds C (l'\<lparr>log_pending := []\<rparr>) (writer_new, s', w')"
    by (rule recovered_holds [OF _ opn ord rec]) (use same in \<open>simp_all add: same_log_def\<close>)
qed

lemma write_stops_refine:
  assumes h: "holds C l (wr, s, restarted w)" and ord: "order_ok C" and rec: "recovery_writable C"
    and fit: "roll_fits C wr s" and run: "write_batch C wr (s, w) = (r, s1, w1)"
    and opn: "reopened C trigger (restarted w1) s' w'"
  shows "\<exists>l'. log_step l (Stopped Write) l' \<and> holds C l' (writer_new, s', w')"
proof -
  let ?pend = "log_pending l"
  obtain ms fs where ok: "store_ok C ms fs ?pend (s, restarted w)" and same: "same_log l fs (st_state s)"
    and wr: "wr = batch_of ?pend" and cont: "?pend \<noteq> [] \<Longrightarrow> continues fs (st_state s) ?pend"
    and roll: "rollover_pending s \<Longrightarrow> fs (active_id s) \<noteq> []"
    by (rule holdsE [OF h]) blast
  note D = store_okD [OF ok]
  note wd = image_world(4,5) [OF D(1)] and fx = reopened_fixable [OF opn restarted_simps(1)]
  have part: ?thesis if "k \<le> length ?pend" "recoverable C fs' st' (restarted w1)"
    "same_log (log_append (take k ?pend) l) fs' st'" for k fs' st'
    using recovered_holds [OF that(2) opn ord rec that(3)] log_step.cut_short [OF that(1)]
    by (auto simp: log_append_def)
  have before: ?thesis if "recoverable C fs (st_state s) (restarted w1)"
    by (rule part [of 0, OF _ that]) (use same in \<open>simp_all add: log_append_def same_log_def\<close>)
  consider "?pend = []" | "?pend \<noteq> []" "rollover_pending s = False" | "?pend \<noteq> []" "rollover_pending s" by blast
  then show ?thesis
  proof cases
    case 1
    then have "w1 = w" using run wr by (simp add: write_batch_def)
    then show ?thesis using store_ok_recoverable [OF ok, of "restarted w1"] by (intro before) simp
  next
    case 2
    obtain k where k: "k \<le> length ?pend"
      "recoverable C (fs(active_id s := fs (active_id s) @ take k ?pend)) (st_state s) (restarted w1)"
      by (rule write_stops [OF ok 2(2) cont [OF 2(1)] run [unfolded wr]])
    show ?thesis
      by (rule part [OF k same_log_append [OF same frames_append [OF wd store_ok_active(1) [OF ok]] refl refl]])
  next
    case 3
    let ?i = "next_seg_id s"
    have fit': "next_segment_id ?i \<noteq> None" "op_writable C (bare (rollover_op s (fst (hd ?pend))))"
      "MAGIC_LEN + length (frames_bytes C (fs (active_id s))) < 2 ^ 64"
      using fit 3 D(7) by (simp_all add: roll_fits_def wr)
    show ?thesis
    proof (rule rolling_write_stops [OF ok 3(2) roll [OF 3(2)] cont [OF 3(1)] fit' run [unfolded wr] fx])
      assume "recoverable C fs (st_state s) (restarted w1)"
      then show ?thesis by (rule before)
    next
      fix k st'
      assume k: "k \<le> length ?pend" "recoverable C (fs(?i := take k ?pend)) st' (restarted w1)"
        and st: "segments st' = segments (st_state s) @ [\<lparr>se_id = ?i, se_first = fst (hd ?pend)\<rparr>]"
          "head_entry st' = head_entry (st_state s)" "metadata st' = metadata (st_state s)"
      have "?i \<notin> set (ids_of (st_state s))" using D(10) by (auto simp: tracked_def)
      then have "map (fs(?i := take k ?pend)) (ids_of (st_state s)) = map fs (ids_of (st_state s))"
        by (auto simp: image_iff)
      then have "all_frames (fs(?i := take k ?pend)) st' = all_frames fs (st_state s) @ take k ?pend"
        by (simp only: st(1) map_append) simp
      then show ?thesis by (rule part [OF k same_log_append [OF same _ st(2,3)]])
    qed
  qed
qed

lemma kept_holds:
  assumes same: "same_log l fs (st_state s)" and rc: "recoverable C fs st (restarted w1)"
    and opn: "reopened C trigger (restarted w1) s' w'" and ord: "order_ok C" and rec: "recovery_writable C"
    and st: "segments st = segments (st_state s)" "head_entry st = head_entry (st_state s)"
      "metadata st = metadata (st_state s)"
  shows "\<exists>l'. log_step l (Stopped r) l' \<and> holds C l' (writer_new, s', w')"
  using recovered_holds [OF rc opn ord rec, of "l\<lparr>log_pending := []\<rparr>"] same st log_step.stopped_before
  by (auto simp: same_log_def live_frames_def)

lemma truncate_end_stops_refine:
  assumes h: "holds C l (wr, s, restarted w)" and ord: "order_ok C" and rec: "recovery_writable C"
    and b: "batch_count wr = 0" and fit: "rollback_fits C s (EntryId i)"
    and run: "store_truncate_end C i (s, w) = (res, s1, w1)" and opn: "reopened C trigger (restarted w1) s' w'"
  shows "\<exists>l'. log_step l (Stopped (TruncateEndAt i)) l' \<and> holds C l' (writer_new, s', w')"
proof -
  obtain ms fs where ok: "store_ok C ms fs (log_pending l) (s, restarted w)" and same: "same_log l fs (st_state s)"
    by (rule holdsE [OF h]) blast
  have "start_offset (st_index s) t (EntryId i) = MAGIC_LEN \<and> (\<forall>off. op_writable C (bare (TruncateEnd t off post)))"
    if "rollback_target (st_state s) (EntryId i) = Some (t, post)" for t post
    using that fit by (simp add: rollback_fits_def)
  note stop = truncate_end_stops [OF ok this run reopened_fixable [OF opn restarted_simps(1)]]
  show ?thesis
  proof (rule stop)
    assume "recoverable C fs (st_state s) (restarted w1)"
    then show ?thesis by (rule kept_holds [OF same _ opn ord rec]) simp_all
  next
    fix s2 w2
    assume q: "store_truncate_end C i (s, restarted w) = (Inr (), s2, w2)" and a: "alike w2 w1"
    obtain l' where "log_step l (TruncateEndAt i) l'" "holds C l' (wr, s2, w2)"
      using rolls_back_refine [OF h b fit q] by blast
    then show ?thesis using stopped_after_holds [OF _ _ a opn ord rec] by blast
  next
    fix pre t ps q qs
    assume ids: "ids_of (st_state s) = pre @ [t]" and fr: "fs t = ps @ (EntryId i, q) # qs"
      and rc: "recoverable C (fs(t := ps @ [(EntryId i, q)])) (st_state s) (restarted w1)"
    let ?fs = "fs(t := ps @ [(EntryId i, q)])"
    let ?l = "l\<lparr>log_entries := filter (\<lambda>f. fst f \<le> EntryId i) (log_entries l)\<rparr>"
    have ids': "ids_of (st_state s) = pre @ t # []" using ids by simp
    have "distinct (ids_of (st_state s))" using image_world(4) [OF store_okD(1) [OF ok]] by (simp add: wf_state_def)
    from rollback_order(3) [where fs = fs, OF store_okD(3) [OF ok] ids' fr this]
    have "all_frames ?fs (st_state s) = filter (\<lambda>f. fst f \<le> EntryId i) (all_frames fs (st_state s))"
      unfolding ids by simp
    then have "same_log (?l\<lparr>log_pending := []\<rparr>) ?fs (st_state s)"
      using same unfolding same_log_def live_frames_def by (simp add: conj_commute)
    from recovered_holds [OF rc opn ord rec this] log_step.stopped_after [OF log_step.rolled_back]
    show ?thesis by auto
  qed
qed

lemma rollback_refused:
  assumes ok: "store_ok C ms fs pend (s, w)" and fit: "rollback_fits C s (EntryId i)"
    and run: "store_truncate_end C i (s, w) = (Inl e, s', w')"
  shows "s' = s \<and> w' = w"
proof -
  let ?st = "st_state s"
  note D = store_okD [OF ok]
  obtain m where m: "last_entry s = Some m" "EntryId i < m"
    using run by (cases "last_entry s") (auto simp: store_truncate_end_def Let_def not_le split: if_splits)
  then have more: "\<not> m \<le> EntryId i" by simp
  show ?thesis
  proof (cases "rollback_target ?st (EntryId i)")
    case None
    then show ?thesis using run m(1) more by (simp add: store_truncate_end_def)
  next
    case (Some target)
    obtain t post where t: "rollback_target ?st (EntryId i) = Some (t, post)" using Some by (cases target) simp
    have live: "t \<in> set (ids_of ?st)" by (rule rollback_target_live [OF t])
    show ?thesis
    proof (cases "EntryId i \<in> fst ` set (fs t)")
      case True
      then obtain q where q: "(EntryId i, q) \<in> set (fs t)" by force
      then obtain ps qs where fr: "fs t = ps @ (EntryId i, q) # qs" by (meson split_list)
      obtain pre post' where ids: "ids_of ?st = pre @ t # post'" using live by (meson split_list)
      have "post' = post"
        using rollback_target_found [OF image_world(4) [OF D(1)] D(3) ids q] t by simp
      note ids = ids [unfolded this]
      have f: "start_offset (st_index s) t (EntryId i) = MAGIC_LEN"
        "op_writable C (bare (TruncateEnd t off post))" for off
        using fit t by (simp_all add: rollback_fits_def)
      from truncate_end_run [OF ok m ids fr f(1) refl f(2)] run show ?thesis by auto
    next
      case False
      from rollback_offset_missing [OF ok live this] show ?thesis
        using run m(1) more t by (simp add: store_truncate_end_def and_then_def on_world_def)
    qed
  qed
qed

lemma stops_refine:
  assumes h: "holds C l (wr, s, restarted w)" and ord: "order_ok C" and rec: "recovery_writable C"
    and fit: "call_fits C wr s r" and run: "perform C wr r (s, w) = (res, s1, w1)"
    and opn: "reopened C trigger (restarted w1) s' w'"
  shows "\<exists>l'. log_step l (Stopped r) l' \<and> holds C l' (writer_new, s', w')"
proof -
  obtain ms fs where ok: "store_ok C ms fs (log_pending l) (s, restarted w)" and same: "same_log l fs (st_state s)"
    by (rule holdsE [OF h]) blast
  note fx = reopened_fixable [OF opn restarted_simps(1)]
  note kept = kept_holds [OF same _ opn ord rec]
  show ?thesis
  proof (cases r)
    case Write
    obtain q where "write_batch C wr (s, w) = (q, s1, w1)"
      using run Write by (auto simp: and_then_def split: prod.splits sum.splits)
    then show ?thesis using write_stops_refine [OF h ord rec _ _ opn] fit Write by simp
  next
    case (TruncateStartAt i kvs)
    then have b: "batch_count wr = 0"
      "op_writable C (with_meta (TruncateStart (EntryId i) (to_evict (st_state s) (EntryId i))) kvs)"
      using fit by simp_all
    show ?thesis
    proof (rule truncate_start_stops [OF ok b(2) run [unfolded TruncateStartAt perform.simps] fx])
      assume "recoverable C fs (st_state s) (restarted w1)"
      then show ?thesis by (rule kept) simp_all
    next
      fix s2 w2
      assume q: "store_truncate_start C i kvs (s, restarted w) = (Inr (), s2, w2)" and a: "alike w2 w1"
      obtain l' where "log_step l (TruncateStartAt i kvs) l'" "holds C l' (wr, s2, w2)"
        using truncates_refine [OF h b q] by blast
      then show ?thesis unfolding TruncateStartAt using stopped_after_holds [OF _ _ a opn ord rec] by blast
    qed
  next
    case (SetMetadata kvs)
    then have b: "batch_count wr = 0" "op_writable C (with_meta Metadata kvs)" using fit by simp_all
    show ?thesis
    proof (rule write_metadata_stops [OF ok b(2) run [unfolded SetMetadata perform.simps] fx])
      assume "recoverable C fs (st_state s) (restarted w1)"
      then show ?thesis by (rule kept) simp_all
    next
      fix s2 w2
      assume q: "write_metadata C kvs (s, restarted w) = (Inr (), s2, w2)" and a: "alike w2 w1"
      obtain l' where "log_step l (SetMetadata kvs) l'" "holds C l' (wr, s2, w2)"
        using sets_metadata_refine [OF h b q] by blast
      then show ?thesis unfolding SetMetadata using stopped_after_holds [OF _ _ a opn ord rec] by blast
    qed
  next
    case DeleteDead
    obtain q where "delete_dead_segments C (s, w) = (q, s1, w1)"
      using run DeleteDead by (auto simp: and_then_def split: prod.splits sum.splits)
    from delete_dead_stops [OF ok ord rec this fx] obtain D where
      "recoverable C fs (with_dead D (st_state s)) (restarted w1)" by blast
    then show ?thesis by (rule kept) simp_all
  next
    case (TruncateEndAt i)
    then show ?thesis using truncate_end_stops_refine [OF h ord rec _ _ _ opn] fit run by simp
  qed (use fit in simp_all)
qed

lemma calls_refine:
  assumes h: "holds C l (wr, s, w)" and ord: "order_ok C" and rec: "recovery_writable C"
    and fit: "call_fits C wr s r" and run: "perform C wr r (s, w) = (Inr (), s', w')"
  shows "\<exists>l'. log_step l r l' \<and> holds C l' (if r = Write then writer_new else wr, s', w')"
proof (cases r)
  case Write
  then show ?thesis using fit run writes_refine [OF h] by (auto simp: and_then_eq_Inr)
next
  case (TruncateStartAt i kvs)
  then show ?thesis using fit run truncates_refine [OF h] by simp
next
  case (TruncateEndAt i)
  then show ?thesis using fit run rolls_back_refine [OF h] by simp
next
  case (SetMetadata kvs)
  then show ?thesis using fit run sets_metadata_refine [OF h] by simp
next
  case DeleteDead
  then show ?thesis using fit run deletes_refine [OF h _ ord rec] by (auto simp: and_then_eq_Inr)
qed (use fit in simp_all)

text \<open>What a working device refuses is a truncation before the head and a rollback to an entry that is not
  there; both leave the store and the directory as they were.\<close>

lemma refused_unchanged:
  assumes h: "holds C l (wr, s, w)" and ord: "order_ok C" and rec: "recovery_writable C"
    and fit: "call_fits C wr s r" and run: "perform C wr r (s, w) = (Inl e, s', w')"
  shows "r \<noteq> Write \<and> s' = s \<and> w' = w"
proof -
  obtain ms fs where ok: "store_ok C ms fs (log_pending l) (s, w)" and wr: "wr = batch_of (log_pending l)"
    and cont: "log_pending l \<noteq> [] \<Longrightarrow> continues fs (st_state s) (log_pending l)"
    and roll: "rollover_pending s \<Longrightarrow> fs (active_id s) \<noteq> []"
    by (rule holdsE [OF h]) blast
  show ?thesis
  proof (cases r)
    case Write
    then have "roll_fits C wr s" using fit by simp
    from batch_runs [OF ok wr cont roll this] show ?thesis
      using run Write by (auto simp: and_then_def ok_def)
  next
    case (TruncateStartAt i kvs)
    show ?thesis
    proof (cases "head_entry (st_state s) \<le> EntryId i")
      case True
      from truncate_start_run [OF ok this, of kvs] show ?thesis using run fit TruncateStartAt by auto
    next
      case False
      then show ?thesis using run TruncateStartAt by (auto simp: store_truncate_start_def Let_def split: if_splits)
    qed
  next
    case (TruncateEndAt i)
    then show ?thesis using rollback_refused [OF ok, of i e s' w'] run fit by simp
  next
    case (SetMetadata kvs)
    then show ?thesis using write_metadata_ok [OF ok, of kvs] run fit by (auto split: prod.splits)
  next
    case DeleteDead
    then show ?thesis using delete_dead_run [OF ok ord rec] run by (auto simp: and_then_def ok_def)
  qed (use fit in simp_all)
qed

lemma step_refines:
  assumes "store_step C trigger a r b" and "holds C l a" and "order_ok C" and "recovery_writable C"
  shows "\<exists>l'. log_step l r l' \<and> holds C l' b"
  using assms
proof (induction rule: store_step.induct)
  case (pushes wr s i p wr' s' w)
  then show ?case by (intro pushes_refine)
next
  case (calls wr s r w s' w')
  then show ?case by (intro calls_refine)
next
  case (refused wr s r w e s' w')
  then show ?case using refused_unchanged [OF refused(3-5,1,2)] log_step.refused by auto
next
  case (stops wr s r flts w res s1 w1 s' w')
  obtain ms fs where "store_ok C ms fs (log_pending l) (s, w)" by (rule holdsE [OF stops(4)]) blast
  then have "healthy w" using image_world(1) store_okD(1) by blast
  then have "restarted (w\<lparr>faults := flts\<rparr>) = w" by (simp add: healthy_def)
  then have "holds C l (wr, s, restarted (w\<lparr>faults := flts\<rparr>))" using stops(4) by simp
  from stops_refine [OF this stops(5,6,1-3)] show ?case .
next
  case (restarts w s' w' wr s)
  then show ?case by (intro restarts_refine)
qed

lemma created_holds:
  assumes "empty_dir w0" and run: "open_or_create C trigger w0 = (Inr s, w)"
    and "op_writable C first_op" and "order_ok C" and "recovery_writable C"
  shows "holds C empty_log (writer_new, s, w)"
proof -
  have r: "store_ok C [first_op] (\<lambda>_. []) [] (s, w)" "st_state s = fresh_state" "rollover_pending s = False"
    using fresh_opens [OF assms(1,3-5), of trigger] run by auto
  have "same_log empty_log (\<lambda>_. []) (st_state s)"
    by (simp add: same_log_def live_frames_def empty_log_def r(2) fresh_state_def)
  with r show ?thesis
    by (intro holdsI [where pend = "[]" and fs = "\<lambda>_. []" and ms = "[first_op]"]) (simp_all add: empty_log_def)
qed

text \<open>The store simulates the log.\<close>

interpretation store_log: safe_simulation "\<lambda>a. crates_ok C \<and> session_start C trigger a" "store_step C trigger"
  "(=) empty_log" log_step "\<lambda>l a. crates_ok C \<and> holds C l a" wf_log for C trigger
proof (unfold_locales, goal_cases)
  case (1 a)
  then show ?case using created_holds [where C = C] by (force simp: crates_ok_def session_start_def)
next
  case (2 l a r b)
  then show ?case using step_refines [of C trigger a r b l] by (auto simp: crates_ok_def)
qed

lemma run_holds:
  assumes "store_run C trigger rs a" and "crates_ok C"
  obtains l where "log_run rs l" and "wf_log l" and "holds C l a"
proof -
  have "run (\<lambda>a. crates_ok C \<and> session_start C trigger a) (store_step C trigger) rs a"
    using assms(1)
    by (induction rule: run.induct) (auto intro: run.intros simp: assms(2))
  then show thesis using store_log.safe_run that by metis
qed

section \<open>What runs show\<close>

text \<open>Reading the store of a session after opening it again.\<close>

lemma holds_reads:
  assumes h: "holds C l (wr, s, w)" and ord: "order_ok C" and rec: "recovery_writable C"
  obtains s2 w2 where "open_store C trigger w = (Inr s2, w2)" and "first_entry_id s2 = eid (log_head l)"
    and "map_of (store_metadata s2) = log_meta l"
    and "\<And>i. \<exists>rd n. scan_from s2 i w2 = (Inr rd, w2)
      \<and> drain n s2 rd w2 = Some (Inr (filter (\<lambda>f. EntryId i \<le> fst f) (log_entries l)))"
proof -
  obtain ms fs where ok: "store_ok C ms fs (log_pending l) (s, w)" and same: "same_log l fs (st_state s)"
    by (rule holdsE [OF h]) blast
  note D = store_okD [OF ok]
  obtain s2 w2 where o: "open_store C trigger w = (Inr s2, w2)" "store_ok C ms fs [] (s2, w2)"
    "st_state s2 = st_state s" "index_full fs (st_state s) (st_index s2)"
    using reopens [OF D(1-3) ord rec next_after_tracked [OF ok], of trigger] by blast
  have f: "first_entry_id s2 = eid (log_head l)" using same o(3) by (simp add: first_entry_id_def same_log_def)
  have reads: "\<exists>rd n. scan_from s2 i w2 = (Inr rd, w2)
      \<and> drain n s2 rd w2 = Some (Inr (filter (\<lambda>f. EntryId i \<le> fst f) (log_entries l)))" for i
  proof -
    have bound: "scan_bound s2 i \<le> fst g \<longleftrightarrow> log_head l \<le> fst g \<and> EntryId i \<le> fst g" for g :: frame
    proof -
      have "max i (eid (log_head l)) \<le> eid (fst g) \<longleftrightarrow> eid (log_head l) \<le> eid (fst g) \<and> i \<le> eid (fst g)"
        by auto
      then show ?thesis unfolding scan_bound_def f less_eq_entry_id_def entry_id.sel .
    qed
    have "log_entries l = filter (\<lambda>g. log_head l \<le> fst g) (all_frames fs (st_state s))"
      using same by (simp add: same_log_def live_frames_def)
    then have "filter (\<lambda>f. scan_bound s2 i \<le> fst f) (all_frames fs (st_state s2))
        = filter (\<lambda>f. EntryId i \<le> fst f) (log_entries l)"
      unfolding o(3) bound by (simp only: filter_filter)
    then show ?thesis using scan_exact [OF o(2) o(4) [folded o(3)], of i] by metis
  qed
  show thesis
    by (rule that [OF o(1) f _ reads]) (use same o(3) in \<open>simp add: same_log_def store_metadata_def\<close>)
qed

lemma sample_crates_ok: "crates_ok sample"
  by (simp add: crates_ok_def sample_order sample_recovery_writable sample_first_writable)

text \<open>A run: one entry is written, a second one pushed, and the process restarts.\<close>

definition sample_requests :: "request list" where
  "sample_requests = [Push 0 [7], Write, Push 1 [8], Restart]"

lemma sample_run:
  obtains s w where "store_run sample 1000 sample_requests (writer_new, s, w)"
proof -
  obtain s0 w0 where s0: "open_or_create sample 1000 empty_world = (Inr s0, w0)"
    "store_ok sample [first_op] (\<lambda>_. []) [] (s0, w0)" "st_state s0 = fresh_state" "last_entry s0 = None"
    "rollover_pending s0 = False"
    using fresh_opens [OF empty_world_dir sample_first_writable sample_order sample_recovery_writable,
        of 1000] by blast
  have first: "active_first_entry s \<le> EntryId 1" "active_first_entry s \<le> EntryId 0"
    if "store_ok sample ms fs pend (s, w)" "st_state s = fresh_state" for ms fs pend s w
    using store_okD(8) [OF that(1)] that(2) by (simp_all add: fresh_state_def less_eq_entry_id_def)
  have r0: "store_run sample 1000 [] (writer_new, s0, w0)"
    using empty_world_dir s0(1) by (auto simp: run_Nil session_start_def)
  obtain wr1 s1 where p1: "push sample 0 [7] (writer_new, s0) = (wr1, s1)" by fastforce
  have s1: "wr1 = batch_of first_batch" "store_ok sample [first_op] (\<lambda>_. []) first_batch (s1, w0)"
    "st_state s1 = fresh_state" "rollover_pending s1 = False"
    using push_ok [OF s0(2), of 0 "[7]"] p1 s0(3,5) by (simp_all add: first_batch_def)
  have "ascends writer_new s0 (EntryId 0)" using first [OF s0(2,3)] s0(4) by (simp add: ascends_def)
  then have "store_step sample 1000 (writer_new, s0, w0) (Push 0 [7]) (wr1, s1, w0)"
    using p1 by (intro store_step.pushes) simp_all
  with r0 have r1: "store_run sample 1000 [Push 0 [7]] (wr1, s1, w0)" using run.run_step by fastforce
  obtain c s2 w2 where wb: "write_batch sample wr1 (s1, w0) = (Inr c, s2, w2)"
    and s2: "store_ok sample [first_op] ((\<lambda>_. [])(active_id s1 := first_batch)) [] (s2, w2)"
      "st_state s2 = fresh_state" "last_entry s2 = Some (EntryId 0)"
    using write_batch_run [OF s1(2,4)] continues_first s1(1,3) by (auto simp: first_batch_def last_frame_id_def)
  have "roll_fits sample wr1 s1" using s1(4) by (simp add: roll_fits_def)
  then have "store_step sample 1000 (wr1, s1, w0) Write (if Write = Write then writer_new else wr1, s2, w2)"
    using wb by (intro store_step.calls) (simp_all add: and_then_def)
  from run.run_step [OF r1 this]
  have r2: "store_run sample 1000 [Push 0 [7], Write] (writer_new, s2, w2)" by simp
  obtain wr3 s3 where p3: "push sample 1 [8] (writer_new, s2) = (wr3, s3)" by fastforce
  have "ascends writer_new s2 (EntryId 1)"
    using first [OF s2(1,2)] s2(3) by (simp add: ascends_def less_entry_id_def)
  from run.run_step [OF r2 store_step.pushes [OF this _ p3]]
  have r3: "store_run sample 1000 [Push 0 [7], Write, Push 1 [8]] (wr3, s3, w2)" by simp
  obtain l where h: "holds sample l (wr3, s3, w2)"
    by (rule run_holds [OF r3 sample_crates_ok])
  obtain s4 w4 where "open_store sample 1000 w2 = (Inr s4, w4)"
    by (rule holds_reads [OF h sample_order sample_recovery_writable])
  from run.run_step [OF r3 store_step.restarts [OF reopened.opened [OF this]]]
  show thesis by (intro that) (simp add: sample_requests_def)
qed

lemma sample_log:
  assumes "log_run sample_requests l"
  shows "log_entries l = [(EntryId 0, [7])]"
proof -
  have "sample_requests = ((([] @ [Push 0 [7]]) @ [Write]) @ [Push 1 [8]]) @ [Restart]"
    by (simp add: sample_requests_def)
  from assms [unfolded this run_snoc run_Nil] show ?thesis
    by (auto simp: log_step_simps log_append_def empty_log_def)
qed

text \<open>And then the device fails in the middle of a metadata operation, and again when opening repairs
  the manifest.\<close>

lemma stopped_run:
  obtains s w s1 w1 s2 w2 where "store_run sample 1000 sample_requests (writer_new, s, w)"
    and "perform sample writer_new (SetMetadata [(1, [5])]) (s, w\<lparr>faults := [Some 5]\<rparr>) = (Inl (Err DeviceFault), s1, w1)"
    and "attempt_recovery sample (fst (scan_store sample w1)) False (w1\<lparr>faults := [Some 0]\<rparr>)
      = (Inl (Err (IoError DeviceFault)), w1)"
    and "store_run sample 1000 (sample_requests @ [Stopped (SetMetadata [(1, [5])])]) (writer_new, s2, w2)"
proof -
  let ?m = "with_meta Metadata [(1 :: u8, [5 :: u8])]"
  obtain s w where r: "store_run sample 1000 sample_requests (writer_new, s, w)" by (rule sample_run)
  obtain l where "holds sample l (writer_new, s, w)" by (rule run_holds [OF r sample_crates_ok])
  then obtain ms fs where ok: "store_ok sample ms fs (log_pending l) (s, w)" by (rule holdsE) blast
  have wm: "op_writable sample ?m"
    by (rule sample_writable) (simp add: with_meta_def encode_sample_simps)
  let ?t = "take 5 (frame_bytes sample (op_frame sample ?m))"
  have "5 < HEADER_LEN" by (simp add: HEADER_LEN_def)
  from commit_op_cut_image [OF ok wm this] obtain s1 w1 where
    c: "commit_op sample ?m (s, w\<lparr>faults := [Some 5]\<rparr>) = (Inl (Err DeviceFault), s1, w1)"
    "crash_image sample ms (st_state s) fs ?t [] w1" "on_disk w1 = tracked (st_state s)" by blast
  obtain s2 w2 where o: "open_store sample 1000 w1 = (Inr s2, w2)"
    using reopens [OF c(2,3) store_okD(3) [OF ok] sample_order sample_recovery_writable next_after_tracked [OF ok], of 1000]
    by blast
  have p: "perform sample writer_new (SetMetadata [(1, [5])]) (s, w\<lparr>faults := [Some 5]\<rparr>) = (Inl (Err DeviceFault), s1, w1)"
    using c(1) by (simp add: write_metadata_def)
  have w1: "restarted w1 = w1" using image_world(1) [OF c(2)] by (simp add: healthy_def)
  have "?t \<noteq> []" by simp
  note a = first_fix_stops [OF c(2) this, of False 0]
  obtain report where scan: "scan_store sample w1 = (report, w1)" using scan_image [OF c(2)] by simp
  have "reopened sample 1000 (restarted w1) s2 w2"
    using reopened.attempt [OF scan] a o reopened.opened by (metis fst_conv scan w1)
  then have "store_step sample 1000 (writer_new, s, w) (Stopped (SetMetadata [(1, [5])])) (writer_new, s2, w2)"
    using wm by (intro store_step.stops [OF _ p]) simp_all
  from run.run_step [OF r this] show thesis by (rule that [OF r p a])
qed

lemma stopped_log:
  assumes "log_run (sample_requests @ [Stopped (SetMetadata [(1, [5])])]) l"
  shows "log_entries l = [(EntryId 0, [7])]"
proof -
  obtain l0 where l0: "log_run sample_requests l0" "log_step l0 (Stopped (SetMetadata [(1, [5])])) l"
    using assms by (auto simp: run_snoc)
  from l0(2) have "log_entries l = log_entries l0" by cases (auto simp: log_step_simps log_set_def)
  then show ?thesis using sample_log [OF l0(1)] by simp
qed

text \<open>C1: Runs of a store refine the log. A run is any sequence of pushes, whose ids ascend and whose payloads
  are shorter than \<open>2 ^ 32\<close> bytes; of calls of write, both truncations, set metadata and delete dead, whose
  ids, offsets and encoded operations fit their fields, a rollback only to an entry that no index
  checkpoint behind the first of its segment precedes; of such calls that a working device refuses, after
  which the process goes on; and of ends of the process, between two calls or in one in which the device
  fails in any way. After an end the run goes on once the store opens again, maybe after attempts that
  further faults stopped; a run is over when no attempt opens it. For every run there is a log that the
  same requests lead to, where a refused call changes nothing, a call in which the process ended has
  happened or not, and of a batch in which it ended any number of entries was written. Opening the store
  then succeeds and shows that log's head and metadata, and a scan from any id yields exactly the log's
  entries from that id on.\<close>

theorem runs_refine_log:
  assumes "store_run C trigger rs (wr, s, w)" and cr: "crates_ok C"
  shows "\<exists>l s2 w2. log_run rs l \<and> open_store C trigger w = (Inr s2, w2)
    \<and> first_entry_id s2 = eid (log_head l) \<and> map_of (store_metadata s2) = log_meta l
    \<and> (\<forall>i. \<exists>rd n. scan_from s2 i w2 = (Inr rd, w2)
        \<and> drain n s2 rd w2 = Some (Inr (filter (\<lambda>f. EntryId i \<le> fst f) (log_entries l))))"
proof -
  obtain l where l: "log_run rs l" "wf_log l" "holds C l (wr, s, w)" by (rule run_holds [OF assms(1,2)])
  then show ?thesis using holds_reads [OF l(3) crates_okD [OF cr], of trigger] by metis
qed

theorem runs_refine_log_witness:
  "\<exists>s w s1 w1 s2 w2 s3 w3 rd n. store_run sample 1000 sample_requests (writer_new, s, w)
    \<and> perform sample writer_new (SetMetadata [(1, [5])]) (s, w\<lparr>faults := [Some 5]\<rparr>) = (Inl (Err DeviceFault), s1, w1)
    \<and> attempt_recovery sample (fst (scan_store sample w1)) False (w1\<lparr>faults := [Some 0]\<rparr>)
      = (Inl (Err (IoError DeviceFault)), w1)
    \<and> store_run sample 1000 (sample_requests @ [Stopped (SetMetadata [(1, [5])])]) (writer_new, s2, w2)
    \<and> open_store sample 1000 w2 = (Inr s3, w3) \<and> scan_from s3 0 w3 = (Inr rd, w3)
    \<and> drain n s3 rd w3 = Some (Inr [(EntryId 0, [7])])"
proof -
  obtain s w s1 w1 s2 w2 where r: "store_run sample 1000 sample_requests (writer_new, s, w)"
    "perform sample writer_new (SetMetadata [(1, [5])]) (s, w\<lparr>faults := [Some 5]\<rparr>) = (Inl (Err DeviceFault), s1, w1)"
    "attempt_recovery sample (fst (scan_store sample w1)) False (w1\<lparr>faults := [Some 0]\<rparr>)
      = (Inl (Err (IoError DeviceFault)), w1)"
    "store_run sample 1000 (sample_requests @ [Stopped (SetMetadata [(1, [5])])]) (writer_new, s2, w2)"
    by (rule stopped_run)
  obtain l s3 w3 where l: "log_run (sample_requests @ [Stopped (SetMetadata [(1, [5])])]) l"
    "open_store sample 1000 w2 = (Inr s3, w3)"
    "\<forall>i. \<exists>rd n. scan_from s3 i w3 = (Inr rd, w3)
        \<and> drain n s3 rd w3 = Some (Inr (filter (\<lambda>f. EntryId i \<le> fst f) (log_entries l)))"
    using runs_refine_log [OF r(4) sample_crates_ok] by blast
  have "filter (\<lambda>f. EntryId 0 \<le> fst f) (log_entries l) = [(EntryId 0, [7])]"
    using stopped_log [OF l(1)] by simp
  then obtain rd n where "scan_from s3 0 w3 = (Inr rd, w3)" "drain n s3 rd w3 = Some (Inr [(EntryId 0, [7])])"
    using l(3) by metis
  then show ?thesis using r l(2)
    by (intro exI [of _ s] exI [of _ w] exI [of _ s1] exI [of _ w1] exI [of _ s2] exI [of _ w2] exI [of _ s3]
        exI [of _ w3] exI [of _ rd] exI [of _ n]) simp
qed

text \<open>What the store reports as its last id bounds the log.\<close>

lemma holds_last:
  assumes h: "holds C l (wr, s, w)" and ord: "order_ok C" and rec: "recovery_writable C"
    and opn: "open_store C trigger w = (Inr s2, w2)" and f: "f \<in> set (log_entries l)"
  shows "\<exists>m. last_entry_id s2 = Some m \<and> eid (fst f) \<le> m"
proof -
  obtain ms fs where ok: "store_ok C ms fs (log_pending l) (s, w)" and same: "same_log l fs (st_state s)"
    by (rule holdsE [OF h]) blast
  note D = store_okD [OF ok]
  have o: "store_ok C ms fs [] (s2, w2)" "st_state s2 = st_state s"
    using reopens [OF D(1-3) ord rec next_after_tracked [OF ok], of trigger] opn by auto
  have f: "f \<in> set (all_frames fs (st_state s2))" "head_entry (st_state s2) \<le> fst f"
    using f same o(2) by (simp_all add: same_log_def live_frames_def)
  then obtain m where m: "last_entry s2 = Some m" "fst f \<le> m"
    using store_okD(13) [OF o(1)] unfolding last_ok_def by blast
  have "head_entry (st_state s2) \<le> m" by (rule order_trans [OF f(2) m(2)])
  then have "last_entry_id s2 = Some (eid m)"
    unfolding last_entry_id_def less_eq_entry_id_def by (simp add: m(1) not_less)
  then show ?thesis using m(2) unfolding less_eq_entry_id_def by blast
qed

text \<open>C9: The ids read from a store ascend strictly and lie between the first and the last id it reports,
  after every run in which the ids pushed ascend, no rollback goes to an entry behind a later index
  checkpoint of its segment, and every end of the process is followed by an opening that succeeds: the
  runs of the log, with the store opened once more.\<close>

theorem runs_ascend:
  assumes "store_run C trigger rs (wr, s, w)" and cr: "crates_ok C" and opn: "open_store C trigger w = (Inr s2, w2)"
  shows "\<exists>rd n fs. scan_from s2 0 w2 = (Inr rd, w2) \<and> drain n s2 rd w2 = Some (Inr fs)
    \<and> sorted_wrt (\<lambda>f g. fst f < fst g) fs
    \<and> (\<forall>f \<in> set fs. first_entry_id s2 \<le> eid (fst f) \<and> (\<exists>l. last_entry_id s2 = Some l \<and> eid (fst f) \<le> l))"
proof -
  obtain l where l: "log_run rs l" "wf_log l" "holds C l (wr, s, w)" by (rule run_holds [OF assms(1,2)])
  have f: "first_entry_id s2 = eid (log_head l)"
    and rd: "\<exists>rd n. scan_from s2 0 w2 = (Inr rd, w2)
      \<and> drain n s2 rd w2 = Some (Inr (filter (\<lambda>f. EntryId 0 \<le> fst f) (log_entries l)))"
    using holds_reads [OF l(3) crates_okD [OF cr], of trigger] opn by (metis Pair_inject sum.inject(2))+
  have "filter (\<lambda>f. EntryId 0 \<le> fst f) (log_entries l) = log_entries l"
    by (intro filter_True) (simp add: less_eq_entry_id_def)
  then obtain rd n where "scan_from s2 0 w2 = (Inr rd, w2)" "drain n s2 rd w2 = Some (Inr (log_entries l))"
    using rd by metis
  moreover have "sorted_wrt (\<lambda>f g. fst f < fst g) (log_entries l)"
    and "\<forall>g \<in> set (log_entries l). first_entry_id s2 \<le> eid (fst g)"
    using l(2) unfolding wf_log_def sorted_wrt_append f less_eq_entry_id_def [symmetric]
    by simp_all
  ultimately show ?thesis using holds_last [OF l(3) crates_okD [OF cr] opn] by blast
qed

theorem runs_ascend_witness:
  "\<exists>s w s2 w2 rd n l. store_run sample 1000 sample_requests (writer_new, s, w)
    \<and> open_store sample 1000 w = (Inr s2, w2) \<and> scan_from s2 0 w2 = (Inr rd, w2)
    \<and> drain n s2 rd w2 = Some (Inr [(EntryId 0, [7])]) \<and> last_entry_id s2 = Some l"
proof -
  obtain s w where r: "store_run sample 1000 sample_requests (writer_new, s, w)" by (rule sample_run)
  obtain l where l: "log_run sample_requests l" "holds sample l (writer_new, s, w)"
    by (rule run_holds [OF r sample_crates_ok])
  obtain s2 w2 rd' n' where o: "open_store sample 1000 w = (Inr s2, w2)"
    and rd': "scan_from s2 0 w2 = (Inr rd', w2)"
      "drain n' s2 rd' w2 = Some (Inr (filter (\<lambda>f. EntryId 0 \<le> fst f) (log_entries l)))"
    by (rule holds_reads [OF l(2) sample_order sample_recovery_writable]) blast
  have e: "drain n' s2 rd' w2 = Some (Inr [(EntryId 0, [7])])" using rd'(2) sample_log [OF l(1)] by simp
  obtain rd n fs where a: "scan_from s2 0 w2 = (Inr rd, w2)" "drain n s2 rd w2 = Some (Inr fs)"
    "\<forall>f \<in> set fs. \<exists>l. last_entry_id s2 = Some l \<and> eid (fst f) \<le> l"
    using runs_ascend [OF r sample_crates_ok o] by blast
  have "fs = [(EntryId 0, [7])]" using drain_agree [OF e, of n "Inr fs"] a(1,2) rd'(1) by auto
  with a show ?thesis using r o by fastforce
qed

text \<open>C8: No run gets stuck: with a working device and ids and operations that fit their fields, every
  operation succeeds, without an error and without a failing \<^verbatim>\<open>expect\<close>, in every session a run reaches:
  opening, writing what was pushed, truncating at the start at or after the head, writing metadata and
  deleting dead segments.\<close>

theorem runs_progress:
  assumes "store_run C trigger rs (wr, s, w)" and cr: "crates_ok C"
  shows "(\<exists>s' w'. open_store C trigger w = (Inr s', w'))
    \<and> (roll_fits C wr s \<longrightarrow> (\<exists>c s' w'. write_batch C wr (s, w) = (Inr c, s', w')))
    \<and> (\<forall>i kvs. head_entry (st_state s) \<le> EntryId i
        \<and> op_writable C (with_meta (TruncateStart (EntryId i) (to_evict (st_state s) (EntryId i))) kvs)
        \<longrightarrow> (\<exists>s' w'. store_truncate_start C i kvs (s, w) = (Inr (), s', w')))
    \<and> (\<forall>kvs. op_writable C (with_meta Metadata kvs)
        \<longrightarrow> (\<exists>s' w'. write_metadata C kvs (s, w) = (Inr (), s', w')))
    \<and> (\<exists>n s' w'. delete_dead_segments C (s, w) = (Inr n, s', w'))"
proof -
  obtain l where l: "log_run rs l" "wf_log l" "holds C l (wr, s, w)" by (rule run_holds [OF assms(1,2)])
  obtain ms fs where ok: "store_ok C ms fs (log_pending l) (s, w)" and wr: "wr = batch_of (log_pending l)"
    and cont: "log_pending l \<noteq> [] \<Longrightarrow> continues fs (st_state s) (log_pending l)"
    and roll: "rollover_pending s \<Longrightarrow> fs (active_id s) \<noteq> []"
    by (rule holdsE [OF l(3)]) blast
  have "\<exists>s' w'. open_store C trigger w = (Inr s', w')"
    using holds_reads [OF l(3) crates_okD [OF cr], of trigger] by metis
  moreover have "\<exists>c s' w'. write_batch C wr (s, w) = (Inr c, s', w')" if "roll_fits C wr s"
    by (rule batch_runs [OF ok wr cont roll that])
  moreover have "\<exists>s' w'. store_truncate_start C i kvs (s, w) = (Inr (), s', w')"
    if "head_entry (st_state s) \<le> EntryId i"
      "op_writable C (with_meta (TruncateStart (EntryId i) (to_evict (st_state s) (EntryId i))) kvs)" for i kvs
    using truncate_start_run [OF ok that] by blast
  moreover have "\<exists>s' w'. write_metadata C kvs (s, w) = (Inr (), s', w')"
    if "op_writable C (with_meta Metadata kvs)" for kvs
    using write_metadata_ok [OF ok that] by (cases "committed C ms (with_meta Metadata kvs) (s, w)") auto
  moreover have "\<exists>n s' w'. delete_dead_segments C (s, w) = (Inr n, s', w')"
    using delete_dead_run [OF ok crates_okD [OF cr]] by blast
  ultimately show ?thesis by blast
qed

theorem runs_progress_witness:
  "\<exists>s w s' w' s2 w2. store_run sample 1000 sample_requests (writer_new, s, w)
    \<and> open_store sample 1000 w = (Inr s2, w2)
    \<and> write_metadata sample [(1, [5])] (s, w) = (Inr (), s', w')"
proof -
  obtain s w where r: "store_run sample 1000 sample_requests (writer_new, s, w)" by (rule sample_run)
  have "op_writable sample (with_meta Metadata [(1, [5])])"
    by (rule sample_writable) (simp add: with_meta_def encode_sample_simps)
  then show ?thesis
    using runs_progress [OF r sample_crates_ok] r by blast
qed

end
