(* ===== verification/Power_Loss.thy ===== *)
theory Power_Loss
  imports Store_Batches "HOL-Library.Sublist"
begin

text \<open>
  What a loss of power takes away. A file keeps at least the bytes its content shares with the content it
  had when it was last synchronised, and a piece of what was written behind them; with \<open>names\<close>, names the
  directory got or lost since it was synchronised may be as they were before. The theory shows which
  operations of \<^verbatim>\<open>src/store.rs\<close> synchronise all they change, and what opening finds after a loss.
\<close>

section \<open>The loss\<close>

definition survives :: "bytes \<Rightarrow> bytes \<Rightarrow> bytes \<Rightarrow> bool" where
  "survives d c x \<longleftrightarrow> prefix x c \<and> prefix (longest_common_prefix d c) x"

lemma survives_prefix: "prefix d c \<Longrightarrow> survives d c x \<longleftrightarrow> prefix d x \<and> prefix x c"
  using longest_common_prefix_max_prefix [of d d c] longest_common_prefix_prefix1 [of d c]
  by (auto simp: survives_def dest: prefix_order.antisym)

lemma survives_same [simp]: "survives c c x \<longleftrightarrow> x = c"
  by (auto simp: survives_prefix dest: prefix_order.antisym)

definition power_loss :: "bool \<Rightarrow> world \<Rightarrow> world \<Rightarrow> bool" where
  "power_loss names w w' \<longleftrightarrow> healthy w' \<and> wf_world w' \<and> base_dir_exists w' = base_dir_exists w
     \<and> (\<forall>n c. content w n = Some c \<longrightarrow>
          (\<exists>x. content w' n = Some x \<and> survives (saved w n) c x)
          \<or> names \<and> n \<notin> set (listed w) \<and> content w' n = None)
     \<and> (\<forall>n x. content w' n = Some x \<and> content w n = None \<longrightarrow> names \<and> n \<in> set (listed w))
     \<and> (\<forall>n x. content w' n = Some x \<longrightarrow> saved w' n = x)
     \<and> set (listed w') = set (map fst (entries w'))"

lemma power_lossD:
  assumes "power_loss False w w'"
  shows "content w' n = None \<longleftrightarrow> content w n = None"
    and "content w n = Some c \<Longrightarrow> \<exists>x. content w' n = Some x \<and> survives (saved w n) c x"
    and "content w' n = Some x \<Longrightarrow> saved w' n = x"
    and "healthy w'" and "wf_world w'" and "base_dir_exists w' = base_dir_exists w"
proof -
  show "content w' n = None \<longleftrightarrow> content w n = None"
    using assms unfolding power_loss_def by (metis option.distinct(1) option.exhaust)
qed (use assms in \<open>auto simp: power_loss_def\<close>)

text \<open>A loss that takes away nothing, and one that cuts a single file.\<close>

definition settle :: "world \<Rightarrow> world" where
  "settle w = w\<lparr>saved := \<lambda>n. case content w n of None \<Rightarrow> [] | Some c \<Rightarrow> c, listed := map fst (entries w)\<rparr>"

lemma settle_simps [simp]:
  "entries (settle w) = entries w" "base_dir_exists (settle w) = base_dir_exists w"
  "healthy (settle w) = healthy w" "wf_world (settle w) = wf_world w"
  "saved (settle w) n = (case content w n of None \<Rightarrow> [] | Some c \<Rightarrow> c)"
  "listed (settle w) = map fst (entries w)"
  by (simp_all add: settle_def healthy_def wf_world_def)

lemma longest_common_prefix_of: "prefix (longest_common_prefix d c) c"
  by (rule longest_common_prefix_prefix2)

lemma power_loss_file:
  assumes "healthy w" and "wf_world w" and "content w n = Some c" and "survives (saved w n) c x"
  shows "power_loss names w (settle (put_content n x w))"
  using assms wf_world_dir [OF assms(2,3)] longest_common_prefix_of
  by (auto simp: power_loss_def survives_def)

lemma power_loss_none: "healthy w \<Longrightarrow> wf_world w \<Longrightarrow> power_loss names w (settle w)"
  using longest_common_prefix_of by (auto simp: power_loss_def survives_def)

section \<open>Steps that synchronise what they change\<close>

definition all_saved :: "world \<Rightarrow> bool" where
  "all_saved w \<longleftrightarrow> (\<forall>n c. content w n = Some c \<longrightarrow> saved w n = c)"

definition settles :: "world \<Rightarrow> world \<Rightarrow> bool" where
  "settles w w' \<longleftrightarrow> (\<forall>n c. content w' n = Some c \<longrightarrow>
     saved w' n = c \<or> content w n = Some c \<and> saved w' n = saved w n)"

lemma settles_refl [simp, intro]: "settles w w"
  by (simp add: settles_def)

lemma settles_trans: "settles w1 w2 \<Longrightarrow> settles w2 w3 \<Longrightarrow> settles w1 w3"
  unfolding settles_def by metis

lemma settles_saved: "settles w w' \<Longrightarrow> all_saved w \<Longrightarrow> all_saved w'"
  unfolding settles_def all_saved_def by metis

lemma power_loss_saved: "power_loss False w w' \<Longrightarrow> all_saved w'"
  by (simp add: power_loss_def all_saved_def)

text \<open>A step, on the world itself (\<open>p\<close> the identity) or on a state with a world in it, that settles
  the world whenever it succeeds.\<close>

definition stores :: "('s \<Rightarrow> world) \<Rightarrow> ('s, 'e, 'a) step \<Rightarrow> bool" where
  "stores p m \<longleftrightarrow> (\<forall>x a y. m x = (Inr a, y) \<longrightarrow> settles (p x) (p y))"

lemma storesD: "stores p m \<Longrightarrow> m x = (Inr a, y) \<Longrightarrow> settles (p x) (p y)"
  unfolding stores_def by blast

lemma stores_and_then [intro]: "stores p m \<Longrightarrow> (\<And>a. stores p (f a)) \<Longrightarrow> stores p (and_then m f)"
  unfolding stores_def and_then_def by (fastforce intro: settles_trans split: prod.splits sum.splits)

lemma stores_for_each [intro]: "(\<And>x. stores p (f x)) \<Longrightarrow> stores p (for_each f xs)"
  by (induction xs) (auto simp: ok_def stores_def [of p "\<lambda>s. (Inr (), s)"])

lemma stores_ok [intro]: "stores p (ok a)" "stores p (err e)"
  by (simp_all add: stores_def ok_def err_def)

lemma stores_if [intro]: "stores p m \<Longrightarrow> stores p m' \<Longrightarrow> stores p (if b then m else m')"
  by simp

lemma stores_map_err: "stores p m \<Longrightarrow> stores p (map_err g m)"
  unfolding stores_def map_err_def by (fastforce split: prod.splits sum.splits)

lemma settles_same: "entries w' = entries w \<Longrightarrow> saved w' = saved w \<Longrightarrow> settles w w'"
  by (simp add: settles_def)

lemma map_err_and_then: "map_err g (and_then m f) = and_then (map_err g m) (\<lambda>a. map_err g (f a))"
  by (rule ext) (auto simp: map_err_def and_then_def split: prod.splits sum.splits)

text \<open>The calls that only read, and the pairs of a change and the call that synchronises it.\<close>

lemma stores_reads [intro]:
  "stores id (fs_open n)" "stores id (metadata_len n)" "stores id (read_exact f k)"
  by (auto simp: stores_def fs_open_def metadata_len_def read_exact_def read_stream_def call_def Let_def
      intro!: settles_same split: option.splits if_splits prod.splits)

lemma stores_open [intro]: "stores id (open_checked n magic)"
  unfolding open_checked_def check_magic_def
  by (intro stores_and_then stores_reads stores_ok stores_map_err) (auto split: prod.split)

lemma stores_set_len [intro]: "stores id (and_then (set_len f k) (\<lambda>_. sync_all f))"
  by (auto simp: stores_def settles_def set_len_def sync_all_def call_def and_then_eq_Inr split: option.splits)

lemma stores_create [intro]: "stores id (create_segment_file i)"
  by (auto simp: stores_def settles_def create_segment_file_def fs_create_new_def write_all_def write_all_at_def
      sync_all_def call_def and_then_eq_Inr write_bytes_def split: option.splits if_splits)

lemma stores_delete [intro]: "stores id (delete_segment i)"
  by (auto simp: stores_def settles_def delete_segment_def remove_file_def call_def delete_conv'
      split: option.splits if_splits prod.splits sum.splits stop.splits io_kind.splits)

lemma stores_write_op [intro]: "stores snd (write_op C f m)"
  by (auto simp: stores_def settles_def write_op_def cursor_flush_def write_all_at_def sync_all_def call_def
      and_then_def write_bytes_def Let_def split: option.splits if_splits prod.splits sum.splits)

text \<open>The operations of the store and the fix-ups of recovery are made of these; only \<open>write_batch\<close> leaves
  something that is not synchronised.\<close>

lemma stores_commit_op [intro]: "stores snd (commit_op C m)"
proof -
  have "settles w w'" if r: "commit_op C m (s, w) = (Inr a, s', w')" for s w a s' w'
  proof -
    obtain u cur where "write_op C (manifest_file s) m (manifest_cursor s, w) = (Inr u, cur, w')"
      using r by (auto simp: commit_op_def split: prod.splits sum.splits)
    from storesD [OF stores_write_op this] show ?thesis by simp
  qed
  then show ?thesis by (simp add: stores_def)
qed

lemma stores_on_world [intro]: "stores id m \<Longrightarrow> stores snd (on_world m)"
  by (auto simp: stores_def on_world_def split: prod.splits)

lemma stores_update [intro]: "stores snd (update_store g)"
  by (auto simp: stores_def update_store_def)

lemma stores_cut_segment [intro]: "stores id (cut_segment t k)"
  unfolding cut_segment_def open_segment_rw_def by (auto split: prod.split)

lemma stores_rollback_offset [intro]: "stores id (rollback_offset t k i)"
proof -
  have "stores id (\<lambda>w. case scanner_new f k w of (sc, w1) \<Rightarrow> (case fst (scan_to_after i sc) of
      Inl _ \<Rightarrow> (Inl (Err InvalidData), w1) | Inr off \<Rightarrow> (Inr off, w1)))" for f
    by (auto simp: stores_def scanner_new_def read_stream_def Let_def intro!: settles_same
        split: prod.splits sum.splits option.splits)
  then show ?thesis unfolding rollback_offset_def open_segment_def by (auto split: prod.split)
qed

lemma do_rollover_settles: "do_rollover C i (s, w) = (Inr u, s', w') \<Longrightarrow> settles w w'"
  using storesD [OF stores_on_world [OF stores_create], of "next_seg_id s" "(s, w)"]
    storesD [OF stores_commit_op, of C "bare (rollover_op s i)"]
  by (fastforce simp: do_rollover_def and_then_eq_Inr intro: settles_trans split: option.splits)

lemma truncate_start_settles: "store_truncate_start C i kvs (s, w) = (Inr u, s', w') \<Longrightarrow> settles w w'"
  using storesD [OF stores_and_then [OF stores_commit_op stores_update], of C _ _ "(s, w)"]
  by (fastforce simp: store_truncate_start_def Let_def split: if_splits)

lemma write_metadata_settles: "write_metadata C kvs (s, w) = (Inr u, s', w') \<Longrightarrow> settles w w'"
  using storesD [OF stores_commit_op, of C _ "(s, w)"] by (fastforce simp: write_metadata_def)

lemma delete_dead_settles: "delete_dead_segments C (s, w) = (Inr n, s', w') \<Longrightarrow> settles w w'"
proof -
  have "stores snd (and_then (for_each (\<lambda>i. and_then (on_world (delete_segment i))
      (\<lambda>_. commit_op C (bare (SegmentDeleted i)))) xs) (\<lambda>_. ok k))" for xs and k :: nat
    by blast
  from storesD [OF this] show "delete_dead_segments C (s, w) = (Inr n, s', w') \<Longrightarrow> settles w w'"
    unfolding delete_dead_segments_def Let_def prod.case by fastforce
qed

lemma truncate_end_settles: "store_truncate_end C i (s, w) = (Inr u, s', w') \<Longrightarrow> settles w w'"
proof -
  have "stores snd (and_then (on_world (rollback_offset t k j)) (\<lambda>offset.
      and_then (on_world (cut_segment t offset)) (\<lambda>_. and_then (commit_op C (m offset)) (\<lambda>_. update_store (g offset)))))"
    for t k j m g
    by blast
  from storesD [OF this] show "store_truncate_end C i (s, w) = (Inr u, s', w') \<Longrightarrow> settles w w'"
    unfolding store_truncate_end_def Let_def prod.case by (fastforce split: if_splits option.splits prod.splits)
qed

lemma stores_fix_up [intro]: "stores id (apply_fix_up C fx)"
proof -
  have io: "stores id (io_error m)" if "stores id m" for m :: "'b io"
    unfolding io_error_def by (rule stores_map_err [OF that])
  have cut: "stores id (and_then (io_error (set_len f k)) (\<lambda>_. io_error (sync_all f)))" for f k
    unfolding io_error_def map_err_and_then [symmetric] by (intro stores_map_err stores_set_len)
  have op: "stores id (\<lambda>w. case write_op C f m (cur, w) of (r, _, w') \<Rightarrow> (r, w'))" for f m cur
    using stores_write_op [of C f m] by (auto simp: stores_def split: prod.splits)
  have append: "stores id (append_manifest_op C p)" for p
    unfolding append_manifest_op_def open_manifest_rw_def
    by (intro stores_and_then io op stores_open stores_reads) (auto split: prod.split intro!: io op)
  show ?thesis
    by (cases fx)
       (auto simp: truncate_manifest_def truncate_segment_def create_active_segment_def orphan_found_def
          dead_segment_missing_def open_manifest_rw_def open_segment_rw_def
        intro!: io cut append split: prod.split)
qed

lemma recovery_settles: "attempt_recovery C report b w = (Inr u, w') \<Longrightarrow> settles w w'"
proof -
  have "stores id (attempt_recovery C report b)"
    unfolding attempt_recovery_def by (auto split: sum.split)
  then show "attempt_recovery C report b w = (Inr u, w') \<Longrightarrow> settles w w'" by (auto dest: storesD)
qed

lemma stores_from_scan_report: "stores id (from_scan_report trigger report)"
proof -
  have "stores id (map_err g (open_checked n magic))" for g :: "io_kind stop \<Rightarrow> open_error stop" and n magic
    by (intro stores_map_err stores_open)
  then show ?thesis
    unfolding from_scan_report_def Let_def panic_def open_manifest_rw_def
    by (auto split: option.split prod.split)
qed

lemma open_settles:
  assumes img: "crash_image C ms st fs mtail tail w" and wr: "recovery_writable C" and ord: "order_ok C"
    and opn: "open_store C trigger w = (Inr s, w')"
  shows "settles w w'"
proof -
  obtain report where scan: "scan_store C w = (report, w)"
    and iss: "report_issues report = image_issues C ms st fs mtail tail w"
    using scan_image [OF img] by simp
  note from_report = storesD [OF stores_from_scan_report, simplified]
  show ?thesis
  proof (cases "report_issues report = []")
    case True
    then have "from_scan_report trigger report w = (Inr s, w')" using opn by (simp add: open_store_def scan)
    then show ?thesis by (rule from_report)
  next
    case False
    obtain w2 where r: "attempt_recovery C report False w = (Inr (), w2)"
      "crash_image C (ms @ recovery_ops C st w) (with_dead (on_disk w - set (ids_of st)) st) fs [] [] w2"
      using recovery_image [OF img wr ord iss] by blast
    obtain report2 where scan2: "scan_store C w2 = (report2, w2)" using scan_image [OF r(2)] by simp
    have "from_scan_report trigger report2 w2 = (Inr s, w')"
      using opn False r(1) scan2 by (auto simp: open_store_def scan split: prod.splits sum.splits stop.splits open_error.splits)
    from from_report [OF this] show ?thesis
      by (rule settles_trans [OF recovery_settles [OF r(1)]])
  qed
qed

section \<open>A directory after the loss\<close>

text \<open>When all but the end of the active segment is synchronised, a loss leaves a crash image with the
  same manifest and sealed segments and some of the frames that were not synchronised.\<close>

lemma power_loss_image:
  assumes img: "crash_image C ms st fs [] [] w" and act: "active_segment_id st = Some a"
    and mem: "a \<in> set (ids_of st)" and unsealed: "seals st a = None"
    and fr: "fs a = old @ new" and old: "saved w (segment_path a) = SEGMENT_MAGIC @ frames_bytes C old"
    and others: "\<And>n c. n \<noteq> segment_path a \<Longrightarrow> content w n = Some c \<Longrightarrow> saved w n = c"
    and loss: "power_loss False w w'"
  obtains k tail where "k \<le> length new"
    and "crash_image C ms st (fs(a := old @ take k new)) [] tail w'" and "on_disk w' = on_disk w"
proof -
  note L = power_lossD [OF loss]
  have same: "content w' n = Some c" if "n \<noteq> segment_path a" "content w n = Some c" for n c
    using L(2) [OF that(2)] others [OF that] by simp
  have disk: "on_disk w' = on_disk w" using L(1) by (simp add: on_disk_def)
  have fits: "\<forall>f \<in> set old. fits f" "\<forall>f \<in> set new. fits f"
    using image_segment(2) [OF img mem] by (simp_all add: fr)
  have "content w (segment_path a) = Some (SEGMENT_MAGIC @ frames_bytes C (old @ new))"
    using image_segment(1) [OF img mem] by (simp add: fr tail_of_def)
  from L(2) [OF this] obtain x where x: "content w' (segment_path a) = Some x"
    "prefix (SEGMENT_MAGIC @ frames_bytes C old) x" "prefix x (SEGMENT_MAGIC @ frames_bytes C (old @ new))"
    unfolding old by (auto simp: survives_prefix)
  then obtain y where y: "x = SEGMENT_MAGIC @ frames_bytes C old @ y" "prefix y (frames_bytes C new)"
    by (auto simp: prefix_def)
  then have y': "y = take (length y) (frames_bytes C new)" "length y \<le> length (frames_bytes C new)"
    by (auto simp: prefix_def)
  obtain k tail where k: "k \<le> length new" "y = frames_bytes C (take k new) @ tail" "tail = [] \<or> torn_piece C tail"
    using take_frames_bytes [OF fits(2) y'(2)] y'(1) by metis
  let ?fs = "fs(a := old @ take k new)"
  have ids: "(\<forall>f \<in> set (?fs i). fits f)
      \<and> content w' (segment_path i) = Some (SEGMENT_MAGIC @ frames_bytes C (?fs i) @ tail_of st tail i)"
    if i: "i \<in> set (ids_of st)" for i
  proof (cases "i = a")
    case True
    then show ?thesis using x(1) y(1) k(2) fits act by (auto simp: tail_of_def dest: in_set_takeD)
  next
    case False
    then have "segment_path i \<noteq> segment_path a" by simp
    from same [OF this image_segment(1) [OF img i]] image_segment(2) [OF img i] False act
    show ?thesis by (simp add: tail_of_def)
  qed
  have manifest: "content w' MANIFEST_FILE_NAME = Some (MANIFEST_MAGIC @ ops_bytes C ms)"
    using image_world(6) [OF img] by (intro same) simp_all
  have names: "\<forall>n c. content w' n = Some c \<longrightarrow> n = MANIFEST_FILE_NAME \<or> n \<in> range segment_path"
  proof (intro allI impI)
    fix n c assume "content w' n = Some c"
    then obtain d where "content w n = Some d" using L(1) [of n] by (cases "content w n") auto
    then show "n = MANIFEST_FILE_NAME \<or> n \<in> range segment_path" using img unfolding crash_image_def by blast
  qed
  have seals: "\<forall>i info. seals st i = Some info \<longrightarrow>
      unat (final_size info) = MAGIC_LEN + length (frames_bytes C (?fs i))"
  proof (intro allI impI)
    fix i info assume "seals st i = Some info"
    with img unsealed show "unat (final_size info) = MAGIC_LEN + length (frames_bytes C (?fs i))"
      unfolding crash_image_def by (cases "i = a") simp_all
  qed
  have "crash_image C ms st ?fs [] tail w'"
    unfolding crash_image_def
    using L(4-6) image_world [OF img] ids k(3) manifest names seals by simp
  with k(1) disk show thesis by (intro that)
qed

end
