(* ===== verification/Power_Runs.thy ===== *)
theory Power_Runs
  imports Power_Loss Store_Runs
begin

text \<open>
  Sessions that synchronise every batch they write: a loss of power then takes away nothing that a
  \<^verbatim>\<open>Commit::sync\<close> of \<^verbatim>\<open>src/store.rs\<close> covered, at most a part of the batch being written. The names in the
  directory are taken to survive; \<open>Power_Claims\<close> shows what happens when they do not.
\<close>

section \<open>One batch\<close>

text \<open>What writing leaves to synchronise is one write to the file the commit names.\<close>

lemma write_batch_settles:
  assumes "write_batch C wr (s, w) = (Inr c, s', w')"
  obtains (nothing) "c = None" and "w' = w"
  | (flushed) f w1 off data where "c = Some f" and "settles w w1" and "w' = write_bytes (path f) off data (spend w1)"
proof (cases "batch_count wr")
  case 0
  then have "c = None" "w' = w" using assms by (auto simp: write_batch_def)
  then show thesis by (rule nothing)
next
  case (Suc n)
  obtain first lst where b: "batch_first wr = Some first" "batch_last wr = Some lst"
    using assms Suc by (cases "batch_first wr"; cases "batch_last wr") (simp_all add: write_batch_def panic_def)
  obtain f s0 w0 s1 w1 s2 where r: "(if rollover_pending s then and_then (do_rollover C first)
        (\<lambda>_. update_store (\<lambda>s. s\<lparr>rollover_pending := False\<rparr>)) (s, w) else (Inr (), s, w)) = (Inr (), s0, w0)"
    "active_file (s0, w0) = (Inr f, s1, w1)" "flush_active f (s1, w1) = (Inr (), s2, w')" "c = Some f"
    using assms unfolding write_batch_def Suc b
    by (simp add: and_then_eq_Inr update_store_def) blast
  have "settles w w0"
    using r(1) do_rollover_settles by (auto simp: and_then_eq_Inr update_store_def split: if_splits)
  moreover have "settles w0 w1"
    using r(2) storesD [OF stores_on_world [OF stores_open]]
    by (fastforce simp: active_file_def open_segment_rw_def and_then_eq_Inr split: option.splits)
  ultimately have "settles w w1" by (rule settles_trans)
  moreover have "\<exists>off data. w' = write_bytes (path f) off data (spend w1)"
    using r(3) by (auto simp: flush_active_def cursor_flush_def and_then_eq_Inr write_all_at_def
        split: prod.splits sum.splits option.splits)
  ultimately show thesis using flushed r(4) by blast
qed

lemma synced_batch_saved:
  assumes "write_batch C wr (s, w) = (Inr c, s', w1)" and "commit_sync c w1 = (Inr (), w')" and "all_saved w"
  shows "all_saved w'"
  using assms(1)
proof (cases rule: write_batch_settles)
  case nothing
  then show ?thesis using assms(2,3) by (simp add: commit_sync_def)
next
  case (flushed f w2 off data)
  have "all_saved w2" by (rule settles_saved [OF flushed(2) assms(3)])
  then have "\<forall>n c. n \<noteq> path f \<longrightarrow> content w1 n = Some c \<longrightarrow> saved w1 n = c"
    by (simp add: flushed(3) write_bytes_other all_saved_def write_bytes_def split: option.split)
  then show ?thesis using assms(2) flushed(1)
    by (auto simp: commit_sync_def sync_all_def call_def all_saved_def split: option.splits)
qed

text \<open>A loss before the batch is synchronised leaves some of its entries.\<close>

lemma lost_batch_run:
  assumes ok: "store_ok C ms fs pend (s, w)" and roll: "rollover_pending s = False"
    and cont: "continues fs (st_state s) pend" and sv: "all_saved w"
    and run: "write_batch C (batch_of pend) (s, w) = (Inr c, s1, w1)" and loss: "power_loss False w1 w2"
  obtains k tail where "k \<le> length pend"
    and "crash_image C ms (st_state s) (fs(active_id s := fs (active_id s) @ take k pend)) [] tail w2"
    and "on_disk w2 = tracked (st_state s)"
    and "entries_ok (fs(active_id s := fs (active_id s) @ take k pend)) (st_state s)"
proof -
  let ?a = "active_id s" and ?fs = "fs(active_id s := fs (active_id s) @ pend)"
  note A = store_ok_active [OF ok]
  have r: "w1 = flushed_world C ?a (fs ?a @ pend) w" "store_ok C ms ?fs [] (s1, w1)" "st_state s1 = st_state s"
    using write_batch_run [OF ok roll cont] run by auto
  note D = store_okD [OF r(2)]
  have saved: "saved w1 (segment_path ?a) = SEGMENT_MAGIC @ frames_bytes C (fs ?a)"
    using sv A(3) by (simp add: r(1) flushed_world_def all_saved_def)
  have others: "saved w1 n = c" if "n \<noteq> segment_path ?a" "content w1 n = Some c" for n c
    using sv that by (simp add: r(1) flushed_world_def all_saved_def)
  have fr: "?fs ?a = fs ?a @ pend" by simp
  note img = D(1) [unfolded r(3)]
  obtain k tail where k: "k \<le> length pend"
    "crash_image C ms (st_state s) (?fs(?a := fs ?a @ take k pend)) [] tail w2" "on_disk w2 = on_disk w1"
    by (rule power_loss_image [OF img store_okD(6) [OF ok] A(2,4) fr saved others loss])
  have "on_disk w2 = tracked (st_state s)" using k(3) D(2) r(3) by simp
  with k(1,2) show thesis by (intro that) (simp_all add: entries_ok_take [OF ok cont])
qed

text \<open>And so it does when the batch rolled over.\<close>

lemma lost_rolled_batch_run:
  assumes ok: "store_ok C ms fs pend (s, w)" and roll: "rollover_pending s"
    and ne: "fs (active_id s) \<noteq> []" and cont: "continues fs (st_state s) pend" and sv: "all_saved w"
    and nxt: "next_segment_id (next_seg_id s) \<noteq> None"
    and wr: "op_writable C (bare (rollover_op s (fst (hd pend))))"
    and size: "MAGIC_LEN + length (frames_bytes C (fs (active_id s))) < 2 ^ 64"
    and run: "write_batch C (batch_of pend) (s, w) = (Inr c, s1, w1)" and loss: "power_loss False w1 w2"
  obtains k tail ms' st' where "k \<le> length pend"
    and "crash_image C ms' st' (fs(next_seg_id s := take k pend)) [] tail w2" and "on_disk w2 = tracked st'"
    and "entries_ok (fs(next_seg_id s := take k pend)) st'"
    and "segments st' = segments (st_state s) @ [\<lparr>se_id = next_seg_id s, se_first = fst (hd pend)\<rparr>]"
    and "head_entry st' = head_entry (st_state s)" and "metadata st' = metadata (st_state s)"
    and "next_segment_id (max_segment_id st') \<noteq> None"
proof -
  let ?i = "next_seg_id s" and ?m = "bare (rollover_op s (fst (hd pend)))"
  obtain s0 w0 where r: "do_rollover C (fst (hd pend)) (s, w) = (Inr (), s0\<lparr>rollover_pending := True\<rparr>, w0)"
    "write_batch C (batch_of pend) (s, w) = write_batch C (batch_of pend) (s0, w0)"
    "store_ok C (ms @ [?m]) (fs(?i := [])) pend (s0, w0)" "continues (fs(?i := [])) (st_state s0) pend"
    "rollover_pending s0 = False" "active_id s0 = ?i"
    "segments (st_state s0) = segments (st_state s) @ [\<lparr>se_id = ?i, se_first = fst (hd pend)\<rparr>]"
    "head_entry (st_state s0) = head_entry (st_state s)" "metadata (st_state s0) = metadata (st_state s)"
    by (rule rollover_ready [OF ok roll ne cont nxt wr size])
  have sv0: "all_saved w0" by (rule settles_saved [OF do_rollover_settles [OF r(1)] sv])
  obtain k tail where "k \<le> length pend"
    "crash_image C (ms @ [?m]) (st_state s0) (fs(?i := take k pend)) [] tail w2"
    "on_disk w2 = tracked (st_state s0)" "entries_ok (fs(?i := take k pend)) (st_state s0)"
    by (rule lost_batch_run [OF r(3,5,4) sv0 run [unfolded r(2)] loss]) (simp add: r(6))
  then show thesis by (rule that [OF _ _ _ _ r(7-9) next_after_tracked [OF r(3)]])
qed

section \<open>Runs with losses of power\<close>

text \<open>The steps of a caller that synchronises what it writes. Between two operations, and after a batch was
  written and before it was synchronised, the power may fail, and the store is opened again.\<close>

inductive synced_step :: "'f crates \<Rightarrow> nat \<Rightarrow> session \<Rightarrow> request \<Rightarrow> session \<Rightarrow> bool" for C trigger where
  calls: "store_step C trigger a r b \<Longrightarrow> r \<notin> {Write, Restart} \<union> range Stopped \<Longrightarrow>
    synced_step C trigger a r b"
| syncs: "roll_fits C wr s \<Longrightarrow> write_batch C wr (s, w) = (Inr c, s', w1) \<Longrightarrow> commit_sync c w1 = (Inr (), w') \<Longrightarrow>
    synced_step C trigger (wr, s, w) Write (writer_new, s', w')"
| restarts: "open_store C trigger w = (Inr s', w') \<Longrightarrow>
    synced_step C trigger (wr, s, w) Restart (writer_new, s', w')"
| power_fails: "power_loss False w w1 \<Longrightarrow> open_store C trigger w1 = (Inr s', w') \<Longrightarrow>
    synced_step C trigger (wr, s, w) Restart (writer_new, s', w')"
| power_fails_writing: "roll_fits C wr s \<Longrightarrow> write_batch C wr (s, w) = (Inr c, s1, w1) \<Longrightarrow>
    power_loss False w1 w2 \<Longrightarrow> open_store C trigger w2 = (Inr s', w') \<Longrightarrow>
    synced_step C trigger (wr, s, w) (Stopped Write) (writer_new, s', w')"

text \<open>Creating a store flushes its first operation without synchronising the manifest; the next operation
  does it. So a session starts with a store that was created and wrote its metadata.\<close>

definition synced_start :: "'f crates \<Rightarrow> nat \<Rightarrow> session \<Rightarrow> bool" where
  "synced_start C trigger a \<longleftrightarrow> (case a of (wr, s, w) \<Rightarrow> wr = writer_new
     \<and> op_writable C (with_meta Metadata []) \<and> (\<exists>w0 s0 w1. empty_dir w0
       \<and> open_or_create C trigger w0 = (Inr s0, w1) \<and> write_metadata C [] (s0, w1) = (Inr (), s, w)))"

abbreviation synced_run :: "'f crates \<Rightarrow> nat \<Rightarrow> request list \<Rightarrow> session \<Rightarrow> bool" where
  "synced_run C trigger \<equiv> run (synced_start C trigger) (synced_step C trigger)"

definition holds_saved :: "'f crates \<Rightarrow> log \<Rightarrow> session \<Rightarrow> bool" where
  "holds_saved C l a \<longleftrightarrow> holds C l a \<and> all_saved (snd (snd a))"

text \<open>What is synchronised does not matter to the relation with the log.\<close>

lemma holds_world:
  assumes h: "holds C l (wr, s, w)" and disk: "on_disk w' = on_disk w"
    and img: "\<And>ms st fs. crash_image C ms st fs [] [] w \<Longrightarrow> crash_image C ms st fs [] [] w'"
  shows "holds C l (wr, s, w')"
proof -
  obtain ms fs where r: "store_ok C ms fs (log_pending l) (s, w)" "same_log l fs (st_state s)"
    "wr = batch_of (log_pending l)" "log_pending l \<noteq> [] \<Longrightarrow> continues fs (st_state s) (log_pending l)"
    "rollover_pending s \<Longrightarrow> fs (active_id s) \<noteq> []"
    by (rule holdsE [OF h]) blast
  have "store_ok C ms fs (log_pending l) (s, w')" using r(1) img by (simp add: store_ok_def disk)
  then show ?thesis using r(2-5) by (intro holdsI [where fs = fs and ms = ms]) simp_all
qed

lemma image_same:
  assumes "entries w' = entries w" and "base_dir_exists w' = base_dir_exists w" and "healthy w' = healthy w"
  shows "crash_image C ms st fs mtail tail w' = crash_image C ms st fs mtail tail w" "on_disk w' = on_disk w"
  using assms unfolding crash_image_def on_disk_def wf_world_def by simp_all

lemma holds_synced:
  assumes h: "holds C l (wr, s, w1)" and "commit_sync c w1 = (Inr (), w')"
  shows "holds C l (wr, s, w')"
proof -
  obtain ms fs where "store_ok C ms fs (log_pending l) (s, w1)" by (rule holdsE [OF h]) blast
  then have "healthy w1" using image_world(1) store_okD(1) by blast
  then have "entries w' = entries w1" "base_dir_exists w' = base_dir_exists w1" "healthy w' = healthy w1"
    using assms(2) by (auto simp: commit_sync_def split: option.splits)
  note same = image_same [OF this]
  show ?thesis by (rule holds_world [OF h same(2)]) (simp only: same(1))
qed

lemma calls_saved:
  assumes "store_step C trigger a r b" and "r \<notin> {Write, Restart} \<union> range Stopped"
    and "all_saved (snd (snd a))" and h: "holds C l a" and cr: "crates_ok C"
  shows "all_saved (snd (snd b))"
  using assms(1-3)
proof cases
  case (refused wr s r' w e s' w')
  have "w' = w"
    using refused_unchanged [OF h [unfolded refused(1)] crates_okD [OF cr] refused(4,5)] by simp
  then show ?thesis using assms(3) refused(1,3) by simp
next
  case (calls wr s w s' w')
  have "settles w w'"
  proof (cases r)
    case (TruncateStartAt i kvs)
    then show ?thesis using calls(4) truncate_start_settles by simp
  next
    case (TruncateEndAt i)
    then show ?thesis using calls(4) truncate_end_settles by simp
  next
    case (SetMetadata kvs)
    then show ?thesis using calls(4) write_metadata_settles by simp
  next
    case DeleteDead
    then show ?thesis using calls(4) delete_dead_settles by (auto simp: and_then_eq_Inr)
  qed (use assms(2) calls(3) in simp_all)
  then show ?thesis using settles_saved assms(3) calls(1,2) by simp
qed (use assms(2,3) in auto)

lemma saved_no_loss:
  assumes "all_saved w" and "power_loss False w w1"
  shows "content w1 n = content w n"
  using power_lossD(1,2) [OF assms(2), of n] assms(1) by (cases "content w n") (auto simp: all_saved_def)

lemma holds_survives:
  assumes h: "holds_saved C l (wr, s, w)" and loss: "power_loss False w w1"
  shows "holds C l (wr, s, w1)"
proof -
  note L = power_lossD [OF loss] and same = saved_no_loss [OF _ loss]
  have sv: "all_saved w" using h by (simp add: holds_saved_def)
  have img: "crash_image C ms st fs [] [] w1" if "crash_image C ms st fs [] [] w" for ms st fs
    using that L(4-6) same [OF sv] unfolding crash_image_def by simp
  have disk: "on_disk w1 = on_disk w" using L(1) by (simp add: on_disk_def)
  have "holds C l (wr, s, w)" using h by (simp add: holds_saved_def)
  then show ?thesis by (rule holds_world [OF _ disk img])
qed

lemma opened_saved:
  assumes "holds C l (wr, s, w)" and cr: "order_ok C" "recovery_writable C"
    and "open_store C trigger w = (Inr s', w')" and "all_saved w"
  shows "all_saved w'"
proof -
  obtain ms fs where ok: "store_ok C ms fs (log_pending l) (s, w)" by (rule holdsE [OF assms(1)]) blast
  show ?thesis by (rule settles_saved [OF open_settles [OF store_okD(1) [OF ok] cr(2,1) assms(4)] assms(5)])
qed

lemma power_fails_refine:
  assumes h: "holds_saved C l (wr, s, w)" and ord: "order_ok C" and rec: "recovery_writable C"
    and loss: "power_loss False w w1" and run: "open_store C trigger w1 = (Inr s', w')"
  shows "\<exists>l'. log_step l Restart l' \<and> holds_saved C l' (writer_new, s', w')"
  using restarts_refine [OF holds_survives [OF h loss] ord rec reopened.opened [OF run]]
    opened_saved [OF holds_survives [OF h loss] ord rec run power_loss_saved [OF loss]]
  by (auto simp: holds_saved_def)

lemma power_fails_writing_refine:
  assumes h: "holds_saved C l (wr, s, w)" and ord: "order_ok C" and rec: "recovery_writable C"
    and fit: "roll_fits C wr s" and run: "write_batch C wr (s, w) = (Inr c, s1, w1)"
    and loss: "power_loss False w1 w2" and opn: "open_store C trigger w2 = (Inr s', w')"
  shows "\<exists>l'. log_step l (Stopped Write) l' \<and> holds_saved C l' (writer_new, s', w')"
proof -
  let ?pend = "log_pending l"
  have hl: "holds C l (wr, s, w)" and sv: "all_saved w" using h by (simp_all add: holds_saved_def)
  obtain ms fs where ok: "store_ok C ms fs ?pend (s, w)" and same: "same_log l fs (st_state s)"
    and wr: "wr = batch_of ?pend" and cont: "?pend \<noteq> [] \<Longrightarrow> continues fs (st_state s) ?pend"
    and roll: "rollover_pending s \<Longrightarrow> fs (active_id s) \<noteq> []"
    by (rule holdsE [OF hl]) blast
  note D = store_okD [OF ok]
  note wd = image_world(4,5) [OF D(1)]
  have goal: ?thesis if k: "k \<le> length ?pend" and img: "crash_image C ms' st' fs' [] tail w2"
      and disk: "on_disk w2 = tracked st'" and eok: "entries_ok fs' st'"
      and nxt: "next_segment_id (max_segment_id st') \<noteq> None"
      and l: "same_log (log_append (take k ?pend) l) fs' st'" for k ms' st' fs' tail
  proof -
    have "holds C (log_append (take k ?pend) l) (writer_new, s', w')"
      by (rule reopened_holds [OF opn img disk eok ord rec nxt l]) (simp add: log_append_def)
    moreover have "all_saved w'"
      by (rule settles_saved [OF open_settles [OF img rec ord opn] power_loss_saved [OF loss]])
    ultimately show ?thesis using log_step.cut_short [OF k] by (auto simp: holds_saved_def)
  qed
  consider "?pend = []" | "?pend \<noteq> []" "rollover_pending s = False" | "?pend \<noteq> []" "rollover_pending s" by blast
  then show ?thesis
  proof cases
    case 1
    then have w1: "w1 = w" using run wr by (simp add: write_batch_def)
    from power_fails_refine [OF h ord rec loss [unfolded w1] opn]
    obtain l' where "log_step l Restart l'" "holds_saved C l' (writer_new, s', w')" by blast
    moreover have "log_step l (Stopped Write) l'" if "log_step l Restart l'"
      using that log_step.cut_short [of 0 l] by cases (simp add: log_append_def)
    ultimately show ?thesis by blast
  next
    case 2
    obtain k tail where k: "k \<le> length ?pend"
      "crash_image C ms (st_state s) (fs(active_id s := fs (active_id s) @ take k ?pend)) [] tail w2"
      "on_disk w2 = tracked (st_state s)"
      "entries_ok (fs(active_id s := fs (active_id s) @ take k ?pend)) (st_state s)"
      by (rule lost_batch_run [OF ok 2(2) cont [OF 2(1)] sv run [unfolded wr] loss])
    show ?thesis
      by (rule goal [OF k next_after_tracked [OF ok]
          same_log_append [OF same frames_append [OF wd store_ok_active(1) [OF ok]] refl refl]])
  next
    case 3
    let ?i = "next_seg_id s"
    have fit': "next_segment_id ?i \<noteq> None" "op_writable C (bare (rollover_op s (fst (hd ?pend))))"
      "MAGIC_LEN + length (frames_bytes C (fs (active_id s))) < 2 ^ 64"
      using fit 3 D(7) by (simp_all add: roll_fits_def wr)
    obtain k tail ms' st' where k: "k \<le> length ?pend"
      "crash_image C ms' st' (fs(?i := take k ?pend)) [] tail w2" "on_disk w2 = tracked st'"
      "entries_ok (fs(?i := take k ?pend)) st'"
      "segments st' = segments (st_state s) @ [\<lparr>se_id = ?i, se_first = fst (hd ?pend)\<rparr>]"
      "head_entry st' = head_entry (st_state s)" "metadata st' = metadata (st_state s)"
      "next_segment_id (max_segment_id st') \<noteq> None"
      by (rule lost_rolled_batch_run [OF ok 3(2) roll [OF 3(2)] cont [OF 3(1)] sv fit' run [unfolded wr] loss])
    have "?i \<notin> set (ids_of (st_state s))" using D(10) by (auto simp: tracked_def)
    then have "map (fs(?i := take k ?pend)) (ids_of (st_state s)) = map fs (ids_of (st_state s))"
      by (auto simp: image_iff)
    then have "all_frames (fs(?i := take k ?pend)) st' = all_frames fs (st_state s) @ take k ?pend"
      by (simp only: k(5) map_append) simp
    from goal [OF k(1-4,8) same_log_append [OF same this k(6,7)]] show ?thesis .
  qed
qed

lemma log_set_Nil [simp]: "log_set [] l = l"
  by (simp add: log_set_def)

lemma synced_start_holds:
  assumes "synced_start C trigger a" and cr: "crates_ok C"
  shows "holds_saved C empty_log a"
proof -
  note c = cr [unfolded crates_ok_def]
  obtain s w w0 s0 w1 where a: "a = (writer_new, s, w)" and m: "op_writable C (with_meta Metadata [])"
    and w0: "empty_dir w0" and run: "open_or_create C trigger w0 = (Inr s0, w1)"
    "write_metadata C [] (s0, w1) = (Inr (), s, w)"
    using assms(1) by (auto simp: synced_start_def)
  have h0: "holds C empty_log (writer_new, s0, w1)"
    using created_holds [OF w0 run(1)] c by blast
  obtain l where "log_step empty_log (SetMetadata []) l" "holds C l (writer_new, s, w)"
    using sets_metadata_refine [OF h0 _ m run(2)] by auto
  then have h: "holds C empty_log (writer_new, s, w)" by cases auto
  have f: "store_ok C [first_op] (\<lambda>_. []) [] (s0, w1)"
    "\<forall>n c. n \<noteq> MANIFEST_FILE_NAME \<and> content w1 n = Some c \<longrightarrow> saved w1 n = c"
    using fresh_opens [OF w0, of C trigger] run(1) c by auto
  have "w = snd (committed C [first_op] (with_meta Metadata []) (s0, w1))"
    using write_metadata_ok [OF f(1) m] run(2) by (metis Pair_inject snd_conv prod.collapse)
  then have "all_saved w" using f(2) by (simp add: all_saved_def committed_def)
  with h show ?thesis by (simp add: holds_saved_def a)
qed

lemma synced_step_refines:
  assumes "synced_step C trigger a r b" and h: "holds_saved C l a" and cr: "crates_ok C"
  shows "\<exists>l'. log_step l r l' \<and> holds_saved C l' b"
  using assms(1)
proof cases
  case calls
  obtain l' where "log_step l r l'" "holds C l' b"
    using step_refines [OF calls(1) _ crates_okD [OF cr]] h by (auto simp: holds_saved_def)
  moreover have "all_saved (snd (snd b))"
    using calls_saved [OF calls _ _ cr] h unfolding holds_saved_def by blast
  ultimately show ?thesis by (auto simp: holds_saved_def)
next
  case (syncs wr s w c s' w1 w')
  have h': "holds C l (wr, s, w)" "all_saved w" using h syncs(1) by (simp_all add: holds_saved_def)
  obtain l' where "log_step l Write l'" "holds C l' (writer_new, s', w1)"
    using writes_refine [OF h'(1) syncs(4,5)] by blast
  moreover from this(2) have "holds C l' (writer_new, s', w')" by (rule holds_synced [OF _ syncs(6)])
  ultimately show ?thesis
    using synced_batch_saved [OF syncs(5,6) h'(2)] syncs(2,3) by (auto simp: holds_saved_def)
next
  case (restarts w s' w' wr s)
  have h': "holds C l (wr, s, w)" "all_saved w" using h restarts(1) by (simp_all add: holds_saved_def)
  obtain l' where "log_step l Restart l'" "holds C l' (writer_new, s', w')"
    using restarts_refine [OF h'(1) crates_okD [OF cr] reopened.opened [OF restarts(4)]] by blast
  moreover have "all_saved w'" by (rule opened_saved [OF h'(1) crates_okD [OF cr] restarts(4) h'(2)])
  ultimately show ?thesis using restarts(2,3) by (auto simp: holds_saved_def)
next
  case (power_fails w w1 s' w' wr s)
  show ?thesis
    using power_fails_refine [OF h [unfolded power_fails(1)] crates_okD [OF cr] power_fails(4,5)] power_fails(2,3)
    by simp
next
  case (power_fails_writing wr s w c s1 w1 w2 s' w')
  show ?thesis
    using power_fails_writing_refine [OF h [unfolded power_fails_writing(1)] crates_okD [OF cr]
        power_fails_writing(4-7)] power_fails_writing(2,3)
    by simp
qed

text \<open>Such a session simulates the log, too.\<close>

interpretation synced_log: safe_simulation "\<lambda>a. crates_ok C \<and> synced_start C trigger a" "synced_step C trigger"
  "(=) empty_log" log_step "\<lambda>l a. crates_ok C \<and> holds_saved C l a" wf_log for C trigger
proof (unfold_locales, goal_cases)
  case (1 a)
  then show ?case using synced_start_holds by blast
next
  case (2 l a r b)
  then show ?case using synced_step_refines by blast
qed

lemma synced_run_holds:
  assumes "synced_run C trigger rs a" and "crates_ok C"
  obtains l where "log_run rs l" and "wf_log l" and "holds_saved C l a"
proof -
  have "run (\<lambda>a. crates_ok C \<and> synced_start C trigger a) (synced_step C trigger) rs a"
    using assms(1)
    by (induction rule: run.induct) (auto intro: run.intros simp: assms(2))
  then show thesis using synced_log.safe_run that by metis
qed

section \<open>What survives\<close>

text \<open>C2: A caller that synchronises every batch, on a store whose first operation is synchronised, loses
  nothing to a loss of power that keeps the names in the directory. The session starts with a metadata
  operation behind the creation (without it a loss can take the first operation and with it the store);
  the calls are those of a run of the log that a working device performs or refuses, with the same guards
  (ids pushed ascend, fields fit, no rollback behind a later index checkpoint); and the power may fail
  between two calls, or in a batch that was written and not synchronised, any number of times. After
  such a session and one more such loss there is a log that the same requests lead to, such that opening
  the store succeeds and shows that log's head and metadata, and a scan from any id yields exactly its
  entries from that id on. Only a batch that was not synchronised yet can be cut.\<close>

theorem synced_runs_refine_log:
  assumes "synced_run C trigger rs (wr, s, w)" and cr: "crates_ok C" and loss: "power_loss False w w1"
  shows "\<exists>l s2 w2. log_run rs l \<and> open_store C trigger w1 = (Inr s2, w2)
    \<and> first_entry_id s2 = eid (log_head l) \<and> map_of (store_metadata s2) = log_meta l
    \<and> (\<forall>i. \<exists>rd n. scan_from s2 i w2 = (Inr rd, w2)
        \<and> drain n s2 rd w2 = Some (Inr (filter (\<lambda>f. EntryId i \<le> fst f) (log_entries l))))"
proof -
  obtain l where l: "log_run rs l" "wf_log l" "holds_saved C l (wr, s, w)"
    by (rule synced_run_holds [OF assms(1,2)])
  from holds_reads [OF holds_survives [OF l(3) loss] crates_okD [OF cr], of trigger] l(1)
  show ?thesis by metis
qed

text \<open>A run: an entry is written and synchronised, a second one pushed, and the power fails.\<close>

lemma sample_synced_run:
  obtains s w where "synced_run sample 1000 sample_requests (writer_new, s, w)" and "healthy w" and "wf_world w"
proof -
  have m: "op_writable sample (with_meta Metadata [])"
    by (rule sample_writable) (simp add: with_meta_def encode_sample_simps)
  obtain s0 w0 where s0: "open_or_create sample 1000 empty_world = (Inr s0, w0)"
    "store_ok sample [first_op] (\<lambda>_. []) [] (s0, w0)" "st_state s0 = fresh_state" "last_entry s0 = None"
    "rollover_pending s0 = False"
    using fresh_opens [OF empty_world_dir sample_first_writable sample_order sample_recovery_writable,
        of 1000] by blast
  define s1 w1 where "s1 = fst (committed sample [first_op] (with_meta Metadata []) (s0, w0))"
    and "w1 = snd (committed sample [first_op] (with_meta Metadata []) (s0, w0))"
  have s1: "write_metadata sample [] (s0, w0) = (Inr (), s1, w1)"
    "store_ok sample [first_op, with_meta Metadata []] (\<lambda>_. []) [] (s1, w1)"
    using write_metadata_ok [OF s0(2) m] by (simp_all add: s1_def w1_def)
  have st1: "st_state s1 = fresh_state" "last_entry s1 = None" "rollover_pending s1 = False"
    using s0(3-5) by (simp_all add: s1_def committed_def apply_manifest_op_result with_meta_def ok_def)
  have r0: "synced_run sample 1000 [] (writer_new, s1, w1)"
    using empty_world_dir s0(1) s1(1) m by (auto simp: run_Nil synced_start_def)
  have first: "active_first_entry s \<le> EntryId 1" "active_first_entry s \<le> EntryId 0"
    if "store_ok sample ms fs pend (s, w)" "st_state s = fresh_state" for ms fs pend s w
    using store_okD(8) [OF that(1)] that(2) by (simp_all add: fresh_state_def less_eq_entry_id_def)
  obtain wr2 s2 where p2: "push sample 0 [7] (writer_new, s1) = (wr2, s2)" by fastforce
  have s2: "wr2 = batch_of first_batch"
    "store_ok sample [first_op, with_meta Metadata []] (\<lambda>_. []) first_batch (s2, w1)"
    "st_state s2 = fresh_state" "rollover_pending s2 = False"
    using push_ok [OF s1(2), of 0 "[7]"] p2 st1 by (simp_all add: first_batch_def)
  have "ascends writer_new s1 (EntryId 0)" using first [OF s1(2) st1(1)] st1(2) by (simp add: ascends_def)
  then have "synced_step sample 1000 (writer_new, s1, w1) (Push 0 [7]) (wr2, s2, w1)"
    using p2 by (intro synced_step.calls store_step.pushes) auto
  with r0 have r1: "synced_run sample 1000 [Push 0 [7]] (wr2, s2, w1)" using run.run_step by fastforce
  obtain f s3 w3 where wb: "write_batch sample wr2 (s2, w1) = (Inr (Some f), s3, w3)"
    and s3: "store_ok sample [first_op, with_meta Metadata []] ((\<lambda>_. [])(active_id s2 := first_batch)) [] (s3, w3)"
      "st_state s3 = fresh_state" "last_entry s3 = Some (EntryId 0)"
    using write_batch_run [OF s2(2,4)] continues_first s2(1,3) by (auto simp: first_batch_def last_frame_id_def)
  define w4 where "w4 = save_file (path f) w3"
  note wd = image_world(1,2) [OF store_okD(1) [OF s3(1)]]
  have w4: "commit_sync (Some f) w3 = (Inr (), w4)" "healthy w4" "wf_world w4"
    using wd by (simp_all add: commit_sync_def w4_def)
  have "roll_fits sample wr2 s2" using s2(4) by (simp add: roll_fits_def)
  from run.run_step [OF r1 synced_step.syncs [OF this wb w4(1)]]
  have r2: "synced_run sample 1000 [Push 0 [7], Write] (writer_new, s3, w4)" by simp
  obtain wr5 s5 where p5: "push sample 1 [8] (writer_new, s3) = (wr5, s5)" by fastforce
  have "ascends writer_new s3 (EntryId 1)"
    using first [OF s3(1,2)] s3(3) by (simp add: ascends_def less_entry_id_def)
  then have "synced_step sample 1000 (writer_new, s3, w4) (Push 1 [8]) (wr5, s5, w4)"
    using p5 by (intro synced_step.calls store_step.pushes) auto
  from run.run_step [OF r2 this]
  have r3: "synced_run sample 1000 [Push 0 [7], Write, Push 1 [8]] (wr5, s5, w4)" by simp
  obtain l where h: "holds_saved sample l (wr5, s5, w4)" by (rule synced_run_holds [OF r3 sample_crates_ok])
  note loss = power_loss_none [OF w4(2,3), of False]
  obtain s6 w6 where o: "open_store sample 1000 (settle w4) = (Inr s6, w6)"
    by (rule holds_reads [OF holds_survives [OF h loss] sample_order sample_recovery_writable])
  from run.run_step [OF r3 synced_step.power_fails [OF loss o]]
  have r4: "synced_run sample 1000 sample_requests (writer_new, s6, w6)" by (simp add: sample_requests_def)
  obtain l where h6: "holds_saved sample l (writer_new, s6, w6)" by (rule synced_run_holds [OF r4 sample_crates_ok])
  then have "holds sample l (writer_new, s6, w6)" by (simp add: holds_saved_def)
  then obtain ms fs where "store_ok sample ms fs (log_pending l) (s6, w6)" by (rule holdsE) blast
  from r4 image_world(1,2) [OF store_okD(1) [OF this]] show thesis by (rule that)
qed

theorem synced_runs_refine_log_witness:
  "\<exists>s w s2 w2 rd n. synced_run sample 1000 sample_requests (writer_new, s, w) \<and> power_loss False w (settle w)
    \<and> open_store sample 1000 (settle w) = (Inr s2, w2) \<and> scan_from s2 0 w2 = (Inr rd, w2)
    \<and> drain n s2 rd w2 = Some (Inr [(EntryId 0, [7])])"
proof -
  obtain s w where r: "synced_run sample 1000 sample_requests (writer_new, s, w)" "healthy w" "wf_world w"
    by (rule sample_synced_run)
  note loss = power_loss_none [OF r(2,3), of False]
  obtain l s2 w2 where l: "log_run sample_requests l" "open_store sample 1000 (settle w) = (Inr s2, w2)"
    "\<forall>i. \<exists>rd n. scan_from s2 i w2 = (Inr rd, w2)
        \<and> drain n s2 rd w2 = Some (Inr (filter (\<lambda>f. EntryId i \<le> fst f) (log_entries l)))"
    using synced_runs_refine_log [OF r(1) sample_crates_ok loss] by blast
  have "filter (\<lambda>f. EntryId 0 \<le> fst f) (log_entries l) = [(EntryId 0, [7])]"
    using sample_log [OF l(1)] by simp
  then show ?thesis using r(1) loss l(2,3) by metis
qed

end
