(* ===== verification/Power_Claims.thy ===== *)
theory Power_Claims
  imports Power_Runs Bad_Segment Store_Stuck
begin

text \<open>
  A batch of \<^verbatim>\<open>src/store.rs\<close> before and after it is synchronised, and what the store does not synchronise: the
  segment a rollover seals, the first operation of a new store, and the directory when a segment file is
  made.
\<close>

section \<open>A batch\<close>

lemma commit_sync_healthy: "healthy w \<Longrightarrow> commit_sync (Some f) w = (Inr (), save_file (path f) w)"
  by (simp add: commit_sync_def)

lemma flushed_saved [simp]:
  "saved (flushed_world C i fs w) = saved w" "listed (flushed_world C i fs w) = listed w"
  by (simp_all add: flushed_world_def)

text \<open>C4: \<^verbatim>\<open>Commit::sync\<close> makes a batch durable, in a store in which everything written before the batch is
  synchronised and no rollover is pending, and against a loss of power that keeps the names in the
  directory. Such a loss before the sync leaves all earlier entries and some first part of the batch, and
  one after the sync leaves the whole batch; in both cases the store opens with the state it had.\<close>

theorem synced_batch_survives:
  assumes ok: "store_ok C ms fs pend (s, w)" and roll: "rollover_pending s = False"
    and cont: "continues fs (st_state s) pend" and sv: "all_saved w"
    and ord: "order_ok C" and rec: "recovery_writable C"
  shows "\<exists>f s1 w1 w2. write_batch C (batch_of pend) (s, w) = (Inr (Some f), s1, w1)
    \<and> commit_sync (Some f) w1 = (Inr (), w2)
    \<and> (\<forall>w3. power_loss False w1 w3 \<longrightarrow> (\<exists>k s4 w4. k \<le> length pend \<and> open_store C trigger w3 = (Inr s4, w4)
        \<and> store_ok C ms (fs(active_id s := fs (active_id s) @ take k pend)) [] (s4, w4)
        \<and> st_state s4 = st_state s))
    \<and> (\<forall>w3. power_loss False w2 w3 \<longrightarrow> (\<exists>s4 w4. open_store C trigger w3 = (Inr s4, w4)
        \<and> store_ok C ms (fs(active_id s := fs (active_id s) @ pend)) [] (s4, w4)
        \<and> st_state s4 = st_state s))"
proof -
  let ?fs = "fs(active_id s := fs (active_id s) @ pend)"
  obtain f s1 w1 where r: "write_batch C (batch_of pend) (s, w) = (Inr (Some f), s1, w1)"
    "store_ok C ms ?fs [] (s1, w1)" "st_state s1 = st_state s"
    using write_batch_run [OF ok roll cont] by blast
  note D = store_okD [OF r(2), unfolded r(3)]
  let ?w2 = "save_file (path f) w1"
  have sync: "commit_sync (Some f) w1 = (Inr (), ?w2)" by (rule commit_sync_healthy [OF image_world(1) [OF D(1)]])
  have nxt: "next_segment_id (max_segment_id (st_state s)) \<noteq> None" by (rule next_after_tracked [OF ok])
  have before: "\<exists>k s4 w4. k \<le> length pend \<and> open_store C trigger w3 = (Inr s4, w4)
      \<and> store_ok C ms (fs(active_id s := fs (active_id s) @ take k pend)) [] (s4, w4) \<and> st_state s4 = st_state s"
    if loss: "power_loss False w1 w3" for w3
  proof -
    obtain k tail where k: "k \<le> length pend"
      "crash_image C ms (st_state s) (fs(active_id s := fs (active_id s) @ take k pend)) [] tail w3"
      "on_disk w3 = tracked (st_state s)"
      "entries_ok (fs(active_id s := fs (active_id s) @ take k pend)) (st_state s)"
      by (rule lost_batch_run [OF ok roll cont sv r(1) loss])
    show ?thesis using reopens [OF k(2-4) ord rec nxt, of trigger] k(1) by blast
  qed
  have after: "\<exists>s4 w4. open_store C trigger w3 = (Inr s4, w4) \<and> store_ok C ms ?fs [] (s4, w4)
      \<and> st_state s4 = st_state s" if loss: "power_loss False ?w2 w3" for w3
  proof -
    have "all_saved ?w2" by (rule synced_batch_saved [OF r(1) sync sv])
    note same = saved_no_loss [OF this loss] and L = power_lossD [OF loss]
    have "crash_image C ms (st_state s) ?fs [] [] w3"
      using D(1) L(4-6) unfolding crash_image_def by (simp add: same)
    moreover have "on_disk w3 = tracked (st_state s)" using D(2) by (simp add: on_disk_def same)
    ultimately show ?thesis using reopens [OF _ _ D(3) ord rec nxt, where trigger = trigger] by blast
  qed
  show ?thesis using r(1) sync before after by blast
qed

lemma saved_store:
  obtains s w where "store_ok sample [first_op] batch_frames next_batch (s, w)" and "all_saved w"
    and "st_state s = fresh_state" and "active_id s = SegmentId 1" and "rollover_pending s = False"
proof -
  obtain s w f where s: "store_ok sample [first_op] batch_frames next_batch (s, w)"
    "st_state s = fresh_state" "active_id s = SegmentId 1" "rollover_pending s = False"
    "open_files s (SegmentId 1) = Some f"
    by (rule writing_store)
  have "store_ok sample [first_op] batch_frames next_batch (s, settle w)"
    using s(1) unfolding store_ok_def by (simp add: image_same [of "settle w" w])
  moreover have "all_saved (settle w)" by (simp add: all_saved_def)
  ultimately show thesis using s(2-4) by (rule that)
qed

theorem synced_batch_survives_witness:
  "\<exists>s w f s1 w1 w2 s4 w4. write_batch sample (batch_of next_batch) (s, w) = (Inr (Some f), s1, w1)
    \<and> commit_sync (Some f) w1 = (Inr (), w2) \<and> power_loss False w2 (settle w2)
    \<and> open_store sample 1000 (settle w2) = (Inr s4, w4) \<and> store_ok sample [first_op]
        (batch_frames(SegmentId 1 := first_batch @ next_batch)) [] (s4, w4)"
proof -
  obtain s w where s: "store_ok sample [first_op] batch_frames next_batch (s, w)" "all_saved w"
    "st_state s = fresh_state" "active_id s = SegmentId 1" "rollover_pending s = False"
    by (rule saved_store)
  have "continues batch_frames (st_state s) next_batch" using continues_next s(3) by simp
  from synced_batch_survives [OF s(1,5) this s(2) sample_order sample_recovery_writable, of 1000]
  obtain f s1 w1 w2 where r: "write_batch sample (batch_of next_batch) (s, w) = (Inr (Some f), s1, w1)"
    "commit_sync (Some f) w1 = (Inr (), w2)"
    "\<forall>w3. power_loss False w2 w3 \<longrightarrow> (\<exists>s4 w4. open_store sample 1000 w3 = (Inr s4, w4)
        \<and> store_ok sample [first_op] (batch_frames(active_id s := batch_frames (active_id s) @ next_batch)) [] (s4, w4)
        \<and> st_state s4 = st_state s)"
    by metis
  have "store_ok sample [first_op] (batch_frames(active_id s := batch_frames (active_id s) @ next_batch)) [] (s1, w1)"
    using write_batch_run [OF s(1,5) \<open>continues batch_frames (st_state s) next_batch\<close>] r(1) by auto
  note wd = image_world(1,2) [OF store_okD(1) [OF this]]
  have "w2 = save_file (path f) w1" using r(2) commit_sync_healthy [OF wd(1)] by simp
  then have "power_loss False w2 (settle w2)" using wd by (intro power_loss_none) simp_all
  moreover have "batch_frames (SegmentId 1) = first_batch" by (simp add: batch_frames_def)
  ultimately show ?thesis using r s(4) by metis
qed

section \<open>A sealed segment that is not synchronised\<close>

text \<open>C30: A rollover seals a segment without synchronising it. If the commits of its last batches were dropped,
  which is allowed, the seal in the manifest is durable and the bytes it counts are not: after a loss of
  power the store neither opens nor recovers, although the batch that rolled over was synchronised.\<close>

theorem unsynced_seal_stays_closed:
  assumes ok: "store_ok C ms fs pend (s, w)" and roll: "rollover_pending s"
    and cont: "continues fs (st_state s) pend"
    and fr: "fs (active_id s) = old @ new" and new: "new \<noteq> []"
    and unsynced: "saved w (segment_path (active_id s)) = SEGMENT_MAGIC @ frames_bytes C old"
    and nxt: "next_segment_id (next_seg_id s) \<noteq> None"
    and wr: "op_writable C (bare (rollover_op s (fst (hd pend))))"
    and size: "MAGIC_LEN + length (frames_bytes C (fs (active_id s))) < 2 ^ 64" and ord: "order_ok C"
  shows "\<exists>f s1 w1 w2 w3. write_batch C (batch_of pend) (s, w) = (Inr (Some f), s1, w1)
    \<and> commit_sync (Some f) w1 = (Inr (), w2) \<and> power_loss False w2 w3
    \<and> open_store C trigger w3 = (Inl (Err (RecoveryNotPossible [\<lparr>issue_file = Segment (active_id s),
        the_issue = SealedSegmentSizeMismatch (MAGIC_LEN + length (frames_bytes C (old @ new)))
          (MAGIC_LEN + length (frames_bytes C old))\<rparr>])), w3)
    \<and> recover C w3 = (Inl (Err NotPossible), w3)"
proof -
  let ?a = "active_id s" and ?i = "next_seg_id s" and ?ms = "ms @ [bare (rollover_op s (fst (hd pend)))]"
  have ne: "fs ?a \<noteq> []" using fr new by simp
  note A = store_ok_active [OF ok]
  obtain s0 w0 where r: "write_batch C (batch_of pend) (s, w) = write_batch C (batch_of pend) (s0, w0)"
    "store_ok C ?ms (fs(?i := [])) pend (s0, w0)" "continues (fs(?i := [])) (st_state s0) pend"
    "rollover_pending s0 = False" "active_id s0 = ?i"
    "segments (st_state s0) = segments (st_state s) @ [\<lparr>se_id = ?i, se_first = fst (hd pend)\<rparr>]"
    "\<forall>n. n \<noteq> MANIFEST_FILE_NAME \<and> n \<noteq> segment_path ?i \<longrightarrow> content w0 n = content w n \<and> saved w0 n = saved w n"
    by (rule rollover_ready [OF ok roll ne cont nxt wr size])
  have ai: "?a \<noteq> ?i" using A(2) store_okD(10) [OF ok] by (auto simp: tracked_def)
  let ?fs = "fs(?i := pend)"
  obtain f s1 where b: "write_batch C (batch_of pend) (s0, w0) = (Inr (Some f), s1, flushed_world C ?i pend w0)"
    "store_ok C ?ms ?fs [] (s1, flushed_world C ?i pend w0)" "path f = segment_path ?i"
    "st_state s1 = st_state s0"
    using write_batch_run [OF r(2,4,3)] r(5) by auto
  let ?w1 = "flushed_world C ?i pend w0"
  note D = store_okD [OF b(2)]
  note wd = image_world [OF D(1)]
  let ?w2 = "save_file (path f) ?w1" and ?c = "SEGMENT_MAGIC @ frames_bytes C old"
  have sync: "commit_sync (Some f) ?w1 = (Inr (), ?w2)" by (rule commit_sync_healthy [OF wd(1)])
  have a: "?a \<in> set (butlast (ids_of (st_state s1)))" using A(2) by (simp add: b(4) r(6))
  then have mem: "?a \<in> set (ids_of (st_state s1))" by (rule in_set_butlastD)
  have "?a \<in> dom (seals (st_state s1))" using a wd(4) by (simp add: wf_state_def)
  then obtain info where info: "seals (st_state s1) ?a = Some info" by blast
  have fin: "unat (final_size info) = MAGIC_LEN + length (frames_bytes C (old @ new))"
    using D(1) info ai fr by (auto simp: crash_image_def)
  have c: "content ?w2 (segment_path ?a) = Some (SEGMENT_MAGIC @ frames_bytes C (old @ new))"
    using image_segment(1) [OF D(1) mem] ai fr by (simp add: tail_of_def)
  have sv: "saved ?w2 (segment_path ?a) = ?c" using r(7) unsynced ai b(3) by simp
  let ?w3 = "settle (put_content (segment_path ?a) ?c ?w2)"
  have "survives ?c (SEGMENT_MAGIC @ frames_bytes C (old @ new)) ?c" by (simp add: survives_prefix)
  then have "survives (saved ?w2 (segment_path ?a)) (SEGMENT_MAGIC @ frames_bytes C (old @ new)) ?c" by (simp only: sv)
  then have loss: "power_loss False ?w2 ?w3" using wd(1,2) by (intro power_loss_file [OF _ _ c]) simp_all
  have "length ?c \<noteq> unat (final_size info)" using new by (cases new) (simp_all add: fin frame_len_def HEADER_LEN_def)
  from wrong_size_stuck [OF D(1,2) ord mem info _ _ _ _ _ this, of ?w3]
  have "open_store C trigger ?w3 = (Inl (Err (RecoveryNotPossible [\<lparr>issue_file = Segment ?a,
        the_issue = SealedSegmentSizeMismatch (MAGIC_LEN + length (frames_bytes C (old @ new)))
          (MAGIC_LEN + length (frames_bytes C old))\<rparr>])), ?w3)
    \<and> recover C ?w3 = (Inl (Err NotPossible), ?w3)"
    using wd(1-3) fin by simp
  then show ?thesis using b(1) sync loss unfolding r(1) by blast
qed

theorem unsynced_seal_stays_closed_witness:
  "\<exists>s w f s1 w1 w2 w3. write_batch sample (batch_of next_batch) (s, w) = (Inr (Some f), s1, w1)
    \<and> commit_sync (Some f) w1 = (Inr (), w2) \<and> power_loss False w2 w3
    \<and> recover sample w3 = (Inl (Err NotPossible), w3)"
proof -
  obtain s w where s: "store_ok sample [first_op] batch_frames next_batch (s, w)"
    "st_state s = fresh_state" "active_id s = SegmentId 1" "rollover_pending s"
    "next_seg_id s = SegmentId 2"
    by (rule rolling_store)
  let ?w = "give_up (segment_path (SegmentId 1)) MAGIC_LEN (settle w)"
  note facts = rolling_facts [OF s(2,3,5)]
  have ok: "store_ok sample [first_op] batch_frames next_batch (s, ?w)"
    using s(1) unfolding store_ok_def by (simp add: image_same [of ?w w])
  have fr: "batch_frames (active_id s) = [] @ first_batch" by (simp add: s(3) batch_frames_def)
  have "content w (segment_path (SegmentId 1)) = Some (SEGMENT_MAGIC @ frames_bytes sample (batch_frames (SegmentId 1)))"
    using store_ok_active(3) [OF s(1)] by (simp only: s(3))
  then have "saved ?w (segment_path (active_id s)) = SEGMENT_MAGIC @ frames_bytes sample []" by (simp add: s(3))
  from unsynced_seal_stays_closed [OF ok s(4) facts(2) fr _ this facts(3-5) sample_order, of 1000]
  show ?thesis by (fastforce simp: first_batch_def)
qed

section \<open>A new store\<close>

text \<open>C31: Creating a store does not synchronise the first operation in its manifest. An entry that was written
  to the new store and synchronised is lost with the whole store when the power fails: the manifest is
  empty, and neither \<^verbatim>\<open>open_or_create\<close> nor an approved recovery accepts the directory.\<close>

theorem unsynced_creation_stays_closed:
  assumes "empty_dir w0" and run: "open_or_create C trigger w0 = (Inr s, w)" and cr: "crates_ok C"
    and push: "push C i p (writer_new, s) = (wr, s1)" and len: "length p < 2 ^ 32"
  shows "\<exists>f s2 w2 w3 w4. write_batch C wr (s1, w) = (Inr (Some f), s2, w2)
    \<and> commit_sync (Some f) w2 = (Inr (), w3) \<and> power_loss False w3 w4
    \<and> open_or_create C trigger w4
      = (Inl (Err (RecoveryNotPossible [\<lparr>issue_file = Manifest, the_issue = ManifestEmpty\<rparr>])), w4)
    \<and> recover C w4 = (Inl (Err NotPossible), w4)"
proof -
  have r: "store_ok C [first_op] (\<lambda>_. []) [] (s, w)" "st_state s = fresh_state" "rollover_pending s = False"
    "saved w MANIFEST_FILE_NAME = MANIFEST_MAGIC"
    using fresh_opens [OF assms(1), of C trigger] run cr by (auto simp: crates_ok_def)
  let ?pend = "[(EntryId i, p)]"
  have p: "wr = batch_of ?pend" "store_ok C [first_op] (\<lambda>_. []) ?pend (s1, w)" "st_state s1 = fresh_state"
    "rollover_pending s1 = False"
    using push_ok [OF r(1), of i p] push r(2,3) by simp_all
  have "continues (\<lambda>_. []) (st_state s1) ?pend"
    using len by (simp add: p(3) continues_def fits_def fresh_state_def less_eq_entry_id_def)
  from write_batch_run [OF p(2,4) this] obtain f s2 where
    b: "write_batch C (batch_of ?pend) (s1, w) = (Inr (Some f), s2, flushed_world C (active_id s1) ?pend w)"
    "store_ok C [first_op] ((\<lambda>_. [])(active_id s1 := ?pend)) [] (s2, flushed_world C (active_id s1) ?pend w)"
    "path f = segment_path (active_id s1)"
    by auto
  let ?w2 = "flushed_world C (active_id s1) ?pend w"
  note wd = image_world [OF store_okD(1) [OF b(2)]]
  let ?w3 = "save_file (path f) ?w2" and ?c = "MANIFEST_MAGIC @ ops_bytes C [first_op]"
  have sync: "commit_sync (Some f) ?w2 = (Inr (), ?w3)" by (rule commit_sync_healthy [OF wd(1)])
  have c: "content ?w3 MANIFEST_FILE_NAME = Some ?c" using wd(6) by simp
  have "saved ?w3 MANIFEST_FILE_NAME = MANIFEST_MAGIC" using r(4) by (simp add: b(3))
  then have "survives (saved ?w3 MANIFEST_FILE_NAME) ?c MANIFEST_MAGIC" by (simp only: survives_prefix prefixI) simp
  then have loss: "power_loss False ?w3 (settle (put_content MANIFEST_FILE_NAME MANIFEST_MAGIC ?w3))"
    using wd(1,2) by (intro power_loss_file [OF _ _ c]) simp_all
  have "open_or_create C trigger (settle (put_content MANIFEST_FILE_NAME MANIFEST_MAGIC ?w3))
      = (Inl (Err (RecoveryNotPossible [\<lparr>issue_file = Manifest, the_issue = ManifestEmpty\<rparr>])),
         settle (put_content MANIFEST_FILE_NAME MANIFEST_MAGIC ?w3))
    \<and> recover C (settle (put_content MANIFEST_FILE_NAME MANIFEST_MAGIC ?w3))
      = (Inl (Err NotPossible), settle (put_content MANIFEST_FILE_NAME MANIFEST_MAGIC ?w3))"
    using wd(1,3) by (intro empty_manifest_stuck) simp_all
  then show ?thesis using b(1) sync loss unfolding p(1) by blast
qed

theorem unsynced_creation_stays_closed_witness:
  "\<exists>s w wr s1 f s2 w2 w3 w4. open_or_create sample 1000 empty_world = (Inr s, w)
    \<and> push sample 0 [7] (writer_new, s) = (wr, s1) \<and> write_batch sample wr (s1, w) = (Inr (Some f), s2, w2)
    \<and> commit_sync (Some f) w2 = (Inr (), w3) \<and> power_loss False w3 w4
    \<and> recover sample w4 = (Inl (Err NotPossible), w4)"
proof -
  obtain s w where run: "open_or_create sample 1000 empty_world = (Inr s, w)"
    using fresh_opens [OF empty_world_dir sample_first_writable sample_order sample_recovery_writable, of 1000]
    by blast
  obtain wr s1 where push: "push sample 0 [7] (writer_new, s) = (wr, s1)" by fastforce
  have "length [7 :: u8] < 2 ^ 32" by simp
  from unsynced_creation_stays_closed [OF empty_world_dir run sample_crates_ok push this] run push
  show ?thesis by blast
qed

section \<open>A segment file whose name is lost\<close>

lemma open_missing: "healthy w \<Longrightarrow> content w (segment_path i) = None \<Longrightarrow> open_segment i w = (Inl (Err NotFound), w)"
  by (simp add: open_segment_def open_checked_def fs_open_def and_then_def)

lemma image_contents:
  assumes "\<And>n. content w' n = content w n" and "healthy w'" and "wf_world w'" and "base_dir_exists w'"
    and "crash_image C ms st fs mtail tail w"
  shows "crash_image C ms st fs mtail tail w'"
  using assms(2-5) unfolding crash_image_def assms(1) by simp

lemma healthy_entries: "healthy (w\<lparr>entries := es\<rparr>) = healthy w"
  by (simp add: healthy_def)

text \<open>The scan, the refusal and the approved recovery of a directory without the file of the active segment.\<close>

lemma missing_active_recovers:
  assumes img: "crash_image C ms st fs [] [] w" and disk: "on_disk w = tracked st" and ord: "order_ok C"
    and act: "active_segment_id st = Some i" "i \<in> set (ids_of st)" "seals st i = None"
    and w1: "healthy w1" "wf_world w1" "base_dir_exists w1"
    and same: "\<And>n. n \<noteq> segment_path i \<Longrightarrow> content w1 n = content w n"
    and gone: "content w1 (segment_path i) = None"
  defines "iss \<equiv> [\<lparr>issue_file = Segment i, the_issue = ActiveSegmentMissing\<rparr>]"
  shows "open_store C trigger w1 = (Inl (Err (ApprovedRecoveredRequired iss)), w1)
    \<and> recover C w1 = (Inr (), store_file (segment_path i) SEGMENT_MAGIC w1)"
proof -
  have "size_issue i None w1 = (None, w1)" by (simp add: size_issue_def)
  then have one: "scan_segment C i (map_option (\<lambda>info. unat (final_size info)) (seals st i)) ([], w1)
      = (failed_report i, iss, w1)"
    using open_missing [OF w1(1) gone] act(3) by (simp add: scan_segment_def push_issue_def iss_def Let_def)
  obtain reports where scan: "scan_store C w1 = (\<lparr>report_state = st,
      manifest_next_offset = MAGIC_LEN + length (ops_bytes C ms), segment_reports = reports,
      report_issues = iss\<rparr>, w1)"
    using bad_segment_scan [OF img disk ord act(2) w1 same one] by blast
  have "create_active_segment i w1 = (Inr (), store_file (segment_path i) SEGMENT_MAGIC w1)"
    using w1(1,3) gone
    by (simp add: create_active_segment_def and_then_def io_error_def map_err_def create_segment_file_healthy)
  then show ?thesis
    by (simp add: open_store_def recover_def scan attempt_recovery_def iss_def create_fix_up_def
        issue_segment_id_def approval_fix_def and_then_def)
qed

text \<open>C32: A rollover makes the file of the new segment without synchronising the directory. If the file system
  does not keep the new name on its own, a loss of power takes the file with a batch that was written to
  it and synchronised: the store opens only after an approved recovery, and then without the batch.\<close>

theorem lost_name_loses_batch:
  assumes ok: "store_ok C ms fs pend (s, w)" and roll: "rollover_pending s"
    and ne: "fs (active_id s) \<noteq> []" and cont: "continues fs (st_state s) pend"
    and nxt: "next_segment_id (next_seg_id s) \<noteq> None"
    and wr: "op_writable C (bare (rollover_op s (fst (hd pend))))"
    and size: "MAGIC_LEN + length (frames_bytes C (fs (active_id s))) < 2 ^ 64"
    and ord: "order_ok C" and unlisted: "segment_path (next_seg_id s) \<notin> set (listed w)"
  shows "\<exists>f s1 w1 w2 w3 w4 s5 w5. write_batch C (batch_of pend) (s, w) = (Inr (Some f), s1, w1)
    \<and> commit_sync (Some f) w1 = (Inr (), w2) \<and> power_loss True w2 w3
    \<and> open_store C trigger w3 = (Inl (Err (ApprovedRecoveredRequired
        [\<lparr>issue_file = Segment (next_seg_id s), the_issue = ActiveSegmentMissing\<rparr>])), w3)
    \<and> recover C w3 = (Inr (), w4) \<and> open_store C trigger w4 = (Inr s5, w5)
    \<and> store_ok C (ms @ [bare (rollover_op s (fst (hd pend)))]) (fs(next_seg_id s := [])) [] (s5, w5)"
proof -
  let ?i = "next_seg_id s" and ?ms = "ms @ [bare (rollover_op s (fst (hd pend)))]"
  obtain s0 w0 where r: "write_batch C (batch_of pend) (s, w) = write_batch C (batch_of pend) (s0, w0)"
    "store_ok C ?ms (fs(?i := [])) pend (s0, w0)" "continues (fs(?i := [])) (st_state s0) pend"
    "rollover_pending s0 = False" "active_id s0 = ?i" "listed w0 = listed w"
    by (rule rollover_ready [OF ok roll ne cont nxt wr size])
  note D0 = store_okD [OF r(2)]
  obtain f s1 where b: "write_batch C (batch_of pend) (s0, w0) = (Inr (Some f), s1, flushed_world C ?i pend w0)"
    "store_ok C ?ms (fs(?i := pend)) [] (s1, flushed_world C ?i pend w0)" "path f = segment_path ?i"
    "st_state s1 = st_state s0"
    using write_batch_run [OF r(2,4,3)] r(5) by auto
  let ?w1 = "flushed_world C ?i pend w0"
  note D = store_okD [OF b(2), unfolded b(4)]
  note wd = image_world [OF D(1)]
  note A = store_ok_active [OF r(2), unfolded r(5)]
  let ?w2 = "save_file (path f) ?w1"
  have sync: "commit_sync (Some f) ?w1 = (Inr (), ?w2)" by (rule commit_sync_healthy [OF wd(1)])
  let ?w3 = "settle (?w2\<lparr>entries := AList.delete (segment_path ?i) (entries ?w2)\<rparr>)"
  let ?w4 = "store_file (segment_path ?i) SEGMENT_MAGIC ?w3"
  have c3: "content ?w3 n = (if n = segment_path ?i then None else content ?w1 n)" for n
    by (simp add: delete_conv')
  have "wf_world (?w2\<lparr>entries := AList.delete (segment_path ?i) (entries ?w2)\<rparr>)"
    using wd(2,3) by (simp add: wf_world_def distinct_delete)
  then have w3: "healthy ?w3" "wf_world ?w3" "base_dir_exists ?w3"
    using wd(1,3) by (simp_all add: healthy_entries)
  have loss: "power_loss True ?w2 ?w3"
    unfolding power_loss_def c3
    using w3 wd(3) unlisted r(6) longest_common_prefix_of by (auto simp: survives_def delete_conv' split: if_splits)
  have rec: "open_store C trigger ?w3 = (Inl (Err (ApprovedRecoveredRequired
        [\<lparr>issue_file = Segment ?i, the_issue = ActiveSegmentMissing\<rparr>])), ?w3)
      \<and> recover C ?w3 = (Inr (), ?w4)"
    by (rule missing_active_recovers [OF D(1,2) ord _ A(2,4) w3])
       (use D0(6) r(5) c3 in simp_all)
  have "content ?w4 n = content w0 n" for n
    using c3 A(3) by (simp add: flushed_world_def)
  then have img: "crash_image C ?ms (st_state s0) (fs(?i := [])) [] [] ?w4"
    by (rule image_contents [OF _ _ _ _ D0(1)]) (use w3 in simp_all)
  have "on_disk ?w4 = on_disk w0"
    using c3 A(3) by (auto simp: on_disk_def flushed_world_def)
  then obtain s5 where "open_store C trigger ?w4 = (Inr s5, ?w4)" "store_ok C ?ms (fs(?i := [])) [] (s5, ?w4)"
    using open_clean [OF img D0(3) _ next_after_tracked [OF r(2)] ord, of trigger] D0(2) by auto
  then show ?thesis using b(1) sync loss rec unfolding r(1) by blast
qed

theorem lost_name_loses_batch_witness:
  "\<exists>s w f s1 w1 w2 w3 w4 s5 w5. write_batch sample (batch_of next_batch) (s, w) = (Inr (Some f), s1, w1)
    \<and> commit_sync (Some f) w1 = (Inr (), w2) \<and> power_loss True w2 w3
    \<and> recover sample w3 = (Inr (), w4) \<and> open_store sample 10 w4 = (Inr (s5 :: store), w5)"
proof -
  obtain s w where s: "store_ok sample [first_op] batch_frames next_batch (s, w)"
    "st_state s = fresh_state" "active_id s = SegmentId 1" "rollover_pending s"
    "next_seg_id s = SegmentId 2"
    by (rule rolling_store)
  note facts = rolling_facts [OF s(2,3,5)]
  have ok: "store_ok sample [first_op] batch_frames next_batch (s, w\<lparr>listed := []\<rparr>)"
    using s(1) unfolding store_ok_def by (simp add: image_same [of "w\<lparr>listed := []\<rparr>" w] healthy_def)
  from lost_name_loses_batch [OF ok s(4) facts sample_order, of 10] show ?thesis by fastforce
qed

end
