(* ===== verification/Read_Fault.thy ===== *)
theory Read_Fault
  imports Store_Stops
begin

text \<open>
  Opening a store whose device fails once while it is read. \<^verbatim>\<open>FrameScanner::peek_header\<close> of \<^verbatim>\<open>src/frame.rs\<close>
  takes any error in the rest of a header for the end of the file, so the scan of \<^verbatim>\<open>src/scan.rs\<close> reports a
  torn tail, and the recovery of \<^verbatim>\<open>src/recovery.rs\<close> cuts the file there without asking.
\<close>

section \<open>Calls before the fault\<close>

lemma scan_all_short:
  assumes "\<forall>f \<in> set fs. fits f" and "peeked sc = None" and "stream sc = frames_bytes C fs @ tail"
    and "tail \<noteq> []" and "length tail < HEADER_LEN"
  shows "fst (scan_all C stride sc) = Inr
    \<lparr>count = length fs, checkpoints = marks stride 0 (position sc) fs,
     last_id = last_frame_id fs, next_offset = position sc + length (frames_bytes C fs), status = TornTail\<rparr>"
proof -
  define sc' where "sc' = sc\<lparr>stream := tail, position := position sc + length (frames_bytes C fs)\<rparr>"
  have loop: "scan_all C stride sc =
      scan_loop C stride (length fs) (marks stride 0 (position sc) fs) (last_frame_id fs)
        (position sc + length (frames_bytes C fs)) sc'"
    using scan_loop_frames [OF assms(1-3), of stride 0 "[]" None "position sc"]
    by (auto simp: scan_all_def sc'_def last_frame_id_def)
  have "fst (check C sc') = Inl (Truncated (position sc'))"
    using assms(2,4,5) by (auto simp: check_def and_then_apply peek_header_step sc'_def)
  then obtain sc2 where "check C sc' = (Inl (Truncated (position sc')), sc2)" by (cases "check C sc'") simp
  then show ?thesis unfolding loop by (subst scan_loop.simps) simp
qed

lemma later_calls:
  "dir_exists (w\<lparr>faults := None # fl\<rparr>) = (base_dir_exists w, w\<lparr>faults := fl\<rparr>)"
  "scanner_new f off (w\<lparr>faults := None # fl\<rparr>) = (fst (scanner_new f off (restarted w)), w\<lparr>faults := fl\<rparr>)"
  "scanner_new f off (w\<lparr>faults := [Some k]\<rparr>) = ((fst (scanner_new f off (restarted w)))
     \<lparr>stream := take k (stream (fst (scanner_new f off (restarted w)))), stream_end := Some DeviceFault\<rparr>, restarted w)"
  by (simp_all add: dir_exists_def next_outcome_def spend_def scanner_new_def read_stream_def Let_def)

lemma later_segment:
  assumes "content w (segment_path i) = Some (SEGMENT_MAGIC @ frames_bytes C fs)" and "\<forall>f \<in> set fs. fits f"
  shows "scan_segment C i (Some (MAGIC_LEN + length (frames_bytes C fs)))
      (iss, w\<lparr>faults := None # None # None # None # fl\<rparr>)
    = (image_report C [] fs i, iss, w\<lparr>faults := fl\<rparr>)"
proof -
  have "content (restarted w) (segment_path i) = Some (SEGMENT_MAGIC @ frames_bytes C fs @ [])"
    using assms(1) by simp
  from scan_file [OF _ this length_magic(1) assms(2), of INDEX_STRIDE] obtain sc where
    sc: "scanner_new \<lparr>path = segment_path i, cursor_at = MAGIC_LEN\<rparr> MAGIC_LEN (restarted w) = (sc, restarted w)"
    and all: "fst (scan_all C INDEX_STRIDE sc) = Inr
        \<lparr>count = length fs, checkpoints = marks INDEX_STRIDE 0 MAGIC_LEN fs, last_id = last_frame_id fs,
         next_offset = MAGIC_LEN + length (frames_bytes C fs), status = Clean\<rparr>" by auto
  have size: "size_issue i (Some (MAGIC_LEN + length (frames_bytes C fs)))
      (w\<lparr>faults := None # None # None # None # fl\<rparr>) = (None, w\<lparr>faults := None # None # None # fl\<rparr>)"
    using assms(1) by (simp add: size_issue_def segment_size_def metadata_len_def call_def next_outcome_def spend_def)
  show ?thesis
    by (simp add: scan_segment_def size open_segment_def later_open [OF assms(1) length_magic(1)] later_calls sc all
        image_report_def Let_def)
qed

lemma later_segment_list:
  assumes "\<forall>e \<in> set es. (\<forall>f \<in> set (fs (se_id e)). fits f)
      \<and> content w (segment_path (se_id e)) = Some (SEGMENT_MAGIC @ frames_bytes C (fs (se_id e)))
      \<and> (\<exists>info. seals st (se_id e) = Some info
           \<and> unat (final_size info) = MAGIC_LEN + length (frames_bytes C (fs (se_id e))))"
  shows "scan_segments C st es (iss, w\<lparr>faults := replicate (4 * length es) None @ fl\<rparr>)
    = (map (\<lambda>e. image_report C [] (fs (se_id e)) (se_id e)) es, iss, w\<lparr>faults := fl\<rparr>)"
  using assms
proof (induction es)
  case (Cons e es)
  obtain info where "seals st (se_id e) = Some info"
    "unat (final_size info) = MAGIC_LEN + length (frames_bytes C (fs (se_id e)))" using Cons.prems by auto
  then have exp: "map_option (\<lambda>info. unat (final_size info)) (seals st (se_id e))
      = Some (MAGIC_LEN + length (frames_bytes C (fs (se_id e))))" by simp
  have "scan_segment C (se_id e) (Some (MAGIC_LEN + length (frames_bytes C (fs (se_id e)))))
      (iss, w\<lparr>faults := None # None # None # None # replicate (4 * length es) None @ fl\<rparr>)
    = (image_report C [] (fs (se_id e)) (se_id e), iss, w\<lparr>faults := replicate (4 * length es) None @ fl\<rparr>)"
    by (rule later_segment) (use Cons.prems in simp_all)
  moreover have "replicate (4 + 4 * length es) (None :: nat option) = None # None # None # None # replicate (4 * length es) None"
    by (simp add: numeral_eq_Suc)
  ultimately show ?case using Cons by (simp add: exp)
qed simp

text \<open>The segment whose read fails inside a header.\<close>

lemma later_torn_segment:
  assumes c: "content w (segment_path i) = Some (SEGMENT_MAGIC @ frames_bytes C (keep @ f # lost))"
    and fits: "\<forall>f \<in> set keep. fits f" and j: "0 < j" "j < HEADER_LEN"
  shows "scan_segment C i None
      (iss, w\<lparr>faults := [None, None, Some (length (frames_bytes C keep) + j)]\<rparr>)
    = (image_report C (take j (frame_bytes C f)) keep i, iss @ torn_issues C (take j (frame_bytes C f)) keep i,
       restarted w)"
proof -
  let ?k = "length (frames_bytes C keep) + j" and ?t = "take j (frame_bytes C f)"
  define sc where "sc = \<lparr>stream = frames_bytes C keep @ ?t, stream_end = Some DeviceFault, chunk = 8191,
    position = MAGIC_LEN, peeked = None\<rparr>"
  have len: "HEADER_LEN \<le> length (frame_bytes C f)" by (simp add: frame_len_def)
  then have t: "?t \<noteq> []" "length ?t < HEADER_LEN" using j by (auto simp flip: length_0_conv)
  have "take ?k (frames_bytes C (keep @ f # lost)) = frames_bytes C keep @ ?t"
    using j len by (simp add: min_def)
  then have new: "scanner_new \<lparr>path = segment_path i, cursor_at = MAGIC_LEN\<rparr> MAGIC_LEN (w\<lparr>faults := [Some ?k]\<rparr>)
      = (sc, restarted w)"
    using c by (simp add: later_calls sc_def) (simp add: scanner_new_def read_stream_def)
  have "fst (scan_all C INDEX_STRIDE sc) = Inr
        \<lparr>count = length keep, checkpoints = marks INDEX_STRIDE 0 (position sc) keep, last_id = last_frame_id keep,
         next_offset = position sc + length (frames_bytes C keep), status = TornTail\<rparr>"
    by (rule scan_all_short [OF fits _ _ t]) (simp_all add: sc_def)
  then have all: "fst (scan_all C INDEX_STRIDE sc) = Inr
        \<lparr>count = length keep, checkpoints = marks INDEX_STRIDE 0 MAGIC_LEN keep, last_id = last_frame_id keep,
         next_offset = MAGIC_LEN + length (frames_bytes C keep), status = TornTail\<rparr>"
    by (simp add: sc_def)
  show ?thesis using t(1)
    by (simp add: scan_segment_def size_issue_def open_segment_def later_open [OF c length_magic(1)] new all
        image_report_def torn_issues_def push_issue_def Let_def)
qed

section \<open>Opening with the fault\<close>

text \<open>The faults that let all reads of the scan succeed but that of the active segment, which fails
  after \<open>k\<close> bytes.\<close>

definition failing_read :: "store_state \<Rightarrow> nat \<Rightarrow> nat option list" where
  "failing_read st k = replicate 8 None @ replicate (4 * (length (segments st) - 1)) None @ [None, None, Some k]"

text \<open>The scan of the manifest and the list of files, before any fault.\<close>

lemma later_manifest:
  assumes img: "crash_image C ms st fs [] [] w"
  shows "scan_store C (w\<lparr>faults := None # None # None # None # None # None # None # fl\<rparr>)
    = scan_files C [] \<lparr>replayed = st, replay_next = MAGIC_LEN + length (ops_bytes C ms)\<rparr> (w\<lparr>faults := fl\<rparr>)"
proof -
  note wd = image_world [OF img]
  have w: "restarted w = w" using wd(1) by (simp add: healthy_def)
  have m: "content w MANIFEST_FILE_NAME = Some (MANIFEST_MAGIC @ ops_bytes C ms @ [])" using wd(6) by simp
  note rp = replay_whole(2) [OF wd(1) m wd(7,8)]
  then have replay: "replay C manifest_handle MAGIC_LEN (w\<lparr>faults := None # fl\<rparr>)
      = (Inr \<lparr>replayed = st, replay_next = MAGIC_LEN + length (ops_bytes C ms)\<rparr>, w\<lparr>faults := fl\<rparr>)" for fl
    by (simp add: replay_def later_calls w split: prod.splits)
  have opn: "open_manifest_read (w\<lparr>faults := None # None # fl\<rparr>) = (Inr (manifest_handle, MAGIC_LEN), w\<lparr>faults := fl\<rparr>)" for fl
    unfolding open_manifest_read_def manifest_handle_def by (rule later_open [OF wd(6)]) simp
  have fit: "\<forall>f \<in> set (map (op_frame C) ms). fits f" using wd(8) by (auto simp: op_writable_def)
  obtain sc where sc: "scanner_new manifest_handle MAGIC_LEN w = (sc, w)"
    and all: "fst (scan_all C 1 sc) = Inr
        \<lparr>count = length (map (op_frame C) ms), checkpoints = marks 1 0 MAGIC_LEN (map (op_frame C) ms),
         last_id = last_frame_id (map (op_frame C) ms),
         next_offset = MAGIC_LEN + length (ops_bytes C ms), status = Clean\<rparr>"
    using scan_file [OF wd(1) m length_magic(2) fit] by (auto simp: manifest_handle_def)
  have new: "scanner_new manifest_handle MAGIC_LEN (w\<lparr>faults := None # fl\<rparr>) = (sc, w\<lparr>faults := fl\<rparr>)" for fl
    by (simp add: later_calls w sc)
  have "\<not> is_empty st" using wd(5) by (simp add: is_empty_def)
  then show ?thesis
    unfolding scan_store_def
    by (simp add: later_calls(1) wd(3) opn new all scan_replay_def replay del: One_nat_def)
qed

lemma later_files:
  assumes img: "crash_image C ms st fs [] [] w" and disk: "on_disk w = tracked st" and ord: "order_ok C"
    and segs: "scan_segments C st (segments st) ([], w\<lparr>faults := fl\<rparr>) = (reports, iss, w)"
  shows "scan_files C [] \<lparr>replayed = st, replay_next = n\<rparr> (w\<lparr>faults := None # fl\<rparr>)
    = (\<lparr>report_state = st, manifest_next_offset = n, segment_reports = reports, report_issues = iss\<rparr>, w)"
proof -
  note wd = image_world [OF img]
  define ids where "ids = sorted_list_of_set (on_disk w)"
  have names: "\<forall>n c. content w n = Some c \<longrightarrow> n = MANIFEST_FILE_NAME \<or> n \<in> range segment_path"
    using img unfolding crash_image_def by blast
  have "collect_segment_ids w = (Inr ids, w)" unfolding ids_def by (rule collect_on_disk [OF wd(1-3) names])
  then have "sort (List.map_filter parse_segment_path (map fst (entries w))) = ids"
    using wd(1,3) by (simp add: collect_segment_ids_def and_then_def read_dir_def)
  then have "collect_segment_ids (w\<lparr>faults := None # fl\<rparr>) = (Inr ids, w\<lparr>faults := fl\<rparr>)"
    by (simp add: collect_segment_ids_def and_then_def read_dir_def call_def next_outcome_def spend_def wd(3))
  moreover have "find_orphans st ids [] = []" "find_missing_dead C st ids [] = []"
    using disk ord
    by (auto simp: ids_def find_orphans_def find_missing_dead_def fold_push_issue tracked_def filter_empty_conv)
  ultimately show ?thesis by (simp add: scan_files_def segs Let_def)
qed

lemma sealed_files:
  assumes img: "crash_image C ms st fs [] [] w" and es: "segments st = es @ [e]"
  shows "\<forall>d \<in> set es. (\<forall>f \<in> set (fs (se_id d)). fits f)
      \<and> content w (segment_path (se_id d)) = Some (SEGMENT_MAGIC @ frames_bytes C (fs (se_id d)))
      \<and> (\<exists>info. seals st (se_id d) = Some info
           \<and> unat (final_size info) = MAGIC_LEN + length (frames_bytes C (fs (se_id d))))"
proof
  fix d assume d: "d \<in> set es"
  have dom: "dom (seals st) = set (butlast (ids_of st))"
    using image_world(4) [OF img] unfolding wf_state_def by blast
  have live: "se_id d \<in> set (ids_of st)" "se_id d \<in> dom (seals st)" using d unfolding dom by (simp_all add: es)
  then obtain info where "seals st (se_id d) = Some info" by blast
  moreover from this have "unat (final_size info) = MAGIC_LEN + length (frames_bytes C (fs (se_id d)))"
    using img unfolding crash_image_def by blast
  ultimately show "(\<forall>f \<in> set (fs (se_id d)). fits f)
      \<and> content w (segment_path (se_id d)) = Some (SEGMENT_MAGIC @ frames_bytes C (fs (se_id d)))
      \<and> (\<exists>info. seals st (se_id d) = Some info
           \<and> unat (final_size info) = MAGIC_LEN + length (frames_bytes C (fs (se_id d))))"
    using image_segment [OF img live(1)] by (simp add: tail_of_def)
qed

lemma failing_scan:
  assumes ok: "store_ok C ms fs pend (s, w)" and ord: "order_ok C"
    and fr: "fs (active_id s) = keep @ f # lost" and j: "0 < j" "j < HEADER_LEN"
  obtains report where "scan_store C (w\<lparr>faults := failing_read (st_state s) (length (frames_bytes C keep) + j)\<rparr>)
      = (report, w)"
    and "report_issues report = [\<lparr>issue_file = Segment (active_id s),
      the_issue = ActiveSegmentTornTail (MAGIC_LEN + length (frames_bytes C keep))\<rparr>]"
proof -
  let ?st = "st_state s" and ?a = "active_id s" and ?t = "take j (frame_bytes C f)"
  let ?fl1 = "replicate (4 * (length (segments ?st) - 1)) None @ [None, None, Some (length (frames_bytes C keep) + j)]"
  note D = store_okD [OF ok] and A = store_ok_active [OF ok]
  note wd = image_world [OF D(1)]
  have w: "restarted w = w" using wd(1) by (simp add: healthy_def)
  have fl: "failing_read ?st (length (frames_bytes C keep) + j) = None # None # None # None # None # None # None # None # ?fl1"
    by (simp add: failing_read_def numeral_eq_Suc)
  obtain es e where es: "segments ?st = es @ [e]" using wd(5) by (cases "segments ?st" rule: rev_cases) auto
  then have e: "se_id e = ?a" using A(1) by simp
  note sealed = sealed_files [OF D(1) es]
  have fits: "\<forall>f \<in> set keep. fits f" using image_segment(2) [OF D(1) A(2)] by (simp add: fr)
  have c: "content w (segment_path (se_id e)) = Some (SEGMENT_MAGIC @ frames_bytes C (keep @ f # lost))"
    using A(3) by (simp only: e fr)
  have "seals ?st (se_id e) = None" using A(4) e by simp
  then obtain reports where segs: "scan_segments C ?st (segments ?st) ([], w\<lparr>faults := ?fl1\<rparr>)
      = (reports, torn_issues C ?t keep ?a, w)"
    using later_segment_list [OF sealed, where iss = "[]" and fl = "[None, None, Some (length (frames_bytes C keep) + j)]"]
      later_torn_segment [OF c fits j, where iss = "[]"] w
    unfolding es scan_segments_append by (simp add: e)
  have files: "scan_files C [] \<lparr>replayed = ?st, replay_next = nxt\<rparr> (w\<lparr>faults := None # ?fl1\<rparr>)
      = (\<lparr>report_state = ?st, manifest_next_offset = nxt, segment_reports = reports,
          report_issues = torn_issues C ?t keep ?a\<rparr>, w)" for nxt
    using later_files [OF D(1,2) ord segs] .
  have scan: "scan_store C (w\<lparr>faults := failing_read ?st (length (frames_bytes C keep) + j)\<rparr>)
      = (\<lparr>report_state = ?st, manifest_next_offset = MAGIC_LEN + length (ops_bytes C ms), segment_reports = reports,
          report_issues = torn_issues C ?t keep ?a\<rparr>, w)"
    unfolding fl later_manifest [OF D(1)] files ..
  have "?t \<noteq> []"
  proof -
    have "length ?t = j" using j by (simp add: frame_len_def)
    then show ?thesis using j(1) by auto
  qed
  then show thesis by (intro that [OF scan]) (simp add: torn_issues_def)
qed

text \<open>C39: One read that fails while a store is opened destroys the entries behind it: if the device fails
  while the scan reads the header of an entry of the active segment, opening succeeds and returns a store
  without that entry and all behind it, which it has cut from the file without approval, although the file
  was whole and the device works again.\<close>

theorem read_fault_loses_entries:
  assumes ok: "store_ok C ms fs pend (s, w)" and ord: "order_ok C"
    and fr: "fs (active_id s) = keep @ f # lost" and j: "0 < j" "j < HEADER_LEN"
  shows "\<exists>s' w'. open_store C trigger
        (w\<lparr>faults := failing_read (st_state s) (length (frames_bytes C keep) + j)\<rparr>) = (Inr s', w')
    \<and> store_ok C ms (fs(active_id s := keep)) [] (s', w') \<and> st_state s' = st_state s
    \<and> content w' (segment_path (active_id s)) = Some (SEGMENT_MAGIC @ frames_bytes C keep)"
proof -
  let ?a = "active_id s" and ?st = "st_state s" and ?fs = "fs(active_id s := keep)"
  let ?off = "MAGIC_LEN + length (frames_bytes C keep)"
  let ?w' = "store_file (segment_path ?a) (SEGMENT_MAGIC @ frames_bytes C keep) w"
  note D = store_okD [OF ok] and A = store_ok_active [OF ok]
  note wd = image_world [OF D(1)]
  obtain report where scan: "scan_store C (w\<lparr>faults := failing_read ?st (length (frames_bytes C keep) + j)\<rparr>) = (report, w)"
    and iss: "report_issues report = [\<lparr>issue_file = Segment ?a, the_issue = ActiveSegmentTornTail ?off\<rparr>]"
    by (rule failing_scan [OF ok ord fr j])
  have "open_segment_rw ?a w = (Inr (\<lparr>path = segment_path ?a, cursor_at = MAGIC_LEN\<rparr>, MAGIC_LEN), w)"
    unfolding open_segment_rw_def by (rule open_checked_magic [OF wd(1) A(3)]) simp
  then have "truncate_segment ?a ?off w = (Inr (), ?w')"
    using wd(1) A(3) by (simp add: truncate_segment_def and_then_def io_error_def map_err_def set_len_def fr)
  then have rec: "attempt_recovery C report False w = (Inr (), ?w')"
    by (simp add: attempt_recovery_def iss create_fix_up_def issue_segment_id_def auto_fix_def and_then_def)
  have fits: "\<forall>f \<in> set keep. fits f" using image_segment(2) [OF D(1) A(2)] by (simp add: fr)
  have img: "crash_image C ms ?st ?fs [] [] ?w'"
    using image_segment_put [OF D(1) A(2) fits] A(4) by simp
  obtain pre where ids: "ids_of ?st = pre @ [?a]"
    using A(1) wd(5) by (cases "ids_of ?st" rule: rev_cases) auto
  have eok: "entries_ok ?fs ?st" by (rule entries_ok_prefix [OF D(3) wd(4) ids fr])
  have disk: "on_disk ?w' = tracked ?st" using D(2) A(2) by (simp add: on_disk_put tracked_def)
  obtain s' where s': "from_scan_report trigger (fst (scan_store C ?w')) ?w' = (Inr s', ?w')"
    "st_state s' = ?st" "store_ok C ms ?fs [] (s', ?w')"
    using opens_clean [OF img eok disk next_after_tracked [OF ok] ord, of trigger] by blast
  obtain report2 where scan2: "scan_store C ?w' = (report2, ?w')" using scan_image [OF img] by simp
  have "open_store C trigger (w\<lparr>faults := failing_read ?st (length (frames_bytes C keep) + j)\<rparr>) = (Inr s', ?w')"
    using s'(1) by (simp add: open_store_def scan iss rec scan2)
  then show ?thesis using s'(2,3) by (intro exI [of _ s'] exI [of _ ?w']) simp
qed

theorem read_fault_loses_entries_witness:
  "\<exists>(s :: store) w s' w'. content w (segment_path (SegmentId 1)) = Some (SEGMENT_MAGIC @ frames_bytes sample first_batch)
    \<and> open_store sample 1000 (w\<lparr>faults := failing_read (st_state s) 5\<rparr>) = (Inr s', w')
    \<and> content w' (segment_path (SegmentId 1)) = Some SEGMENT_MAGIC"
proof -
  obtain s w f where s: "store_ok sample [first_op] batch_frames next_batch (s, w)"
    "st_state s = fresh_state" "active_id s = SegmentId 1"
    by (rule writing_store)
  have b: "batch_frames (SegmentId 1) = first_batch" by (simp add: batch_frames_def)
  have fr: "batch_frames (active_id s) = [] @ (EntryId 0, [7]) # []" by (simp add: s(3) b first_batch_def)
  have j: "0 < (5 :: nat)" "5 < HEADER_LEN" by (simp_all add: HEADER_LEN_def)
  obtain s' w' where "open_store sample 1000 (w\<lparr>faults := failing_read (st_state s) 5\<rparr>) = (Inr s', w')"
    "content w' (segment_path (SegmentId 1)) = Some SEGMENT_MAGIC"
    using read_fault_loses_entries [OF s(1) sample_order fr j, of 1000] s(3) by auto
  moreover have "content w (segment_path (SegmentId 1)) = Some (SEGMENT_MAGIC @ frames_bytes sample first_batch)"
    using store_ok_active(3) [OF s(1)] by (simp add: s(3) b)
  ultimately show ?thesis by blast
qed

section \<open>The manifest\<close>

lemma failing_manifest_scan:
  assumes img: "crash_image C (ms @ [m]) st fs [] [] w" and disk: "on_disk w = tracked st" and ord: "order_ok C"
    and j: "0 < j" "j < HEADER_LEN"
  obtains report where "scan_store C (w\<lparr>faults := [None, None, None, Some (length (ops_bytes C ms) + j)]\<rparr>) = (report, w)"
    and "report_issues report = [\<lparr>issue_file = Manifest, the_issue = ManifestTornTail (MAGIC_LEN + length (ops_bytes C ms))\<rparr>]"
proof -
  let ?fl = "[Some (length (ops_bytes C ms) + j)]" and ?off = "MAGIC_LEN + length (ops_bytes C ms)"
  let ?t = "take j (frame_bytes C (op_frame C m))"
  let ?iss = "[\<lparr>issue_file = Manifest, the_issue = ManifestTornTail ?off\<rparr>]"
  note wd = image_world [OF img]
  have w: "restarted w = w" using wd(1) by (simp add: healthy_def)
  have "length ?t = j" using j by (simp add: frame_len_def)
  then have t: "?t \<noteq> []" "length ?t < HEADER_LEN" using j by auto
  define sc where "sc = \<lparr>stream = ops_bytes C ms @ ?t, stream_end = Some DeviceFault, chunk = 8191,
    position = MAGIC_LEN, peeked = None\<rparr>"
  have "take (length (ops_bytes C ms) + j) (ops_bytes C (ms @ [m])) = ops_bytes C ms @ ?t" by simp
  then have new: "scanner_new manifest_handle MAGIC_LEN (w\<lparr>faults := ?fl\<rparr>) = (sc, w)"
    using wd(6) by (simp add: later_calls w sc_def del: map_append) (simp add: scanner_new_def read_stream_def manifest_handle_def wd(1))
  have fit: "\<forall>f \<in> set (map (op_frame C) ms). fits f" using wd(8) by (auto simp: op_writable_def)
  have "fst (scan_all C 1 sc) = Inr
        \<lparr>count = length (map (op_frame C) ms), checkpoints = marks 1 0 (position sc) (map (op_frame C) ms),
         last_id = last_frame_id (map (op_frame C) ms),
         next_offset = position sc + length (ops_bytes C ms), status = TornTail\<rparr>"
    by (rule scan_all_short [OF fit _ _ t]) (simp_all add: sc_def)
  then obtain n cps l where all: "fst (scan_all C 1 sc) = Inr \<lparr>count = n, checkpoints = cps,
      last_id = l, next_offset = ?off, status = TornTail\<rparr>" by (auto simp: sc_def)
  have opn: "open_manifest_read (w\<lparr>faults := None # None # fl\<rparr>) = (Inr (manifest_handle, MAGIC_LEN), w\<lparr>faults := fl\<rparr>)" for fl
    unfolding open_manifest_read_def manifest_handle_def by (rule later_open [OF wd(6)]) simp
  have c: "content w MANIFEST_FILE_NAME = Some (MANIFEST_MAGIC @ ops_bytes C (ms @ [m]) @ [])" using wd(6) by simp
  note rp = replay_whole [OF wd(1) c wd(7,8)]
  have clean: "orphans st w = []" "missing_dead C st w = []"
    using disk ord by (simp_all add: orphans_def missing_dead_def filter_empty_conv tracked_def)
  have "\<not> is_empty st" using wd(5) by (simp add: is_empty_def)
  then obtain report where "scan_store C (w\<lparr>faults := None # None # None # ?fl\<rparr>) = (report, w)"
    and "report_issues report = ?iss"
    using image_files [OF img, of ?iss ?off] rp clean
    by (simp add: scan_store_def later_calls(1) wd(3) opn new all scan_replay_def push_issue_def
        image_files [OF img] torn_issues_def del: One_nat_def map_append)
  then show thesis by (rule that)
qed

text \<open>C40: One read that fails while a store is opened undoes an operation that was committed and
  synchronised: if the device fails while the scan reads the header of the manifest's last operation,
  opening cuts it from the manifest without approval and succeeds with the state before the operation. The
  operation here is one that sets metadata.\<close>

theorem read_fault_undoes_operation:
  assumes ok: "store_ok C ms fs pend (s, w)" and wm: "op_writable C (with_meta Metadata kvs)"
    and ord: "order_ok C" and j: "0 < j" "j < HEADER_LEN"
  shows "\<exists>s1 w1 s2 w2. write_metadata C kvs (s, w) = (Inr (), s1, w1)
    \<and> open_store C trigger (w1\<lparr>faults := [None, None, None, Some (length (ops_bytes C ms) + j)]\<rparr>) = (Inr s2, w2)
    \<and> store_ok C ms fs [] (s2, w2) \<and> store_metadata s2 = store_metadata s"
proof -
  let ?m = "with_meta Metadata kvs" and ?fl = "[None, None, None, Some (length (ops_bytes C ms) + j)]"
  let ?off = "MAGIC_LEN + length (ops_bytes C ms)"
  note D0 = store_okD [OF ok]
  note wd0 = image_world [OF D0(1)]
  obtain s1 w1 where r: "write_metadata C kvs (s, w) = (Inr (), s1, w1)" "store_ok C (ms @ [?m]) fs pend (s1, w1)"
    and com: "committed C ms ?m (s, w) = (s1, w1)"
    using write_metadata_ok [OF ok wm] by (cases "committed C ms ?m (s, w)") auto
  have w1: "w1 = store_file MANIFEST_FILE_NAME (MANIFEST_MAGIC @ ops_bytes C (ms @ [?m])) w"
    using com by (auto simp: committed_def)
  note D = store_okD [OF r(2)]
  note wd = image_world [OF D(1)]
  obtain report where scan: "scan_store C (w1\<lparr>faults := ?fl\<rparr>) = (report, w1)"
    and iss: "report_issues report = [\<lparr>issue_file = Manifest, the_issue = ManifestTornTail ?off\<rparr>]"
    by (rule failing_manifest_scan [OF D(1,2) ord j])
  let ?w2 = "store_file MANIFEST_FILE_NAME (MANIFEST_MAGIC @ ops_bytes C ms) w1"
  have "truncate_manifest ?off w1 = (Inr (), ?w2)"
    using wd(1,6) image_manifest_open(2) [OF D(1)]
    by (simp add: truncate_manifest_def and_then_def io_error_def map_err_def set_len_def manifest_handle_def)
  then have rec: "attempt_recovery C report False w1 = (Inr (), ?w2)"
    by (simp add: attempt_recovery_def iss create_fix_up_def auto_fix_def and_then_def)
  have a: "alike w ?w2" using wd0(6) wd0(2,3) by (simp add: alike_def w1 del: map_append)
  have h2: "healthy ?w2" using wd(1) by simp
  have img: "crash_image C ms (st_state s) fs [] [] ?w2" by (rule alike_image [OF a h2 D0(1)])
  have disk: "on_disk ?w2 = tracked (st_state s)" using alikeD(4) [OF a] D0(2) by simp
  obtain s2 where s2: "from_scan_report trigger (fst (scan_store C ?w2)) ?w2 = (Inr s2, ?w2)"
    "st_state s2 = st_state s" "store_ok C ms fs [] (s2, ?w2)"
    using opens_clean [OF img D0(3) disk next_after_tracked [OF ok] ord, of trigger] by blast
  obtain report2 where scan2: "scan_store C ?w2 = (report2, ?w2)" using scan_image [OF img] by simp
  have "open_store C trigger (w1\<lparr>faults := ?fl\<rparr>) = (Inr s2, ?w2)"
    using s2(1) by (simp add: open_store_def scan iss rec scan2)
  then show ?thesis using r(1) s2(2,3)
    by (intro exI [of _ s1] exI [of _ w1] exI [of _ s2] exI [of _ ?w2]) (simp add: store_metadata_def)
qed

theorem read_fault_undoes_operation_witness:
  "\<exists>(s :: store) w s1 w1 s2 w2. write_metadata sample [(1, [5])] (s, w) = (Inr (), s1, w1)
    \<and> open_store sample 1000 (w1\<lparr>faults := [None, None, None,
          Some (length (ops_bytes sample [first_op]) + 5)]\<rparr>) = (Inr s2, w2)
    \<and> store_metadata s2 = store_metadata s"
proof -
  obtain s w f where s: "store_ok sample [first_op] batch_frames next_batch (s, w)"
    by (rule writing_store)
  have wm: "op_writable sample (with_meta Metadata [(1, [5])])"
    by (rule sample_writable) (simp add: with_meta_def encode_sample_simps)
  have j: "0 < (5 :: nat)" "5 < HEADER_LEN" by (simp_all add: HEADER_LEN_def)
  show ?thesis using read_fault_undoes_operation [OF s wm sample_order j, of 1000] by blast
qed

end
