(* ===== verification/Spec2Isabelle.thy ===== *)
theory Spec2Isabelle
  imports Frame_Claims Index Codec Files Store_Stuck Store_Dropped Store_Runs Power_Claims Store_Faults Read_Fault
begin

text \<open>
  A verification development for woodshed, an append-only log store in Rust: a directory with a
  manifest and segment files, written through one handle, repaired and opened again after a crash, and
  read through a lending iterator. All of the crate's code that is not a test is modelled, with the
  exceptions listed at the end.

  \<^bold>\<open>The program.\<close> A frame (\<^verbatim>\<open>src/frame.rs\<close>) is an id, a length, a checksum and a payload. Segment files are
  frames of entries; the manifest is frames of operations (\<^verbatim>\<open>src/state.rs\<close>) whose replay
  (\<^verbatim>\<open>src/manifest.rs\<close>) gives the state of the store: live segments in order, seals, dead segments, the
  head and metadata. \<^verbatim>\<open>src/scan.rs\<close> reads a directory into a state, segment reports and issues
  (\<^verbatim>\<open>src/issue.rs\<close>); \<^verbatim>\<open>src/recovery.rs\<close> turns issues into fix-ups; \<^verbatim>\<open>src/store.rs\<close> opens, writes in
  batches, rolls segments over lazily, truncates at both ends, deletes dead files, and scans from an id
  with the help of the checkpoint index (\<^verbatim>\<open>src/index.rs\<close>). \<^verbatim>\<open>src/files.rs\<close> names and opens the files.

  \<^bold>\<open>Theories and sources.\<close>
  \<^item> \<open>Prelude\<close>: the id newtypes of \<^verbatim>\<open>src/lib.rs\<close> with their orders, effects as steps on a state that return
    an error or a result, \<open>Err\<close> for an error value and \<open>Panic\<close> for a failing \<^verbatim>\<open>expect\<close>. \<open>Byte_Order\<close>: big-endian
    words. \<open>Partition_Point\<close>: the binary search of the standard library, against the longest prefix.
    \<open>Runs\<close>: runs of transition systems, and the locales for invariants and simulations.
  \<^item> \<open>Crates\<close>: the hash, the yatlv frames and the iteration order of sets are parameters (a record), with
    the laws the code relies on and a concrete instance. \<open>Disk\<close>: the files of the directory and what the
    source uses of \<^verbatim>\<open>std::fs\<close>, with a list of outcomes that makes any call fail and any write stop after
    any number of bytes, and what of each file and of the directory has been synchronised.
  \<^item> \<open>Frame\<close> models \<^verbatim>\<open>src/frame.rs\<close>: \<open>buffer_write\<close>, \<open>cursor_flush\<close>, the scanner with its peeked header, \<open>scan_all\<close>,
    \<open>seek_to_id\<close>, \<open>scan_to_after\<close> and the payload reader with its drop. \<open>Frame_Laws\<close> and \<open>Frame_Read\<close> hold the
    laws, \<open>Frame_Claims\<close> the properties.
  \<^item> \<open>Index\<close> models \<^verbatim>\<open>src/index.rs\<close>; a locale states what a checkpoint index promises, and the index of a
    segment and that of the store both instantiate it.
  \<^item> \<open>State\<close> and \<open>Codec\<close> model \<^verbatim>\<open>src/state.rs\<close>: the operations, \<open>apply\<close> with its errors, the invariant
    \<open>wf_state\<close>, reachable states, and the encoding. \<open>Files\<close> models \<^verbatim>\<open>src/files.rs\<close>, \<open>Issue\<close> \<^verbatim>\<open>src/issue.rs\<close>,
    \<open>Manifest\<close> \<^verbatim>\<open>src/manifest.rs\<close>, where a locale states what a log of operations promises.
  \<^item> \<open>Scan_Report\<close> models \<^verbatim>\<open>src/scan.rs\<close>, \<open>Recovery\<close> \<^verbatim>\<open>src/recovery.rs\<close>, \<open>Store\<close> the store and its writer, and
    \<open>Reader\<close> the scan and the iterator of \<^verbatim>\<open>src/store.rs\<close>. \<open>Lending\<close>: what the trait \<^verbatim>\<open>LendingIterator\<close> of
    \<^verbatim>\<open>src/lib.rs\<close> promises to the caller's loop, a locale that the reader instantiates.
  \<^item> \<open>Log_Spec\<close> is the abstract specification: a log with a head, a pending batch and metadata, and the
    effect of each request.

  \<^bold>\<open>What is proved.\<close>
  \<^item> \<open>Crash_Image\<close> and \<open>Crash_Recovery\<close>: a \<open>crash_image\<close> is a directory whose manifest holds operations, maybe
    followed by less than a header of another, whose sealed segments hold whole frames, whose active
    segment holds whole frames and maybe a piece of another, with unknown segment files and without
    some dead ones. Its scan is computed exactly, and its repair ends in a clean image.
  \<^item> \<open>Store_Opens\<close>: the relation \<open>store_ok\<close> between a store in memory, its directory and the frames it holds;
    opening establishes it. \<open>Store_Laws\<close>, \<open>Store_Rollover\<close>, \<open>Store_Truncate\<close> and \<open>Store_Rollback\<close>: every operation
    keeps it and does to the frames what it should. \<open>Store_Claims\<close>, \<open>Store_Batches\<close>, \<open>Store_Reopen\<close> and
    \<open>Store_Faults\<close> add what opening again finds, also when the operation was cut.
  \<^item> \<open>Fault_Free\<close>: an operation that succeeds on a faulty device has done what it does on a working one.
    \<open>Store_Stops\<close>: whatever faults stop an operation, opening what is left, where it succeeds, finds the
    store before the operation or after it (of a batch, with some of its entries). \<open>Reopening\<close>: the same of a
    recovery that is stopped, any number of times.
  \<^item> \<open>Reader_Laws\<close> and \<open>Reader_Claims\<close>: what a scan yields, entry by entry, through the caller's loop.
  \<^item> \<open>Store_Runs\<close>: runs of operations, of calls that are refused, of restarts, and of operations and recoveries
    stopped by any faults simulate the log of \<open>Log_Spec\<close>; reading the store gives that log; no operation gets
    stuck. The guards of a run are those of \<open>store_step\<close>: ids pushed ascend, fields fit, a rollback is not
    behind a later index checkpoint of its segment, and after a stop the store opens again.
  \<^item> \<open>Power_Loss\<close>, \<open>Power_Runs\<close> and \<open>Power_Claims\<close>: what a loss of power takes away, which operations synchronise
    all they change, and that a caller who synchronises every batch, and the first operation of the store
    by another one, loses nothing in such a run, as long as names in the directory survive.
  \<^item> \<open>Store_Stuck\<close> and parts of the others state the opposite where the code does not do what it means to:
    a manifest operation torn in its payload, an interrupted creation, an approved repair of a sealed
    segment and an interrupted \<^verbatim>\<open>truncate_end\<close> leave a store that never opens again; \<^verbatim>\<open>truncate_end\<close> cuts in
    the wrong place behind a checkpoint; an index that a rollover made stale yields entries before the
    one asked for; a payload of \<open>2 ^ 32\<close> bytes cannot be read back.
    \<open>Store_Dropped\<close>: the entries of a writer that is dropped are written by the next one. \<open>Power_Claims\<close>: a
    rollover, the creation of a store and the creation of a segment file each leave something unsynchronised
    that a loss of power turns into a lost store or a lost batch. \<open>Read_Fault\<close>: a read that fails once while
    a store is opened makes opening cut whole entries, or a committed operation, without approval.

  \<^bold>\<open>Bounds.\<close> The loops of the scanner, of replay and of the payload reader are recursive functions whose
  termination is proved from the bytes left. \<open>next\<close> counts rounds down from the number of live segments
  and one, which is enough for any contents and faults (\<open>next_ends\<close>); the caller's loop \<open>drain\<close> counts
  calls of \<open>next\<close>, and as many as there are frames and one are enough. A read returns a bounded number of
  bytes, and no result depends on the bound. Ids are words of 32 and 64 bits; offsets are natural
  numbers, cut to 64 bits where the code stores them.

  \<^bold>\<open>Faults.\<close> A crash ends the process; what a completed write put into a file stays there, as in the page
  cache. A loss of power (\<open>power_loss\<close>) leaves of each file a piece from its start that has at least the
  bytes its content shares with its content when it was last synchronised, so writes reach the device in
  order and nothing is replaced by other bytes; a cut of a file counts as done. Whether names survive that
  the directory got since it was synchronised is a parameter of it.

  \<^bold>\<open>Not modelled.\<close> Metrics and tracing; \<^verbatim>\<open>debug_assert\<close>, except for the one of \<open>add_segment\<close>, whose failure is a
  result of it; the overflow checks of debug builds, except for the segment id, whose overflow is a panic
  (a release build goes on with id 0); the text of error messages; \<^verbatim>\<open>StoreCfg\<close> apart from its rollover
  trigger, since the directory is the world; \<^verbatim>\<open>EntryReader\<close>, which only passes reads on; functions that exist
  for tests.

  \<^bold>\<open>Plan.\<close> Losses of power in the middle of recovery as steps of runs; writes that reach the device out of
  order.
\<close>

end
